(* ===== verification/Prelude.thy ===== *)
theory Prelude
  imports Main "HOL-Library.Word"
begin

text \<open>
  Shared vocabulary of the development: the C integer types, the result type in which undefined
  behaviour is a value, and the generic lemmas on lists and integers the components use.

  Conventions.
  \<^item> \<open>uint32_t\<close> is \<open>32 word\<close> and \<open>BYTE\<close> (a signed \<open>char\<close>) is \<open>8 word\<close>; its promotion to
    \<open>int\<close> is \<open>sint\<close>.
  \<^item> \<open>int\<close> and \<open>unsigned long\<close> are HOL integers. Every operation of the source that can leave the
    range of its type is written with \<open>chk_int\<close> (signed overflow is undefined behaviour), with
    \<open>to_int\<close> (conversion to \<open>int\<close>, which wraps) or with \<open>ul\<close> (arithmetic modulo \<open>2 ^ 64\<close>).
  \<^item> An access the C language gives no meaning to is \<open>Inl e\<close>; an error code of the source is an
    ordinary return value.
\<close>

unbundle bit_operations_syntax

type_synonym u32 = "32 word"
type_synonym byte = "8 word"

subsection \<open>Undefined behaviour as a value\<close>

datatype c_error =
    Signed_overflow   \<comment> \<open>an \<open>int\<close> operation left the range of \<open>int\<close>\<close>
  | Out_of_bounds     \<comment> \<open>an array was accessed outside its bounds\<close>
  | Uninit_read       \<comment> \<open>a local variable was read before it was written\<close>
  | Bad_size          \<comment> \<open>an allocation was asked for a negative size\<close>
  | Dangling          \<comment> \<open>a released or null object was accessed\<close>

type_synonym 'a res = "c_error + 'a"

definition rbind :: "'a res \<Rightarrow> ('a \<Rightarrow> 'b res) \<Rightarrow> 'b res" where
  "rbind m f = (case m of Inl e \<Rightarrow> Inl e | Inr x \<Rightarrow> f x)"

lemma rbind_simps [simp]:
  "rbind (Inl e) f = Inl e"
  "rbind (Inr x) f = f x"
  by (simp_all add: rbind_def)

lemma rbind_cong [fundef_cong]:
  assumes "m = m'" and "\<And>x. m' = Inr x \<Longrightarrow> f x = f' x"
  shows "rbind m f = rbind m' f'"
  using assms by (auto simp: rbind_def split: sum.split)

lemma rbind_Inr_iff: "rbind m f = Inr y \<longleftrightarrow> (\<exists>x. m = Inr x \<and> f x = Inr y)"
  by (cases m) auto

lemma rbind_assoc: "rbind (rbind m f) g = rbind m (\<lambda>x. rbind (f x) g)"
  by (cases m) auto

subsection \<open>C integers\<close>

definition INT_MAX :: int where
  "INT_MAX = 2147483647"

definition INT_MIN :: int where
  "INT_MIN = - 2147483648"

definition chk_int :: "int \<Rightarrow> int res" where
  "chk_int x = (if INT_MIN \<le> x \<and> x \<le> INT_MAX then Inr x else Inl Signed_overflow)"

definition to_int :: "int \<Rightarrow> int" where
  "to_int x = (x + 2147483648) mod 4294967296 - 2147483648"

definition ul :: "int \<Rightarrow> int" where
  "ul x = x mod 18446744073709551616"

definition c_div :: "int \<Rightarrow> int \<Rightarrow> int" where
  "c_div a b = sgn a * sgn b * (\<bar>a\<bar> div \<bar>b\<bar>)"

named_theorems c_arith \<open>conversions and checks that are the identity on small values\<close>

lemma chk_int_in [c_arith]: "INT_MIN \<le> x \<Longrightarrow> x \<le> INT_MAX \<Longrightarrow> chk_int x = Inr x"
  by (simp add: chk_int_def)

lemma chk_int_small [c_arith]: "0 \<le> x \<Longrightarrow> x \<le> 2147483647 \<Longrightarrow> chk_int x = Inr x"
  by (simp add: chk_int_def INT_MAX_def INT_MIN_def)

lemma to_int_small [c_arith]: "0 \<le> x \<Longrightarrow> x \<le> 2147483647 \<Longrightarrow> to_int x = x"
  by (simp add: to_int_def)

lemma to_int_range: "INT_MIN \<le> to_int x \<and> to_int x \<le> INT_MAX"
  by (simp add: to_int_def INT_MAX_def INT_MIN_def)

lemma ul_small [c_arith]: "0 \<le> x \<Longrightarrow> x < 18446744073709551616 \<Longrightarrow> ul x = x"
  by (simp add: ul_def)

lemma ul_range: "0 \<le> ul x \<and> ul x < 18446744073709551616"
  by (simp add: ul_def)

lemma c_div_nonneg: "0 \<le> a \<Longrightarrow> 0 < b \<Longrightarrow> c_div a b = a div b"
  by (cases "a = 0") (auto simp: c_div_def)

lemma to_int_sint: "to_int (uint w) = sint (w :: u32)"
  by (simp add: to_int_def sint_uint signed_take_bit_eq_take_bit_shift take_bit_eq_mod)

subsection \<open>Words\<close>

lemma sint_of_int_small [c_arith]:
  assumes "0 \<le> x" and "x \<le> 2147483647"
  shows "sint (word_of_int x :: u32) = x"
proof -
  have "uint (word_of_int x :: u32) = x"
    using assms by (simp add: uint_word_of_int)
  then have "sint (word_of_int x :: u32) = to_int x"
    by (metis to_int_sint)
  with assms show ?thesis by (simp add: to_int_small)
qed

lemma sign_extend_byte_roundtrip [simp]: "ucast (scast (b :: byte) :: u32) = b"
  by (rule bit_word_eqI) (simp add: bit_simps)

subsection \<open>Invariants of transition systems\<close>

text \<open>
  A step relation and a property its steps keep. The components state their invariants as
  interpretations of this locale.
\<close>

locale transition_invariant =
  fixes step :: "'s \<Rightarrow> 's \<Rightarrow> bool" and inv :: "'s \<Rightarrow> bool"
  assumes step_inv: "step s s' \<Longrightarrow> inv s \<Longrightarrow> inv s'"
begin

lemma steps_inv: "step\<^sup>*\<^sup>* s s' \<Longrightarrow> inv s \<Longrightarrow> inv s'"
  by (induction rule: rtranclp_induct) (auto intro: step_inv)

text \<open>What a step changes in no state of the invariant is not changed by a run.\<close>

lemma steps_keep:
  assumes "step\<^sup>*\<^sup>* s s'" and "inv s" and keep: "\<And>s s'. inv s \<Longrightarrow> step s s' \<Longrightarrow> f s' = f s"
  shows "f s' = f s"
  using assms(1,2)
proof (induction rule: rtranclp_induct)
  case (step s1 s2)
  then show ?case
    using keep [OF steps_inv [OF step.hyps(1) step.prems] step.hyps(2)] by simp
qed simp

end

text \<open>
  A rank that every step decreases bounds the length of the runs.
\<close>

locale transition_rank = transition_invariant step inv for step :: "'s \<Rightarrow> 's \<Rightarrow> bool" and inv :: "'s \<Rightarrow> bool" +
  fixes rank :: "'s \<Rightarrow> nat"
  assumes step_rank: "step s s' \<Longrightarrow> inv s \<Longrightarrow> rank s' < rank s"
begin

lemma run_length: "(step ^^ k) s s' \<Longrightarrow> inv s \<Longrightarrow> k + rank s' \<le> rank s"
proof (induction k arbitrary: s)
  case (Suc k)
  from Suc.prems(1) obtain s1 where s1: "step s s1" "(step ^^ k) s1 s'"
    by (rule relpowp_Suc_E2)
  with Suc.IH [OF s1(2)] step_inv [OF s1(1) Suc.prems(2)] step_rank [OF s1(1) Suc.prems(2)] show ?case
    by simp
qed simp

lemma run_ends: "inv s \<Longrightarrow> \<exists>s'. step\<^sup>*\<^sup>* s s' \<and> (\<nexists>s''. step s' s'')"
proof (induction "rank s" arbitrary: s rule: less_induct)
  case less
  show ?case
  proof (cases "\<exists>s1. step s s1")
    case True
    then obtain s1 where s1: "step s s1"
      by blast
    from less(1) [OF step_rank [OF s1 less(2)] step_inv [OF s1 less(2)]] show ?thesis
      by (meson s1 converse_rtranclp_into_rtranclp)
  qed blast
qed

end

subsection \<open>Lists\<close>

lemma distinct_snoc_last:
  assumes "distinct xs" and "xs \<noteq> []"
  shows "distinct (butlast xs)" and "set (butlast xs) = set xs - {last xs}"
    and "last xs \<in> set xs"
proof -
  obtain ys y where xs: "xs = ys @ [y]"
    using assms(2) by (cases xs rule: rev_cases) auto
  show "distinct (butlast xs)" "set (butlast xs) = set xs - {last xs}" "last xs \<in> set xs"
    using assms(1) unfolding xs by auto
qed

lemma sorted_wrt_sym_iff:
  assumes "\<And>x y. R x y \<Longrightarrow> R y x"
  shows "sorted_wrt R (xs @ y # ys) \<longleftrightarrow> sorted_wrt R (xs @ ys) \<and> (\<forall>x \<in> set xs \<union> set ys. R y x)"
  using assms by (auto simp: sorted_wrt_append)

end
