(* ===== verification/Bitops.thy ===== *)
theory Bitops
  imports Prelude
begin

text \<open>
  The macros of \<open>include/bitops.h\<close> and the value operators of \<open>include/mm.h\<close>, on \<open>uint32_t\<close>.
  \<open>CONFIG_64BIT\<close> is not defined by the build, so \<open>BITS_PER_LONG\<close> is 32. The lemmas give the
  meaning of the macros: \<open>GENMASK h l\<close> is the set of bits \<open>l..h\<close>, \<open>NBITS\<close> is the binary
  logarithm, \<open>GETVAL\<close> reads what \<open>SETVAL\<close> stored and \<open>SETVAL\<close> leaves the other bits alone.
\<close>

definition BITS_PER_LONG :: nat where
  "BITS_PER_LONG = 32"

definition BITS_PER_BYTE :: int where
  "BITS_PER_BYTE = 8"

definition DIV_ROUND_UP :: "int \<Rightarrow> int \<Rightarrow> int res" where
  "DIV_ROUND_UP n d = rbind (chk_int (n + d)) (\<lambda>s. rbind (chk_int (s - 1)) (\<lambda>t. Inr (c_div t d)))"

definition BIT :: "nat \<Rightarrow> u32" where
  "BIT nr = push_bit nr 1"

definition BIT_ULL :: "nat \<Rightarrow> 64 word" where
  "BIT_ULL nr = push_bit nr 1"

definition BIT_MASK :: "nat \<Rightarrow> 64 word" where
  "BIT_MASK nr = push_bit (nr mod BITS_PER_LONG) 1"

definition BIT_WORD :: "nat \<Rightarrow> nat" where
  "BIT_WORD nr = nr div BITS_PER_LONG"

text \<open>\<open>sizeof(long)\<close> is 8 and has an unsigned type, which the whole expression takes.\<close>

definition BITS_TO_LONGS :: "int \<Rightarrow> int" where
  "BITS_TO_LONGS nr = ul (ul (ul nr + BITS_PER_BYTE * 8) - 1) div (BITS_PER_BYTE * 8)"

definition GENMASK :: "nat \<Rightarrow> nat \<Rightarrow> u32" where
  "GENMASK h l = push_bit l (NOT 0) AND drop_bit (BITS_PER_LONG - h - 1) (NOT 0)"

definition NBITS2 :: "u32 \<Rightarrow> nat" where
  "NBITS2 n = (if n AND 2 \<noteq> 0 then 1 else 0)"

definition NBITS4 :: "u32 \<Rightarrow> nat" where
  "NBITS4 n = (if n AND 0xC \<noteq> 0 then 2 + NBITS2 (drop_bit 2 n) else NBITS2 n)"

definition NBITS8 :: "u32 \<Rightarrow> nat" where
  "NBITS8 n = (if n AND 0xF0 \<noteq> 0 then 4 + NBITS4 (drop_bit 4 n) else NBITS4 n)"

definition NBITS16 :: "u32 \<Rightarrow> nat" where
  "NBITS16 n = (if n AND 0xFF00 \<noteq> 0 then 8 + NBITS8 (drop_bit 8 n) else NBITS8 n)"

definition NBITS32 :: "u32 \<Rightarrow> nat" where
  "NBITS32 n = (if n AND 0xFFFF0000 \<noteq> 0 then 16 + NBITS16 (drop_bit 16 n) else NBITS16 n)"

definition NBITS :: "u32 \<Rightarrow> nat" where
  "NBITS n = (if n = 0 then 0 else NBITS32 n)"

definition EXTRACT_NBITS :: "u32 \<Rightarrow> nat \<Rightarrow> nat \<Rightarrow> u32" where
  "EXTRACT_NBITS nr h l = drop_bit l (nr AND GENMASK h l)"

definition SETBIT :: "u32 \<Rightarrow> u32 \<Rightarrow> u32" where
  "SETBIT v m = v OR m"

definition CLRBIT :: "u32 \<Rightarrow> u32 \<Rightarrow> u32" where
  "CLRBIT v m = v AND NOT m"

definition SETVAL :: "u32 \<Rightarrow> int \<Rightarrow> u32 \<Rightarrow> nat \<Rightarrow> u32" where
  "SETVAL v val m offst = (v AND NOT m) OR (push_bit offst (word_of_int val) AND m)"

definition GETVAL :: "u32 \<Rightarrow> u32 \<Rightarrow> nat \<Rightarrow> u32" where
  "GETVAL v m offst = drop_bit offst (v AND m)"

lemmas bitop_defs = SETBIT_def CLRBIT_def SETVAL_def GETVAL_def

subsection \<open>Bit arrays\<close>

text \<open>
  \<open>BIT_WORD\<close> and \<open>BIT_MASK\<close> name one bit of an array of \<open>long\<close>: different numbers name different
  bits. \<open>BITS_TO_LONGS\<close> counts 64 bits per element where \<open>BIT_WORD\<close> uses 32, so an array of that size
  is too short for its last bits. No code of the repository uses these macros.
\<close>

lemma bit_names_inj:
  assumes "BIT_WORD m = BIT_WORD n" and "BIT_MASK m = BIT_MASK n"
  shows "m = n"
proof -
  have "bit (BIT_MASK m) (n mod 32)"
    unfolding assms(2) by (simp add: BIT_MASK_def BITS_PER_LONG_def bit_simps less_trans [of _ 32 64])
  then have "n mod 32 = m mod 32"
    by (simp add: BIT_MASK_def BITS_PER_LONG_def bit_simps)
  with assms(1) show ?thesis
    unfolding BIT_WORD_def BITS_PER_LONG_def by (metis div_mult_mod_eq)
qed

lemma bit_array_too_short:
  assumes "32 < n" and "n \<le> 64"
  shows "BITS_TO_LONGS (int n) = 1 \<and> BIT_WORD (n - 1) = 1"
proof -
  have "(63 + int n) div 64 = 1"
    using div_pos_geq [of 64 "63 + int n"] div_pos_pos_trivial [of "int n - 1" 64] assms by simp
  moreover have "(n - 1) div 32 = 1"
    by (rule div_nat_eqI) (use assms in simp_all)
  moreover have "ul (ul (ul (int n) + 64) - 1) = 63 + int n"
    using assms by (simp add: ul_def)
  ultimately show ?thesis
    by (simp add: BITS_TO_LONGS_def BITS_PER_BYTE_def BIT_WORD_def BITS_PER_LONG_def)
qed

subsection \<open>Single bits\<close>

named_theorems pte_bits \<open>bit-level readings of the macros\<close>

lemma bit_BIT [pte_bits]: "bit (BIT nr) i \<longleftrightarrow> i = nr \<and> nr < 32"
  by (auto simp: BIT_def bit_simps)

lemma bit_GENMASK [pte_bits]: "h < 32 \<Longrightarrow> bit (GENMASK h l) i \<longleftrightarrow> l \<le> i \<and> i \<le> h"
  by (auto simp: GENMASK_def BITS_PER_LONG_def bit_simps)

lemma word_and_eq_0_iff: "(v :: u32) AND m = 0 \<longleftrightarrow> (\<forall>i. bit v i \<longrightarrow> \<not> bit m i)"
proof -
  have "bit v i \<Longrightarrow> i < 32" for i
    using bit_imp_le_length [of v i] by simp
  then show ?thesis
    by (auto simp: bit_eq_iff [of "v AND m"] bit_simps)
qed

lemma BIT_AND_eq_0_iff: "nr < 32 \<Longrightarrow> v AND BIT nr = 0 \<longleftrightarrow> \<not> bit v nr"
  by (auto simp: word_and_eq_0_iff pte_bits)

lemma bit_SETBIT [pte_bits]: "bit (SETBIT v m) i \<longleftrightarrow> bit v i \<or> bit m i"
  by (simp add: SETBIT_def bit_simps)

lemma bit_CLRBIT [pte_bits]: "bit (CLRBIT v m) i \<longleftrightarrow> bit v i \<and> \<not> bit m i"
  by (auto simp: CLRBIT_def bit_simps dest: bit_imp_le_length)

lemma bit_SETVAL [pte_bits]:
  "bit (SETVAL v x m k) i \<longleftrightarrow>
     (if bit m i then k \<le> i \<and> bit (word_of_int x :: u32) (i - k) else bit v i)"
  by (auto simp: SETVAL_def bit_simps dest: bit_imp_le_length)

lemma bit_GETVAL [pte_bits]: "bit (GETVAL v m k) i \<longleftrightarrow> bit v (k + i) \<and> bit m (k + i)"
  by (simp add: GETVAL_def bit_simps)

text \<open>A field written with \<open>SETVAL\<close> reads back, reduced to the width of the field.\<close>

lemma GETVAL_SETVAL:
  assumes "h < 32" and "l \<le> h"
  shows "GETVAL (SETVAL v x (GENMASK h l) l) (GENMASK h l) l = take_bit (Suc h - l) (word_of_int x)"
  by (rule bit_word_eqI) (use assms in \<open>auto simp: pte_bits bit_simps\<close>)

lemma GETVAL_SETVAL_other:
  assumes "m AND m' = 0"
  shows "GETVAL (SETVAL v x m k) m' k' = GETVAL v m' k'"
proof (rule bit_word_eqI)
  fix n
  have "\<not> (bit m (k' + n) \<and> bit m' (k' + n))"
    using assms by (auto simp: word_and_eq_0_iff)
  then show "bit (GETVAL (SETVAL v x m k) m' k') n = bit (GETVAL v m' k') n"
    by (auto simp: pte_bits)
qed

subsection \<open>\<open>NBITS\<close> is the binary logarithm\<close>

lemma unat_u32_less: "unat (n :: u32) < 4294967296"
proof -
  have "unat n < 2 ^ LENGTH(32)"
    by (rule unsigned_less)
  then show ?thesis by simp
qed

lemma unat_drop_bit: "unat (drop_bit k (n :: u32)) = unat n div 2 ^ k"
proof -
  have "unat (drop_bit k n) = drop_bit k (unat n)"
    using unat_u32_less [of n] by (simp add: unsigned_drop_bit_eq take_bit_nat_eq_self)
  then show ?thesis
    by (simp only: drop_bit_eq_div)
qed

lemma and_high_eq_0_iff:
  assumes small: "unat n < 2 ^ (2 * k)" and m: "(m :: u32) = push_bit k (mask k)" and k: "2 * k \<le> 32"
  shows "n AND m \<noteq> 0 \<longleftrightarrow> 2 ^ k \<le> unat n"
proof -
  have high: "bit n i \<Longrightarrow> i < 2 * k" for i
  proof (rule ccontr)
    assume b: "bit n i" and "\<not> i < 2 * k"
    then have "unat n < 2 ^ i"
      using small by (meson linorder_not_less order_less_le_trans power_increasing one_le_numeral)
    then have "\<not> bit (unat n) i"
      by (simp add: bit_iff_odd)
    with b show False
      by (simp add: bit_unsigned_iff)
  qed
  have "n AND m = 0 \<longleftrightarrow> drop_bit k n = 0"
  proof
    assume z: "n AND m = 0"
    show "drop_bit k n = 0"
    proof (rule bit_word_eqI)
      fix i
      have "bit n (k + i) \<Longrightarrow> bit m (k + i)"
        using high [of "k + i"] k by (simp add: m bit_simps)
      with z show "bit (drop_bit k n) i = bit (0 :: u32) i"
        by (auto simp: word_and_eq_0_iff bit_simps)
    qed
  next
    assume z: "drop_bit k n = 0"
    have "\<not> bit n i" if "k \<le> i" for i
      using arg_cong [OF z, of "\<lambda>w. bit w (i - k)"] that by (simp add: bit_simps)
    then show "n AND m = 0"
      by (auto simp: word_and_eq_0_iff m bit_simps)
  qed
  moreover have "drop_bit k n = 0 \<longleftrightarrow> unat n < 2 ^ k"
    by (metis unat_drop_bit div_eq_0_iff power_not_zero unat_eq_0 zero_neq_numeral)
  ultimately show ?thesis by auto
qed

text \<open>One level of the macro tower: the upper half is not zero exactly when the logarithm is in it.\<close>

lemma NBITS_step:
  assumes "unat n < 2 ^ (2 * k)" and "2 ^ k \<le> unat n"
    and rec: "\<And>x. x \<noteq> 0 \<Longrightarrow> unat x < 2 ^ k \<Longrightarrow> 2 ^ f x \<le> unat x \<and> unat x < 2 ^ Suc (f x)"
  shows "2 ^ (k + f (drop_bit k n)) \<le> unat (n :: u32) \<and> unat n < 2 * 2 ^ (k + f (drop_bit k n))"
proof -
  let ?d = "drop_bit k n"
  have d: "unat ?d = unat n div 2 ^ k"
    by (rule unat_drop_bit)
  have "unat n div 2 ^ k < 2 ^ k"
    using assms(1) by (simp add: less_mult_imp_div_less power_add mult_2)
  moreover have "?d \<noteq> 0"
    using assms(2) d by (auto simp: word_unat_eq_iff div_eq_0_iff)
  ultimately have "2 ^ f ?d \<le> unat n div 2 ^ k" "unat n div 2 ^ k < 2 ^ Suc (f ?d)"
    using rec [of ?d] d by simp_all
  then have "2 ^ f ?d * 2 ^ k \<le> unat n" "unat n < 2 ^ Suc (f ?d) * 2 ^ k"
    by (simp_all add: less_eq_div_iff_mult_less_eq div_less_iff_less_mult)
  then show ?thesis
    by (simp add: power_add mult_ac)
qed

lemma NBITS2_log: "n \<noteq> 0 \<Longrightarrow> unat n < 2 ^ 2 \<Longrightarrow> 2 ^ NBITS2 n \<le> unat n \<and> unat n < 2 ^ Suc (NBITS2 n)"
proof -
  assume n: "n \<noteq> 0" "unat n < 2 ^ 2"
  have "n AND 2 \<noteq> 0 \<longleftrightarrow> 2 ^ 1 \<le> unat n"
    using n(2) by (intro and_high_eq_0_iff) (simp_all add: mask_eq_exp_minus_1)
  moreover have "unat n \<noteq> 0"
    using n(1) by (simp add: unat_eq_0)
  ultimately show ?thesis
    using n(2) by (auto simp: NBITS2_def)
qed

lemma NBITS4_log: "n \<noteq> 0 \<Longrightarrow> unat n < 2 ^ 4 \<Longrightarrow> 2 ^ NBITS4 n \<le> unat n \<and> unat n < 2 ^ Suc (NBITS4 n)"
  using and_high_eq_0_iff [of n 2 "0xC"] NBITS_step [of n 2 NBITS2, OF _ _ NBITS2_log] NBITS2_log [of n]
  by (simp add: NBITS4_def mask_eq_exp_minus_1)

lemma NBITS8_log: "n \<noteq> 0 \<Longrightarrow> unat n < 2 ^ 8 \<Longrightarrow> 2 ^ NBITS8 n \<le> unat n \<and> unat n < 2 ^ Suc (NBITS8 n)"
  using and_high_eq_0_iff [of n 4 "0xF0"] NBITS_step [of n 4 NBITS4, OF _ _ NBITS4_log] NBITS4_log [of n]
  by (simp add: NBITS8_def mask_eq_exp_minus_1)

lemma NBITS16_log: "n \<noteq> 0 \<Longrightarrow> unat n < 2 ^ 16 \<Longrightarrow> 2 ^ NBITS16 n \<le> unat n \<and> unat n < 2 ^ Suc (NBITS16 n)"
  using and_high_eq_0_iff [of n 8 "0xFF00"] NBITS_step [of n 8 NBITS8, OF _ _ NBITS8_log] NBITS8_log [of n]
  by (simp add: NBITS16_def mask_eq_exp_minus_1)

lemma NBITS32_log: "n \<noteq> 0 \<Longrightarrow> 2 ^ NBITS32 n \<le> unat n \<and> unat n < 2 ^ Suc (NBITS32 n)"
  using and_high_eq_0_iff [of n 16 "0xFFFF0000"] NBITS_step [of n 16 NBITS16, OF _ _ NBITS16_log]
    NBITS16_log [of n] unat_u32_less [of n]
  by (simp add: NBITS32_def mask_eq_exp_minus_1)

subsection \<open>Properties\<close>

text \<open>
  C40. The macro tower \<open>NBITS\<close> computes the binary logarithm of every nonzero 32-bit value: the
  result \<open>k\<close> satisfies \<open>2 ^ k \<le> n < 2 ^ (k + 1)\<close>.
\<close>

theorem NBITS_is_log2:
  "n \<noteq> 0 \<Longrightarrow> 2 ^ NBITS n \<le> unat n \<and> unat n < 2 ^ Suc (NBITS n)"
  using NBITS32_log [of n] by (simp add: NBITS_def)

theorem NBITS_is_log2_witness:
  "2 ^ NBITS 0x12345 \<le> unat (0x12345 :: u32) \<and> unat (0x12345 :: u32) < 2 ^ Suc (NBITS 0x12345)"
proof -
  have "(0x12345 :: u32) \<noteq> 0"
    by simp
  then show ?thesis
    by (rule NBITS_is_log2)
qed

end
