(* ===== verification/Pte.thy ===== *)
theory Pte
  imports Bitops
begin

text \<open>
  Page table entries: the layout macros of \<open>include/mm.h\<close> and the three functions of \<open>src/mm.c\<close>
  that build an entry. An online entry holds the RAM frame in bits 0 to 12; a swapped entry holds
  the swap device in bits 0 to 4 and the swap frame in bits 5 to 25, so the two layouts overlap.
  The lemmas show that each setter produces an entry whose getters return what was stored, whatever
  the entry held before, and how numbers that do not fit the fields are truncated.
\<close>

definition PAGING_CPU_BUS_WIDTH :: nat where
  "PAGING_CPU_BUS_WIDTH = 22"

definition PAGING_PAGESZ :: int where
  "PAGING_PAGESZ = 256"

definition PAGING_MEMRAMSZ :: u32 where
  "PAGING_MEMRAMSZ = BIT 21"

definition PAGING_MEMSWPSZ :: u32 where
  "PAGING_MEMSWPSZ = BIT 29"

definition PAGING_SWPFPN_OFFSET :: nat where
  "PAGING_SWPFPN_OFFSET = 5"

definition PAGING_MAX_PGN :: int where
  "PAGING_MAX_PGN = (uint (BIT PAGING_CPU_BUS_WIDTH) + PAGING_PAGESZ - 1) div PAGING_PAGESZ"

definition PAGING_PAGE_ALIGNSZ :: "int \<Rightarrow> int res" where
  "PAGING_PAGE_ALIGNSZ sz =
     rbind (DIV_ROUND_UP sz PAGING_PAGESZ) (\<lambda>q. chk_int (q * PAGING_PAGESZ))"

definition PAGING_SBRK_INIT_SZ :: int where
  "PAGING_SBRK_INIT_SZ = PAGING_PAGESZ"

definition PAGING_PTE_PRESENT_MASK :: u32 where
  "PAGING_PTE_PRESENT_MASK = BIT 31"

definition PAGING_PTE_SWAPPED_MASK :: u32 where
  "PAGING_PTE_SWAPPED_MASK = BIT 30"

definition PAGING_PTE_RESERVE_MASK :: u32 where
  "PAGING_PTE_RESERVE_MASK = BIT 29"

definition PAGING_PTE_DIRTY_MASK :: u32 where
  "PAGING_PTE_DIRTY_MASK = BIT 28"

definition PAGING_PTE_EMPTY01_MASK :: u32 where
  "PAGING_PTE_EMPTY01_MASK = BIT 14"

definition PAGING_PTE_EMPTY02_MASK :: u32 where
  "PAGING_PTE_EMPTY02_MASK = BIT 13"

definition PAGING_PTE_SET_PRESENT :: "u32 \<Rightarrow> u32" where
  "PAGING_PTE_SET_PRESENT pte = pte OR PAGING_PTE_PRESENT_MASK"

definition PAGING_PAGE_PRESENT :: "u32 \<Rightarrow> bool" where
  "PAGING_PAGE_PRESENT pte \<longleftrightarrow> pte AND PAGING_PTE_PRESENT_MASK \<noteq> 0"

definition PAGING_PAGE_SWAPPED :: "u32 \<Rightarrow> bool" where
  "PAGING_PAGE_SWAPPED pte \<longleftrightarrow> pte AND PAGING_PTE_SWAPPED_MASK \<noteq> 0"

text \<open>The bounds of the fields.\<close>

definition PAGING_PTE_USRNUM_LOBIT :: nat where
  "PAGING_PTE_USRNUM_LOBIT = 15"

definition PAGING_PTE_USRNUM_HIBIT :: nat where
  "PAGING_PTE_USRNUM_HIBIT = 27"

definition PAGING_PTE_FPN_LOBIT :: nat where
  "PAGING_PTE_FPN_LOBIT = 0"

definition PAGING_PTE_FPN_HIBIT :: nat where
  "PAGING_PTE_FPN_HIBIT = 12"

definition PAGING_PTE_SWPTYP_LOBIT :: nat where
  "PAGING_PTE_SWPTYP_LOBIT = 0"

definition PAGING_PTE_SWPTYP_HIBIT :: nat where
  "PAGING_PTE_SWPTYP_HIBIT = 4"

definition PAGING_PTE_SWPOFF_LOBIT :: nat where
  "PAGING_PTE_SWPOFF_LOBIT = 5"

definition PAGING_PTE_SWPOFF_HIBIT :: nat where
  "PAGING_PTE_SWPOFF_HIBIT = 25"

definition PAGING_ADDR_OFFST_LOBIT :: nat where
  "PAGING_ADDR_OFFST_LOBIT = 0"

definition PAGING_ADDR_OFFST_HIBIT :: nat where
  "PAGING_ADDR_OFFST_HIBIT = NBITS 256 - 1"

definition PAGING_ADDR_PGN_LOBIT :: nat where
  "PAGING_ADDR_PGN_LOBIT = NBITS 256"

definition PAGING_ADDR_PGN_HIBIT :: nat where
  "PAGING_ADDR_PGN_HIBIT = PAGING_CPU_BUS_WIDTH - 1"

definition PAGING_ADDR_FPN_LOBIT :: nat where
  "PAGING_ADDR_FPN_LOBIT = NBITS 256"

definition PAGING_ADDR_FPN_HIBIT :: nat where
  "PAGING_ADDR_FPN_HIBIT = NBITS PAGING_MEMRAMSZ - 1"

definition PAGING_SWP_LOBIT :: nat where
  "PAGING_SWP_LOBIT = NBITS 256"

definition PAGING_SWP_HIBIT :: nat where
  "PAGING_SWP_HIBIT = NBITS PAGING_MEMSWPSZ - 1"

definition PAGING_PTE_USRNUM_MASK :: u32 where
  "PAGING_PTE_USRNUM_MASK = GENMASK PAGING_PTE_USRNUM_HIBIT PAGING_PTE_USRNUM_LOBIT"

definition PAGING_PTE_FPN_MASK :: u32 where
  "PAGING_PTE_FPN_MASK = GENMASK PAGING_PTE_FPN_HIBIT PAGING_PTE_FPN_LOBIT"

definition PAGING_PTE_SWPTYP_MASK :: u32 where
  "PAGING_PTE_SWPTYP_MASK = GENMASK PAGING_PTE_SWPTYP_HIBIT PAGING_PTE_SWPTYP_LOBIT"

definition PAGING_PTE_SWPOFF_MASK :: u32 where
  "PAGING_PTE_SWPOFF_MASK = GENMASK PAGING_PTE_SWPOFF_HIBIT PAGING_PTE_SWPOFF_LOBIT"

definition PAGING_OFFST_MASK :: u32 where
  "PAGING_OFFST_MASK = GENMASK PAGING_ADDR_OFFST_HIBIT PAGING_ADDR_OFFST_LOBIT"

definition PAGING_PGN_MASK :: u32 where
  "PAGING_PGN_MASK = GENMASK PAGING_ADDR_PGN_HIBIT PAGING_ADDR_PGN_LOBIT"

definition PAGING_FPN_MASK :: u32 where
  "PAGING_FPN_MASK = GENMASK PAGING_ADDR_FPN_HIBIT PAGING_ADDR_FPN_LOBIT"

definition PAGING_SWP_MASK :: u32 where
  "PAGING_SWP_MASK = GENMASK PAGING_SWP_HIBIT PAGING_SWP_LOBIT"

text \<open>
  \<open>PAGING_PGN\<close> and \<open>PAGING_OFFST\<close> are applied to \<open>int\<close> addresses, which the mask converts to
  \<open>unsigned\<close>; the results are stored in \<open>int\<close> variables.
\<close>

definition PAGING_OFFST :: "int \<Rightarrow> int" where
  "PAGING_OFFST x = sint (GETVAL (word_of_int x) PAGING_OFFST_MASK PAGING_ADDR_OFFST_LOBIT)"

definition PAGING_PGN :: "int \<Rightarrow> int" where
  "PAGING_PGN x = sint (GETVAL (word_of_int x) PAGING_PGN_MASK PAGING_ADDR_PGN_LOBIT)"

definition PAGING_FPN :: "u32 \<Rightarrow> int" where
  "PAGING_FPN pte = sint (GETVAL pte PAGING_PTE_FPN_MASK PAGING_PTE_FPN_LOBIT)"

definition PAGING_PTE_SWP :: "u32 \<Rightarrow> int" where
  "PAGING_PTE_SWP pte = sint (GETVAL pte PAGING_PTE_SWPOFF_MASK PAGING_SWPFPN_OFFSET)"

definition PAGING_PTE_SWPTYP :: "u32 \<Rightarrow> int" where
  "PAGING_PTE_SWPTYP pte = sint (GETVAL pte PAGING_PTE_SWPTYP_MASK PAGING_PTE_SWPTYP_LOBIT)"

text \<open>Macros for the same fields that no code uses.\<close>

definition PAGING_PTE_OFFST :: "u32 \<Rightarrow> u32" where
  "PAGING_PTE_OFFST pte = GETVAL pte PAGING_OFFST_MASK PAGING_ADDR_OFFST_LOBIT"

definition PAGING_PTE_PGN :: "u32 \<Rightarrow> u32" where
  "PAGING_PTE_PGN pte = GETVAL pte PAGING_PGN_MASK PAGING_ADDR_PGN_LOBIT"

definition PAGING_PTE_FPN :: "u32 \<Rightarrow> u32" where
  "PAGING_PTE_FPN pte = GETVAL pte PAGING_PTE_FPN_MASK PAGING_PTE_FPN_LOBIT"

definition PAGING_SWP :: "u32 \<Rightarrow> u32" where
  "PAGING_SWP pte = drop_bit PAGING_SWPFPN_OFFSET (pte AND PAGING_PTE_SWPOFF_MASK)"

definition INCLUDE :: "int \<Rightarrow> int \<Rightarrow> int \<Rightarrow> int \<Rightarrow> int" where
  "INCLUDE x1 x2 y1 y2 = (if y1 \<ge> x1 \<and> y2 \<le> x2 then 1 else 0)"

definition OVERLAP :: "int \<Rightarrow> int \<Rightarrow> int \<Rightarrow> int \<Rightarrow> int" where
  "OVERLAP x1 x2 y1 y2 = (if x1 \<le> y2 \<and> x2 \<ge> y1 then 1 else 0)"

definition init_pte :: "u32 \<Rightarrow> int \<Rightarrow> int \<Rightarrow> int \<Rightarrow> int \<Rightarrow> int \<Rightarrow> int \<Rightarrow> int \<times> u32" where
  "init_pte pte pre fpn drt swp swptyp swpoff =
     (if pre \<noteq> 0 then
        if swp = 0 then
          if fpn = 0 then (- 1, pte)
          else
            let p1 = SETBIT pte PAGING_PTE_PRESENT_MASK;
                p2 = CLRBIT p1 PAGING_PTE_SWAPPED_MASK;
                p3 = CLRBIT p2 PAGING_PTE_DIRTY_MASK
            in (0, SETVAL p3 fpn PAGING_PTE_FPN_MASK PAGING_PTE_FPN_LOBIT)
        else
          let p1 = SETBIT pte PAGING_PTE_PRESENT_MASK;
              p2 = SETBIT p1 PAGING_PTE_SWAPPED_MASK;
              p3 = CLRBIT p2 PAGING_PTE_DIRTY_MASK;
              p4 = SETVAL p3 swptyp PAGING_PTE_SWPTYP_MASK PAGING_PTE_SWPTYP_LOBIT
          in (0, SETVAL p4 swpoff PAGING_PTE_SWPOFF_MASK PAGING_PTE_SWPOFF_LOBIT)
      else (0, pte))"

definition pte_set_swap :: "u32 \<Rightarrow> int \<Rightarrow> int \<Rightarrow> u32" where
  "pte_set_swap pte swptyp swpoff =
     (let p1 = SETBIT pte PAGING_PTE_PRESENT_MASK;
          p2 = SETBIT p1 PAGING_PTE_SWAPPED_MASK;
          p3 = SETVAL p2 swptyp PAGING_PTE_SWPTYP_MASK PAGING_PTE_SWPTYP_LOBIT
      in SETVAL p3 swpoff PAGING_PTE_SWPOFF_MASK PAGING_PTE_SWPOFF_LOBIT)"

definition pte_set_fpn :: "u32 \<Rightarrow> int \<Rightarrow> u32" where
  "pte_set_fpn pte fpn =
     (let p1 = SETBIT pte PAGING_PTE_PRESENT_MASK;
          p2 = CLRBIT p1 PAGING_PTE_SWAPPED_MASK;
          p3 = CLRBIT p2 PAGING_PTE_SWPOFF_MASK
      in SETVAL p3 fpn PAGING_PTE_FPN_MASK PAGING_PTE_FPN_LOBIT)"

subsection \<open>Constants\<close>

lemma NBITS_PAGESZ [simp]: "NBITS 256 = 8"
  by code_simp

lemma PAGING_MAX_PGN_eq: "PAGING_MAX_PGN = 16384"
  by code_simp

lemma field_bounds [simp]:
  "PAGING_PTE_USRNUM_LOBIT = 15" "PAGING_PTE_USRNUM_HIBIT = 27" "PAGING_PTE_FPN_LOBIT = 0" "PAGING_PTE_FPN_HIBIT = 12"
  "PAGING_PTE_SWPTYP_LOBIT = 0" "PAGING_PTE_SWPTYP_HIBIT = 4" "PAGING_PTE_SWPOFF_LOBIT = 5" "PAGING_PTE_SWPOFF_HIBIT = 25"
  "PAGING_ADDR_OFFST_LOBIT = 0" "PAGING_ADDR_OFFST_HIBIT = 7" "PAGING_ADDR_PGN_LOBIT = 8" "PAGING_ADDR_PGN_HIBIT = 21"
  "PAGING_ADDR_FPN_LOBIT = 8" "PAGING_ADDR_FPN_HIBIT = 20" "PAGING_SWP_LOBIT = 8" "PAGING_SWP_HIBIT = 28"
  by code_simp+

text \<open>
  The flags, the user number, the two empty bits and the frame number of an online entry cover the 32
  bits without overlap.
\<close>

definition pte_fields :: "u32 list" where
  "pte_fields = [PAGING_PTE_PRESENT_MASK, PAGING_PTE_SWAPPED_MASK, PAGING_PTE_RESERVE_MASK, PAGING_PTE_DIRTY_MASK,
     PAGING_PTE_USRNUM_MASK, PAGING_PTE_EMPTY01_MASK, PAGING_PTE_EMPTY02_MASK, PAGING_PTE_FPN_MASK]"

lemma pte_fields_partition:
  "fold (OR) pte_fields 0 = NOT 0" "sorted_wrt (\<lambda>m m'. m AND m' = 0) pte_fields"
  by code_simp+

text \<open>The range operators, on ranges that are not empty.\<close>

lemma INCLUDE_iff: "y1 \<le> y2 \<Longrightarrow> INCLUDE x1 x2 y1 y2 = 1 \<longleftrightarrow> {y1..y2} \<subseteq> {x1..x2}"
  by (auto simp: INCLUDE_def)

lemma OVERLAP_iff: "x1 \<le> x2 \<Longrightarrow> y1 \<le> y2 \<Longrightarrow> OVERLAP x1 x2 y1 y2 = 1 \<longleftrightarrow> {x1..x2} \<inter> {y1..y2} \<noteq> {}"
  by (auto simp: OVERLAP_def)

text \<open>The macros no code uses read the same fields as those the code uses.\<close>

lemma unused_getters:
  "PAGING_FPN pte = sint (PAGING_PTE_FPN pte)" "PAGING_PTE_SWP pte = sint (PAGING_SWP pte)"
  "PAGING_OFFST (sint v) = sint (PAGING_PTE_OFFST v)" "PAGING_PGN (sint v) = sint (PAGING_PTE_PGN v)"
  "PAGING_PTE_SET_PRESENT pte = SETBIT pte PAGING_PTE_PRESENT_MASK"
  by (simp_all add: PAGING_FPN_def PAGING_PTE_FPN_def PAGING_PTE_SWP_def PAGING_SWP_def GETVAL_def PAGING_OFFST_def
      PAGING_PTE_OFFST_def PAGING_PGN_def PAGING_PTE_PGN_def PAGING_PTE_SET_PRESENT_def SETBIT_def)

lemmas pte_mask_defs = PAGING_PTE_PRESENT_MASK_def PAGING_PTE_SWAPPED_MASK_def
  PAGING_PTE_DIRTY_MASK_def PAGING_PTE_FPN_MASK_def PAGING_PTE_SWPTYP_MASK_def
  PAGING_PTE_SWPOFF_MASK_def PAGING_OFFST_MASK_def PAGING_PGN_MASK_def

lemma PAGING_PAGE_PRESENT_bit: "PAGING_PAGE_PRESENT pte \<longleftrightarrow> bit pte 31"
  by (simp add: PAGING_PAGE_PRESENT_def pte_mask_defs BIT_AND_eq_0_iff)

lemma PAGING_PAGE_SWAPPED_bit: "PAGING_PAGE_SWAPPED pte \<longleftrightarrow> bit pte 30"
  by (simp add: PAGING_PAGE_SWAPPED_def pte_mask_defs BIT_AND_eq_0_iff)

lemma not_present_0 [simp]: "\<not> PAGING_PAGE_PRESENT 0"
  by (simp add: PAGING_PAGE_PRESENT_bit)

lemma PAGING_PAGE_ALIGNSZ_eq:
  assumes "0 \<le> sz" and "sz \<le> INT_MAX - PAGING_PAGESZ"
  shows "PAGING_PAGE_ALIGNSZ sz = Inr ((sz + 255) div 256 * 256)"
proof -
  have "(sz + 255) div 256 * 256 \<le> sz + 255"
    by presburger
  moreover have "0 \<le> (sz + 255) div 256"
    using assms(1) by (simp add: pos_imp_zdiv_nonneg_iff)
  ultimately show ?thesis
    using assms
    by (simp add: PAGING_PAGE_ALIGNSZ_def DIV_ROUND_UP_def PAGING_PAGESZ_def INT_MAX_def
        chk_int_small c_div_nonneg)
qed

subsection \<open>Field widths\<close>

lemma sint_small_word:
  assumes "take_bit 31 (w :: u32) = w"
  shows "sint w = uint w"
proof -
  have "uint w = take_bit 31 (uint w)"
    using arg_cong [OF assms, of uint] by (simp add: unsigned_take_bit_eq)
  then have "uint w < 2 ^ 31"
    by (metis take_bit_int_less_exp)
  then show ?thesis
    by (simp add: to_int_sint [symmetric] to_int_def)
qed

lemma sint_GETVAL:
  assumes "h < 31" and "l \<le> h"
  shows "sint (GETVAL v (GENMASK h l) l) = take_bit (Suc h - l) (drop_bit l (uint v))"
proof -
  have eq: "GETVAL v (GENMASK h l) l = take_bit (Suc h - l) (drop_bit l v)"
    by (rule bit_word_eqI) (use assms in \<open>auto simp: pte_bits bit_simps\<close>)
  have "sint (take_bit (Suc h - l) (drop_bit l v)) = uint (take_bit (Suc h - l) (drop_bit l v))"
    by (rule sint_small_word, rule bit_word_eqI) (use assms in \<open>auto simp: bit_simps\<close>)
  moreover have "take_bit 32 (uint v) = uint v"
    by (simp add: bintr_uint)
  ultimately show ?thesis
    by (simp add: eq unsigned_take_bit_eq unsigned_drop_bit_eq)
qed

lemma PAGING_FPN_take: "PAGING_FPN pte = uint pte mod 8192"
  by (simp add: PAGING_FPN_def pte_mask_defs sint_GETVAL take_bit_eq_mod)

lemma PAGING_PTE_SWP_take: "PAGING_PTE_SWP pte = uint pte div 32 mod 2097152"
  by (simp add: PAGING_PTE_SWP_def PAGING_SWPFPN_OFFSET_def pte_mask_defs sint_GETVAL
      take_bit_eq_mod drop_bit_eq_div)

lemma PAGING_PTE_SWPTYP_take: "PAGING_PTE_SWPTYP pte = uint pte mod 32"
  by (simp add: PAGING_PTE_SWPTYP_def pte_mask_defs sint_GETVAL take_bit_eq_mod)

lemma PAGING_FPN_range: "0 \<le> PAGING_FPN pte \<and> PAGING_FPN pte < 8192"
  by (simp add: PAGING_FPN_take)

lemma PAGING_PTE_SWP_range: "0 \<le> PAGING_PTE_SWP pte \<and> PAGING_PTE_SWP pte < 2097152"
  by (simp add: PAGING_PTE_SWP_take)


text \<open>The page number and the offset of an address of the 22-bit space.\<close>

lemma PAGING_OFFST_eq: "PAGING_OFFST a = a mod 256"
  by (simp add: PAGING_OFFST_def pte_mask_defs sint_GETVAL take_bit_eq_mod uint_word_of_int mod_mod_cancel)

lemma PAGING_PGN_eq:
  assumes "0 \<le> a" and "a < 4294967296"
  shows "PAGING_PGN a = a div 256 mod 16384"
  using assms
  by (simp add: PAGING_PGN_def pte_mask_defs PAGING_CPU_BUS_WIDTH_def sint_GETVAL take_bit_eq_mod
      drop_bit_eq_div uint_word_of_int)

lemma PAGING_PGN_22:
  assumes "0 \<le> a" and "a < 4194304"
  shows "PAGING_PGN a = a div 256" and "0 \<le> PAGING_PGN a" and "PAGING_PGN a < PAGING_MAX_PGN"
proof -
  show "PAGING_PGN a = a div 256"
    using assms by (simp add: PAGING_PGN_eq)
  then show "0 \<le> PAGING_PGN a" and "PAGING_PGN a < PAGING_MAX_PGN"
    using assms by (simp_all add: PAGING_MAX_PGN_eq)
qed

subsection \<open>The setters\<close>

lemma GETVAL_field:
  assumes "h < 31" and "l \<le> h"
    and "\<And>i. l \<le> i \<Longrightarrow> i \<le> h \<Longrightarrow> bit w i \<longleftrightarrow> bit (word_of_int x :: u32) (i - l)"
  shows "sint (GETVAL w (GENMASK h l) l) = x mod 2 ^ (Suc h - l)"
proof -
  have eq: "GETVAL w (GENMASK h l) l = take_bit (Suc h - l) (word_of_int x)"
    by (rule bit_word_eqI) (use assms in \<open>auto simp: pte_bits bit_simps\<close>)
  have "sint (take_bit (Suc h - l) (word_of_int x :: u32)) = uint (take_bit (Suc h - l) (word_of_int x :: u32))"
    by (rule sint_small_word, rule bit_word_eqI) (use assms in \<open>auto simp: bit_simps\<close>)
  also have "\<dots> = take_bit (Suc h - l) x"
    using assms(1) by (simp add: unsigned_take_bit_eq uint_word_of_int_eq)
  finally show ?thesis
    by (simp add: eq take_bit_eq_mod)
qed

lemma pte_set_fpn_bits:
  "PAGING_PAGE_PRESENT (pte_set_fpn pte fpn)"
  "\<not> PAGING_PAGE_SWAPPED (pte_set_fpn pte fpn)"
  "PAGING_FPN (pte_set_fpn pte fpn) = fpn mod 8192"
proof -
  show "PAGING_PAGE_PRESENT (pte_set_fpn pte fpn)" "\<not> PAGING_PAGE_SWAPPED (pte_set_fpn pte fpn)"
    by (simp_all add: PAGING_PAGE_PRESENT_bit PAGING_PAGE_SWAPPED_bit pte_set_fpn_def pte_mask_defs
        pte_bits)
  have "sint (GETVAL (pte_set_fpn pte fpn) (GENMASK 12 0) 0) = fpn mod 2 ^ (Suc 12 - 0)"
    by (rule GETVAL_field) (auto simp: pte_set_fpn_def pte_mask_defs pte_bits)
  then show "PAGING_FPN (pte_set_fpn pte fpn) = fpn mod 8192"
    by (simp add: PAGING_FPN_def PAGING_PTE_FPN_MASK_def)
qed

lemma pte_set_swap_bits:
  "PAGING_PAGE_PRESENT (pte_set_swap pte typ off)"
  "PAGING_PAGE_SWAPPED (pte_set_swap pte typ off)"
  "PAGING_PTE_SWPTYP (pte_set_swap pte typ off) = typ mod 32"
  "PAGING_PTE_SWP (pte_set_swap pte typ off) = off mod 2097152"
proof -
  show "PAGING_PAGE_PRESENT (pte_set_swap pte typ off)" "PAGING_PAGE_SWAPPED (pte_set_swap pte typ off)"
    by (simp_all add: PAGING_PAGE_PRESENT_bit PAGING_PAGE_SWAPPED_bit pte_set_swap_def pte_mask_defs
        pte_bits)
  have "sint (GETVAL (pte_set_swap pte typ off) (GENMASK 4 0) 0) = typ mod 2 ^ (Suc 4 - 0)"
    by (rule GETVAL_field) (auto simp: pte_set_swap_def pte_mask_defs pte_bits)
  then show "PAGING_PTE_SWPTYP (pte_set_swap pte typ off) = typ mod 32"
    by (simp add: PAGING_PTE_SWPTYP_def PAGING_PTE_SWPTYP_MASK_def)
  have "sint (GETVAL (pte_set_swap pte typ off) (GENMASK 25 5) 5) = off mod 2 ^ (Suc 25 - 5)"
    by (rule GETVAL_field) (auto simp: pte_set_swap_def pte_mask_defs pte_bits)
  then show "PAGING_PTE_SWP (pte_set_swap pte typ off) = off mod 2097152"
    by (simp add: PAGING_PTE_SWP_def PAGING_SWPFPN_OFFSET_def PAGING_PTE_SWPOFF_MASK_def)
qed

lemmas pte_set_simps [simp] = pte_set_fpn_bits pte_set_swap_bits

subsection \<open>Properties\<close>

text \<open>
  C32. Storing a swap device and a swap frame in a page table entry and reading them back is a round
  trip, whatever the entry held before, and a later \<open>pte_set_fpn\<close> leaves no trace of it: the two layouts share bits, but no stale swap field survives in the frame
  number.
\<close>

theorem pte_swap_roundtrip:
  assumes "0 \<le> swptyp" and "swptyp < 32" and "0 \<le> swpoff" and "swpoff < 2097152"
    and "0 \<le> fpn" and "fpn < 8192"
  shows "PAGING_PAGE_PRESENT (pte_set_swap pte swptyp swpoff) \<and>
    PAGING_PAGE_SWAPPED (pte_set_swap pte swptyp swpoff) \<and>
    PAGING_PTE_SWPTYP (pte_set_swap pte swptyp swpoff) = swptyp \<and>
    PAGING_PTE_SWP (pte_set_swap pte swptyp swpoff) = swpoff \<and>
    PAGING_FPN (pte_set_fpn (pte_set_swap pte swptyp swpoff) fpn) = fpn"
  using assms by simp

theorem pte_swap_roundtrip_witness:
  "PAGING_PTE_SWPTYP (pte_set_swap 0x5555 31 2097151) = 31 \<and>
   PAGING_PTE_SWP (pte_set_swap 0x5555 31 2097151) = 2097151 \<and>
   PAGING_FPN (pte_set_fpn (pte_set_swap 0x5555 31 2097151) 17) = 17"
  using pte_swap_roundtrip [of 31 2097151 17 "0x5555"] by simp

text \<open>
  C33. \<open>PAGING_PGN\<close> and \<open>PAGING_OFFST\<close> split every address of the 22-bit space into a page number
  that is a valid index of the page table and an offset inside the page, and the two determine the
  address. One address further the page number wraps to 0.
\<close>

theorem address_split:
  assumes "0 \<le> a" and "a < 4194304"
  shows "PAGING_PGN a * PAGING_PAGESZ + PAGING_OFFST a = a \<and>
    0 \<le> PAGING_PGN a \<and> PAGING_PGN a < PAGING_MAX_PGN \<and>
    0 \<le> PAGING_OFFST a \<and> PAGING_OFFST a < PAGING_PAGESZ \<and> PAGING_PGN (a + 4194304) = PAGING_PGN a"
proof -
  have "(a + 4194304) div 256 = a div 256 + 16384"
    by linarith
  then have "PAGING_PGN (a + 4194304) = PAGING_PGN a"
    using assms PAGING_PGN_22(1) [OF assms] PAGING_PGN_eq [of "a + 4194304"] by simp
  then show ?thesis
    using assms PAGING_PGN_22 [OF assms] by (simp add: PAGING_OFFST_eq PAGING_PAGESZ_def)
qed

theorem address_split_witness:
  "PAGING_PGN 4194303 * PAGING_PAGESZ + PAGING_OFFST 4194303 = 4194303 \<and>
   PAGING_PGN (4194303 + 4194304) = PAGING_PGN 4194303"
  using address_split [of 4194303] by simp

text \<open>
  The frame field of an entry has 13 bits, so a frame number of 8192 or more, which a RAM of
  more than 2 MB hands out, is silently truncated: two frames that differ by 8192 give entries that
  lead to the same frame.
\<close>

lemma fpn_truncated:
  "PAGING_FPN (pte_set_fpn pte (fpn + 8192)) = PAGING_FPN (pte_set_fpn pte' fpn)"
  by simp

end
