(* ===== verification/Memphy.thy ===== *)
theory Memphy
  imports Pte
begin

text \<open>
  Physical memory devices, \<open>src/mm-memphy.c\<close>: a byte store with bounds-checked random or sequential
  access and a list of free frames. \<open>storage\<close> maps an address to its byte; the array of the source
  has \<open>maxsz\<close> cells, and an access outside them that the code does not refuse is \<open>Out_of_bounds\<close>.
  An output parameter is an \<open>option\<close> in the result: \<open>None\<close> when the callee did not write it.
  The functions take the device object itself, so the tests of the source for a \<open>NULL\<close> device,
  which no caller passes, do not occur.

  The interface the paging code relies on is stated as two locales, a byte device and a pool of
  frames, and the device operations are shown to satisfy both.
\<close>

record memphy_struct =
  storage :: "int \<Rightarrow> byte"
  maxsz :: int
  rdmflg :: bool
  cursor :: int
  free_fp_list :: "int list"
  used_fp_list :: "int list"

function mv_csr_loop :: "int \<Rightarrow> int \<Rightarrow> int \<Rightarrow> int \<Rightarrow> int" where
  "mv_csr_loop sz offset numstep csr =
     (if numstep < offset \<and> numstep < sz
      then mv_csr_loop sz offset (numstep + 1) ((csr + 1) mod sz) else csr)"
  by pat_completeness auto
termination
  by (relation "measure (\<lambda>(sz, offset, numstep, csr). nat (offset - numstep))") auto

declare mv_csr_loop.simps [simp del]

definition MEMPHY_mv_csr :: "memphy_struct \<Rightarrow> int \<Rightarrow> memphy_struct" where
  "MEMPHY_mv_csr mp offset = mp\<lparr>cursor := mv_csr_loop (maxsz mp) offset 0 0\<rparr>"

definition MEMPHY_seq_read ::
    "memphy_struct \<Rightarrow> int \<Rightarrow> (int \<times> byte option \<times> memphy_struct) res" where
  "MEMPHY_seq_read mp addr =
     (if rdmflg mp then Inr (- 1, None, mp)
      else let mp' = MEMPHY_mv_csr mp addr
           in if 0 \<le> addr \<and> addr < maxsz mp' then Inr (0, Some (storage mp' addr), mp')
              else Inl Out_of_bounds)"

definition MEMPHY_read ::
    "memphy_struct \<Rightarrow> int \<Rightarrow> (int \<times> byte option \<times> memphy_struct) res" where
  "MEMPHY_read mp addr =
     (if addr < 0 \<or> addr \<ge> maxsz mp then Inr (- 1, None, mp)
      else if rdmflg mp then Inr (0, Some (storage mp addr), mp)
      else MEMPHY_seq_read mp addr)"

definition MEMPHY_seq_write :: "memphy_struct \<Rightarrow> int \<Rightarrow> byte \<Rightarrow> (int \<times> memphy_struct) res" where
  "MEMPHY_seq_write mp addr v =
     (if rdmflg mp then Inr (- 1, mp)
      else let mp' = MEMPHY_mv_csr mp addr
           in if 0 \<le> addr \<and> addr < maxsz mp'
              then Inr (0, mp'\<lparr>storage := (storage mp')(addr := v)\<rparr>)
              else Inl Out_of_bounds)"

definition MEMPHY_write :: "memphy_struct \<Rightarrow> int \<Rightarrow> byte \<Rightarrow> (int \<times> memphy_struct) res" where
  "MEMPHY_write mp addr data =
     (if addr < 0 \<or> addr \<ge> maxsz mp then Inr (- 1, mp)
      else if rdmflg mp then Inr (0, mp\<lparr>storage := (storage mp)(addr := data)\<rparr>)
      else MEMPHY_seq_write mp addr data)"

function format_loop :: "int \<Rightarrow> int \<Rightarrow> int list \<Rightarrow> int list" where
  "format_loop iter numfp fps =
     (if iter < numfp then format_loop (iter + 1) numfp (fps @ [iter]) else fps)"
  by pat_completeness auto
termination
  by (relation "measure (\<lambda>(iter, numfp, fps). nat (numfp - iter))") auto

declare format_loop.simps [simp del]

definition MEMPHY_format :: "memphy_struct \<Rightarrow> int \<Rightarrow> int \<times> memphy_struct" where
  "MEMPHY_format mp pagesz =
     (let numfp = c_div (maxsz mp) pagesz
      in if numfp \<le> 0 then (- 1, mp)
         else (0, mp\<lparr>free_fp_list := format_loop 1 numfp [0]\<rparr>))"

definition MEMPHY_get_freefp :: "memphy_struct \<Rightarrow> int \<times> int option \<times> memphy_struct" where
  "MEMPHY_get_freefp mp =
     (case free_fp_list mp of
        [] \<Rightarrow> (- 1, None, mp)
      | fpn # rest \<Rightarrow> (0, Some fpn, mp\<lparr>free_fp_list := rest\<rparr>))"

text \<open>The dump prints the cells that are not 0; the printed lines are the second component.\<close>

definition MEMPHY_dump :: "memphy_struct \<Rightarrow> int \<times> (int \<times> int) list" where
  "MEMPHY_dump mp =
     (0, [(i, sint (storage mp i)). i \<leftarrow> [0..maxsz mp - 1], storage mp i \<noteq> 0])"

definition MEMPHY_put_freefp :: "memphy_struct \<Rightarrow> int \<Rightarrow> memphy_struct" where
  "MEMPHY_put_freefp mp fpn = mp\<lparr>free_fp_list := fpn # free_fp_list mp\<rparr>"

text \<open>\<open>mp\<close> is the uninitialised object: a random access device keeps its old cursor.\<close>

definition init_memphy :: "memphy_struct \<Rightarrow> int \<Rightarrow> int \<Rightarrow> memphy_struct res" where
  "init_memphy mp max_size randomflg =
     (if max_size < 0 then Inl Bad_size
      else
        let m1 = mp\<lparr>maxsz := max_size, free_fp_list := [], used_fp_list := [], storage := (\<lambda>_. 0)\<rparr>;
            m2 = snd (MEMPHY_format m1 PAGING_PAGESZ);
            m3 = m2\<lparr>rdmflg := (randomflg \<noteq> 0)\<rparr>
        in Inr (if \<not> rdmflg m3 then m3\<lparr>cursor := 0\<rparr> else m3))"

subsection \<open>Loops\<close>

lemma mv_csr_loop_eq:
  "0 \<le> n \<Longrightarrow> n \<le> off \<Longrightarrow> off < sz \<Longrightarrow> csr = n \<Longrightarrow> mv_csr_loop sz off n csr = off"
proof (induction sz off n csr rule: mv_csr_loop.induct)
  case (1 sz off n csr)
  then show ?case
    by (subst mv_csr_loop.simps) (auto simp: mod_pos_pos_trivial)
qed

lemma format_loop_eq: "format_loop i n fps = fps @ [i..n - 1]"
proof (induction i n fps rule: format_loop.induct)
  case (1 i n fps)
  show ?case
    by (subst format_loop.simps) (use 1 in \<open>auto simp: upto_rec1 [of i]\<close>)
qed

subsection \<open>Closed forms\<close>

definition seek :: "memphy_struct \<Rightarrow> int \<Rightarrow> memphy_struct" where
  "seek mp addr = (if rdmflg mp then mp else mp\<lparr>cursor := addr\<rparr>)"

lemma seek_simps [simp]:
  "storage (seek mp a) = storage mp" "maxsz (seek mp a) = maxsz mp" "rdmflg (seek mp a) = rdmflg mp"
  "free_fp_list (seek mp a) = free_fp_list mp" "used_fp_list (seek mp a) = used_fp_list mp"
  by (simp_all add: seek_def)

lemma MEMPHY_read_eq:
  "MEMPHY_read mp a =
     Inr (if 0 \<le> a \<and> a < maxsz mp then (0, Some (storage mp a), seek mp a) else (- 1, None, mp))"
  by (simp add: MEMPHY_read_def MEMPHY_seq_read_def MEMPHY_mv_csr_def seek_def mv_csr_loop_eq not_less)

lemma MEMPHY_write_eq:
  "MEMPHY_write mp a v =
     Inr (if 0 \<le> a \<and> a < maxsz mp then (0, (seek mp a)\<lparr>storage := (storage mp)(a := v)\<rparr>)
          else (- 1, mp))"
  by (simp add: MEMPHY_write_def MEMPHY_seq_write_def MEMPHY_mv_csr_def seek_def mv_csr_loop_eq not_less)

lemma MEMPHY_format_frames:
  "0 < c_div (maxsz mp) psz \<Longrightarrow>
     free_fp_list (snd (MEMPHY_format mp psz)) = [0..c_div (maxsz mp) psz - 1]"
  by (simp add: MEMPHY_format_def Let_def format_loop_eq upto_rec1 [of 0])

lemma init_memphy_eq:
  assumes "0 \<le> sz"
  shows "\<exists>mp'. init_memphy mp sz flg = Inr mp' \<and> maxsz mp' = sz \<and> rdmflg mp' = (flg \<noteq> 0) \<and>
    storage mp' = (\<lambda>_. 0) \<and> free_fp_list mp' = [0..sz div 256 - 1]"
proof (cases "0 < sz div 256")
  case True
  then show ?thesis
    using assms
    by (auto simp: init_memphy_def Let_def MEMPHY_format_def PAGING_PAGESZ_def c_div_nonneg
        format_loop_eq upto_rec1 [of 0])
next
  case False
  then have "sz div 256 \<le> 0" by simp
  then show ?thesis
    using assms
    by (auto simp: init_memphy_def Let_def MEMPHY_format_def PAGING_PAGESZ_def c_div_nonneg)
qed

subsection \<open>The two interfaces of a device\<close>

text \<open>
  A byte device: reads and writes inside the device succeed and act on one cell; outside it they
  return an error code and change nothing. No access is undefined.
\<close>

locale byte_device =
  fixes rd :: "'d \<Rightarrow> int \<Rightarrow> (int \<times> byte option \<times> 'd) res"
    and wr :: "'d \<Rightarrow> int \<Rightarrow> byte \<Rightarrow> (int \<times> 'd) res"
    and cells :: "'d \<Rightarrow> int \<Rightarrow> byte"
    and extent :: "'d \<Rightarrow> int"
  assumes rd_in: "0 \<le> a \<Longrightarrow> a < extent d \<Longrightarrow>
      \<exists>d'. rd d a = Inr (0, Some (cells d a), d') \<and> cells d' = cells d \<and> extent d' = extent d"
    and rd_out: "\<not> (0 \<le> a \<and> a < extent d) \<Longrightarrow> rd d a = Inr (- 1, None, d)"
    and wr_in: "0 \<le> a \<Longrightarrow> a < extent d \<Longrightarrow>
      \<exists>d'. wr d a v = Inr (0, d') \<and> cells d' = (cells d)(a := v) \<and> extent d' = extent d"
    and wr_out: "\<not> (0 \<le> a \<and> a < extent d) \<Longrightarrow> wr d a v = Inr (- 1, d)"
begin

lemma write_then_read:
  assumes "0 \<le> a" and "a < extent d"
  shows "\<exists>d1 d2. wr d a v = Inr (0, d1) \<and> rd d1 a = Inr (0, Some v, d2)"
proof -
  obtain d1 where d1: "wr d a v = Inr (0, d1)" "cells d1 = (cells d)(a := v)" "extent d1 = extent d"
    using wr_in [OF assms] by blast
  with assms obtain d2 where "rd d1 a = Inr (0, Some (cells d1 a), d2)"
    using rd_in [of a d1] by auto
  with d1 show ?thesis by auto
qed

lemma write_then_read_other:
  assumes "0 \<le> a" and "a < extent d" and "0 \<le> b" and "b < extent d" and "a \<noteq> b"
  shows "\<exists>d1 d2. wr d a v = Inr (0, d1) \<and> rd d1 b = Inr (0, Some (cells d b), d2)"
proof -
  obtain d1 where d1: "wr d a v = Inr (0, d1)" "cells d1 = (cells d)(a := v)" "extent d1 = extent d"
    using wr_in [OF assms(1,2)] by blast
  with assms(3,4) obtain d2 where "rd d1 b = Inr (0, Some (cells d1 b), d2)"
    using rd_in [of b d1] by auto
  with d1 assms(5) show ?thesis by auto
qed

lemma no_undefined_access: "\<exists>x. rd d a = Inr x" "\<exists>x. wr d a v = Inr x"
  using rd_in [of a d] rd_out [of a d] wr_in [of a d v] wr_out [of a d v] by blast+

end

interpretation dev: byte_device MEMPHY_read MEMPHY_write storage maxsz
  by unfold_locales (auto simp: MEMPHY_read_eq MEMPHY_write_eq)

text \<open>
  A pool of frames: \<open>get\<close> takes a frame out of the pool and fails only when the pool is empty;
  \<open>put\<close> gives a frame back, which keeps the pool free of duplicates if the frame was out.
\<close>

locale frame_pool =
  fixes get :: "'d \<Rightarrow> int \<times> int option \<times> 'd"
    and put :: "'d \<Rightarrow> int \<Rightarrow> 'd"
    and pool :: "'d \<Rightarrow> int set"
    and ok :: "'d \<Rightarrow> bool"
  assumes get_some: "ok d \<Longrightarrow> pool d \<noteq> {} \<Longrightarrow>
      \<exists>f d'. get d = (0, Some f, d') \<and> f \<in> pool d \<and> pool d' = pool d - {f} \<and> ok d'"
    and get_none: "ok d \<Longrightarrow> pool d = {} \<Longrightarrow> get d = (- 1, None, d)"
    and put_pool: "pool (put d f) = insert f (pool d)"
    and put_ok: "ok d \<Longrightarrow> f \<notin> pool d \<Longrightarrow> ok (put d f)"
begin

lemma get_cases:
  assumes "ok d"
  obtains (empty) "pool d = {}" "get d = (- 1, None, d)"
  | (frame) f d' where "get d = (0, Some f, d')" "f \<in> pool d" "pool d' = pool d - {f}" "ok d'"
  using assms get_some get_none by metis

lemma get_put:
  assumes "ok d" and "get d = (0, Some f, d')"
  shows "pool (put d' f) = pool d" and "ok (put d' f)"
  using assms(2) by (cases rule: get_cases [OF assms(1)]; auto simp: put_pool intro: put_ok)+

lemma get_get_distinct:
  assumes "ok d" and "get d = (0, Some f, d')" and "get d' = (0, Some g, d'')"
  shows "f \<noteq> g"
proof -
  have d': "pool d' = pool d - {f}" "ok d'"
    using assms(2) by (cases rule: get_cases [OF assms(1)]; simp)+
  show ?thesis
    using assms(3) d'(1) by (cases rule: get_cases [OF d'(2)]) auto
qed

end

abbreviation free_frames :: "memphy_struct \<Rightarrow> int set" where
  "free_frames mp \<equiv> set (free_fp_list mp)"

interpretation frames: frame_pool MEMPHY_get_freefp MEMPHY_put_freefp free_frames
    "\<lambda>mp. distinct (free_fp_list mp)"
  by unfold_locales (auto simp: MEMPHY_get_freefp_def MEMPHY_put_freefp_def split: list.splits)

text \<open>The frame operations leave the rest of the device alone.\<close>

lemma MEMPHY_get_freefp_frame:
  assumes "MEMPHY_get_freefp mp = (rc, r, mp')"
  shows "storage mp' = storage mp" "maxsz mp' = maxsz mp" "rdmflg mp' = rdmflg mp"
  using assms by (auto simp: MEMPHY_get_freefp_def split: list.splits)

lemma MEMPHY_put_freefp_simps [simp]:
  "storage (MEMPHY_put_freefp mp f) = storage mp" "maxsz (MEMPHY_put_freefp mp f) = maxsz mp"
  "rdmflg (MEMPHY_put_freefp mp f) = rdmflg mp"
  "free_fp_list (MEMPHY_put_freefp mp f) = f # free_fp_list mp"
  by (simp_all add: MEMPHY_put_freefp_def)

subsection \<open>Properties\<close>

text \<open>
  C31. A byte written inside a device, random or sequential, is what the next read of its address
  returns, and a read of every other address still returns what it held.
\<close>

theorem memphy_write_read:
  assumes "0 \<le> a" and "a < maxsz mp" and "0 \<le> b" and "b < maxsz mp"
  shows "\<exists>mp1 mp2. MEMPHY_write mp a v = Inr (0, mp1) \<and>
    MEMPHY_read mp1 b = Inr (0, Some (if b = a then v else storage mp b), mp2)"
  using dev.write_then_read [OF assms(1,2), of v] dev.write_then_read_other [OF assms, of v]
  by (cases "b = a") auto

theorem memphy_write_read_witness:
  "\<exists>mp1 mp2. MEMPHY_write \<lparr>storage = (\<lambda>_. 9), maxsz = 300, rdmflg = False, cursor = 0,
        free_fp_list = [], used_fp_list = []\<rparr> 299 7 = Inr (0, mp1) \<and>
    MEMPHY_read mp1 5 = Inr (0, Some 9, mp2)"
  using memphy_write_read [of 299 "\<lparr>storage = (\<lambda>_. 9), maxsz = 300, rdmflg = False, cursor = 0,
        free_fp_list = [], used_fp_list = []\<rparr>" 5 7] by simp

text \<open>
  No access to a device is undefined, whatever the address: outside the device both operations
  return \<open>-1\<close> and leave it as it was.
\<close>

lemma memphy_out_of_range:
  assumes "a < 0 \<or> maxsz mp \<le> a"
  shows "MEMPHY_read mp a = Inr (- 1, None, mp) \<and> MEMPHY_write mp a v = Inr (- 1, mp)"
  using assms dev.rd_out [of a mp] dev.wr_out [of a mp v] by auto

text \<open>
  \<open>init_memphy\<close> gives a zeroed device of the requested size and kind whose free list has every
  whole frame exactly once, in ascending order; a device smaller than a frame has none.
\<close>

lemma init_memphy_frames:
  assumes "0 \<le> sz"
  shows "\<exists>mp'. init_memphy mp sz flg = Inr mp' \<and> maxsz mp' = sz \<and> rdmflg mp' = (flg \<noteq> 0) \<and>
    storage mp' = (\<lambda>_. 0) \<and> free_fp_list mp' = [0..sz div PAGING_PAGESZ - 1] \<and>
    (\<forall>f \<in> set (free_fp_list mp'). 0 \<le> f * PAGING_PAGESZ \<and> f * PAGING_PAGESZ + PAGING_PAGESZ \<le> maxsz mp')"
proof -
  have "f * 256 + 256 \<le> sz" if "f \<le> sz div 256 - 1" for f
    using that by linarith
  then show ?thesis
    using init_memphy_eq [OF assms, of mp flg] by (fastforce simp: PAGING_PAGESZ_def)
qed

end
