(* ===== verification/Region.thy ===== *)
theory Region
  imports Prelude
begin

text \<open>
  Virtual memory regions and the free list of an area: \<open>struct vm_rg_struct\<close> and
  \<open>struct vm_area_struct\<close> of \<open>include/os-mm.h\<close>, \<open>enlist_vm_freerg_list\<close> and the scan of
  \<open>get_free_vmrg_area\<close> in \<open>src/libmem.c\<close>, and the region constructors of \<open>src/mm.c\<close>. The
  linked list through \<open>rg_next\<close> is a HOL list.

  The invariant of the free list is that its regions are not empty, lie below the end of the area and
  keep a gap between each other: two free regions never touch, because a region that is given back is
  merged with its neighbours. The allocator contract is the locale \<open>region_allocator\<close>: taking a
  region removes exactly its bytes from the free space, giving one back adds exactly its bytes.
\<close>

record vm_rg_struct =
  rg_start :: int
  rg_end :: int

record vm_area_struct =
  vm_id :: int
  vm_start :: int
  vm_end :: int
  sbrk :: int
  vm_freerg_list :: "vm_rg_struct list"

text \<open>The arguments of \<open>init_vm_rg\<close> are \<open>int\<close>; the fields are \<open>unsigned long\<close>.\<close>

definition init_vm_rg :: "int \<Rightarrow> int \<Rightarrow> vm_rg_struct" where
  "init_vm_rg s e = \<lparr>rg_start = ul s, rg_end = ul e\<rparr>"

definition enlist_vm_rg_node :: "vm_rg_struct list \<Rightarrow> vm_rg_struct \<Rightarrow> vm_rg_struct list" where
  "enlist_vm_rg_node rglist rgnode = rgnode # rglist"

fun merge_loop :: "vm_rg_struct list \<Rightarrow> vm_rg_struct \<Rightarrow> vm_rg_struct list \<times> vm_rg_struct" where
  "merge_loop [] rg_elmt = ([], rg_elmt)"
| "merge_loop (rgit # rest) rg_elmt =
     (if rg_end rgit = rg_start rg_elmt \<or> rg_end rg_elmt = rg_start rgit then
        let e1 = (if rg_start rgit < rg_start rg_elmt
                  then rg_elmt\<lparr>rg_start := rg_start rgit\<rparr> else rg_elmt);
            e2 = (if rg_end rgit > rg_end e1 then e1\<lparr>rg_end := rg_end rgit\<rparr> else e1)
        in merge_loop rest e2
      else
        let (rest', e') = merge_loop rest rg_elmt in (rgit # rest', e'))"

definition enlist_vm_freerg_list :: "vm_area_struct \<Rightarrow> vm_rg_struct \<Rightarrow> int \<times> vm_area_struct" where
  "enlist_vm_freerg_list vma rg_elmt =
     (if rg_start rg_elmt \<ge> rg_end rg_elmt then (- 1, vma)
      else let (rgs, e) = merge_loop (vm_freerg_list vma) rg_elmt
           in (0, vma\<lparr>vm_freerg_list := e # rgs\<rparr>))"

fun get_free_loop :: "vm_rg_struct list \<Rightarrow> int \<Rightarrow> (vm_rg_struct \<times> vm_rg_struct list) option" where
  "get_free_loop [] sz = None"
| "get_free_loop (rgit # rest) sz =
     (if ul (rg_start rgit + sz) = rg_end rgit then
        Some (\<lparr>rg_start = rg_start rgit, rg_end = rg_end rgit\<rparr>, rest)
      else if ul (rg_start rgit + sz) < rg_end rgit then
        (let s = ul (rg_start rgit + sz)
         in Some (\<lparr>rg_start = rg_start rgit, rg_end = s\<rparr>, rgit\<lparr>rg_start := s\<rparr> # rest))
      else map_option (\<lambda>(newrg, rest'). (newrg, rgit # rest')) (get_free_loop rest sz))"

subsection \<open>The free list invariant\<close>

definition rg_ok :: "int \<Rightarrow> vm_rg_struct \<Rightarrow> bool" where
  "rg_ok lim r \<longleftrightarrow> 0 \<le> rg_start r \<and> rg_start r < rg_end r \<and> rg_end r \<le> lim"

definition apart :: "vm_rg_struct \<Rightarrow> vm_rg_struct \<Rightarrow> bool" where
  "apart r s \<longleftrightarrow> rg_end r < rg_start s \<or> rg_end s < rg_start r"

definition freelist_ok :: "int \<Rightarrow> vm_rg_struct list \<Rightarrow> bool" where
  "freelist_ok lim fs \<longleftrightarrow> (\<forall>r \<in> set fs. rg_ok lim r) \<and> sorted_wrt apart fs"

definition rg_bytes :: "vm_rg_struct \<Rightarrow> int set" where
  "rg_bytes r = {rg_start r..<rg_end r}"

definition free_bytes :: "vm_rg_struct list \<Rightarrow> int set" where
  "free_bytes fs = (\<Union>r \<in> set fs. rg_bytes r)"

lemma free_bytes_simps [simp]:
  "free_bytes [] = {}"
  "free_bytes (r # fs) = rg_bytes r \<union> free_bytes fs"
  by (simp_all add: free_bytes_def)

lemma freelist_ok_Nil [simp]: "freelist_ok lim []"
  by (simp add: freelist_ok_def)

lemma freelist_ok_Cons:
  "freelist_ok lim (r # fs) \<longleftrightarrow> rg_ok lim r \<and> (\<forall>s \<in> set fs. apart r s) \<and> freelist_ok lim fs"
  by (auto simp: freelist_ok_def)

lemma freelist_ok_mono: "freelist_ok lim fs \<Longrightarrow> lim \<le> lim' \<Longrightarrow> freelist_ok lim' fs"
  by (auto simp: freelist_ok_def rg_ok_def)

lemma apart_sym: "apart r s \<Longrightarrow> apart s r"
  by (auto simp: apart_def)

lemma apart_disjoint: "apart r s \<Longrightarrow> rg_bytes r \<inter> rg_bytes s = {}"
  by (auto simp: apart_def rg_bytes_def)

lemma disjoint_not_adjacent_apart:
  assumes "rg_ok lim r" and "rg_ok lim s" and "rg_bytes r \<inter> rg_bytes s = {}"
    and "rg_end r \<noteq> rg_start s" and "rg_end s \<noteq> rg_start r"
  shows "apart r s"
proof (rule ccontr)
  assume "\<not> apart r s"
  with assms have "max (rg_start r) (rg_start s) \<in> rg_bytes r \<inter> rg_bytes s"
    by (auto simp: apart_def rg_bytes_def rg_ok_def)
  with assms(3) show False by blast
qed

lemma free_bytes_lim: "freelist_ok lim fs \<Longrightarrow> free_bytes fs \<subseteq> {0..<lim}"
  by (fastforce simp: freelist_ok_def free_bytes_def rg_bytes_def rg_ok_def)

subsection \<open>Merging\<close>

abbreviation rg_hull :: "vm_rg_struct \<Rightarrow> vm_rg_struct \<Rightarrow> vm_rg_struct" where
  "rg_hull r e \<equiv> e\<lparr>rg_start := min (rg_start r) (rg_start e), rg_end := max (rg_end r) (rg_end e)\<rparr>"

lemma merge_loop_Cons:
  "merge_loop (r # rs) e =
     (if rg_end r = rg_start e \<or> rg_end e = rg_start r then merge_loop rs (rg_hull r e)
      else (r # fst (merge_loop rs e), snd (merge_loop rs e)))"
proof -
  let ?e1 = "if rg_start r < rg_start e then e\<lparr>rg_start := rg_start r\<rparr> else e"
  have "(if rg_end r > rg_end ?e1 then ?e1\<lparr>rg_end := rg_end r\<rparr> else ?e1) = rg_hull r e"
    by (cases e) (auto simp: min_def max_def)
  then show ?thesis
    by (simp only: merge_loop.simps Let_def split_beta)
qed

declare merge_loop.simps(2) [simp del]

lemma rg_hull_ok:
  assumes "rg_ok lim r" and "rg_ok lim e" and "rg_end r = rg_start e \<or> rg_end e = rg_start r"
  shows "rg_ok lim (rg_hull r e)" and "rg_bytes (rg_hull r e) = rg_bytes r \<union> rg_bytes e"
    and "apart x r \<Longrightarrow> apart x e \<Longrightarrow> rg_start x < rg_end x \<Longrightarrow> apart x (rg_hull r e)"
  using assms by (auto simp: rg_ok_def rg_bytes_def apart_def)

text \<open>A region with a gap to everything that takes part in a merge has a gap to the result.\<close>

lemma merge_loop_apart:
  assumes "\<forall>r \<in> set fs. rg_ok lim r" and "rg_ok lim e" and "rg_ok lim x"
    and "\<forall>r \<in> set fs. apart x r" and "apart x e"
  shows "apart x (snd (merge_loop fs e))"
  using assms
proof (induction fs arbitrary: e)
  case (Cons r fs)
  show ?case
  proof (cases "rg_end r = rg_start e \<or> rg_end e = rg_start r")
    case True
    have "rg_ok lim (rg_hull r e)" "apart x (rg_hull r e)"
      using rg_hull_ok [of lim r e] Cons.prems True by (simp_all add: rg_ok_def [of _ x])
    then show ?thesis
      using Cons True by (simp add: merge_loop_Cons)
  qed (use Cons in \<open>simp add: merge_loop_Cons\<close>)
qed simp

lemma merge_loop_spec:
  assumes "freelist_ok lim fs" and "rg_ok lim e" and "rg_bytes e \<inter> free_bytes fs = {}"
  shows "freelist_ok lim (snd (merge_loop fs e) # fst (merge_loop fs e)) \<and>
    set (fst (merge_loop fs e)) \<subseteq> set fs \<and>
    free_bytes (snd (merge_loop fs e) # fst (merge_loop fs e)) = rg_bytes e \<union> free_bytes fs"
  using assms
proof (induction fs arbitrary: e)
  case (Cons r fs)
  show ?case
  proof (cases "rg_end r = rg_start e \<or> rg_end e = rg_start r")
    case True
    have ok: "rg_ok lim (rg_hull r e)" and bytes: "rg_bytes (rg_hull r e) = rg_bytes r \<union> rg_bytes e"
      using rg_hull_ok [of lim r e] Cons.prems True by (auto simp: freelist_ok_Cons)
    have "rg_bytes r \<inter> free_bytes fs = {}"
      using Cons.prems(1) apart_disjoint by (auto simp: freelist_ok_Cons free_bytes_def)
    with Cons.prems have "rg_bytes (rg_hull r e) \<inter> free_bytes fs = {}"
      by (auto simp: bytes)
    from Cons.IH [OF _ ok this] Cons.prems(1) show ?thesis
      using True by (auto simp: merge_loop_Cons freelist_ok_Cons bytes)
  next
    case False
    let ?e = "snd (merge_loop fs e)" and ?fs = "fst (merge_loop fs e)"
    have IH: "freelist_ok lim (?e # ?fs)" "set ?fs \<subseteq> set fs"
        "free_bytes (?e # ?fs) = rg_bytes e \<union> free_bytes fs"
      using Cons.IH [of e] Cons.prems by (auto simp: freelist_ok_Cons)
    have "apart r e"
      using disjoint_not_adjacent_apart [of lim r e] Cons.prems False by (auto simp: freelist_ok_Cons)
    then have "apart r ?e"
      using merge_loop_apart [of fs lim e r] Cons.prems by (auto simp: freelist_ok_Cons freelist_ok_def)
    with IH Cons.prems(1) False show ?thesis
      by (auto simp: merge_loop_Cons freelist_ok_Cons apart_sym)
  qed
qed (simp add: freelist_ok_Cons)

subsection \<open>First fit\<close>

lemma get_free_loop_Some:
  assumes "freelist_ok lim fs" and "0 < sz" and "lim + sz < 18446744073709551616"
    and "get_free_loop fs sz = Some (n, fs')"
  shows "freelist_ok lim fs' \<and> rg_ok lim n \<and> rg_end n = rg_start n + sz \<and>
    rg_bytes n \<subseteq> free_bytes fs \<and> free_bytes fs' = free_bytes fs - rg_bytes n \<and>
    (\<forall>x. (\<forall>r \<in> set fs. apart x r) \<longrightarrow> rg_ok lim x \<longrightarrow> (\<forall>r \<in> set fs'. apart x r))"
  using assms
proof (induction fs arbitrary: n fs')
  case (Cons r fs)
  have r: "rg_ok lim r" "\<forall>s \<in> set fs. apart r s" "freelist_ok lim fs"
    using Cons.prems(1) by (auto simp: freelist_ok_Cons)
  have sep: "rg_bytes r \<inter> free_bytes fs = {}"
    using r(2) apart_disjoint by (auto simp: free_bytes_def)
  have no_wrap: "ul (rg_start r + sz) = rg_start r + sz"
    using r(1) Cons.prems(2,3) by (intro ul_small) (auto simp: rg_ok_def)
  consider (exact) "rg_start r + sz = rg_end r" | (split) "rg_start r + sz < rg_end r"
    | (small) "rg_end r < rg_start r + sz"
    by linarith
  then show ?case
  proof cases
    case exact
    with Cons.prems no_wrap have "n = \<lparr>rg_start = rg_start r, rg_end = rg_end r\<rparr>" "fs' = fs"
      by auto
    with exact r sep show ?thesis
      by (auto simp: rg_ok_def rg_bytes_def)
  next
    case split
    let ?s = "rg_start r + sz"
    have n: "n = \<lparr>rg_start = rg_start r, rg_end = ?s\<rparr>" and fs': "fs' = r\<lparr>rg_start := ?s\<rparr> # fs"
      using Cons.prems no_wrap split by (auto simp: Let_def)
    have "freelist_ok lim fs'"
      using r split Cons.prems(2) by (auto simp: fs' freelist_ok_Cons rg_ok_def apart_def)
    moreover have "free_bytes fs' = free_bytes (r # fs) - rg_bytes n"
      using sep split Cons.prems(2) by (fastforce simp: n fs' rg_bytes_def disjoint_iff)
    ultimately show ?thesis
      using r split Cons.prems(2)
      by (auto simp: n fs' rg_ok_def rg_bytes_def apart_def)
  next
    case small
    then obtain fs1 where fs1: "get_free_loop fs sz = Some (n, fs1)" "fs' = r # fs1"
      using Cons.prems no_wrap by auto
    note IH = Cons.IH [OF r(3) Cons.prems(2,3) fs1(1)]
    then show ?thesis
      using r sep by (auto simp: fs1(2) freelist_ok_Cons)
  qed
qed simp

lemma get_free_loop_None:
  assumes "freelist_ok lim fs" and "0 < sz" and "lim + sz < 18446744073709551616"
  shows "get_free_loop fs sz = None \<longleftrightarrow> (\<forall>r \<in> set fs. rg_end r - rg_start r < sz)"
  using assms
proof (induction fs)
  case (Cons r fs)
  have "ul (rg_start r + sz) = rg_start r + sz"
    using Cons.prems by (intro ul_small) (auto simp: freelist_ok_Cons rg_ok_def)
  then show ?case
    using Cons by (auto simp: freelist_ok_Cons Let_def)
qed simp

subsection \<open>The allocator contract\<close>

locale region_allocator =
  fixes take_rg :: "'a \<Rightarrow> int \<Rightarrow> (vm_rg_struct \<times> 'a) option"
    and give_rg :: "'a \<Rightarrow> vm_rg_struct \<Rightarrow> 'a"
    and space :: "'a \<Rightarrow> int set"
    and ok :: "int \<Rightarrow> 'a \<Rightarrow> bool"
  assumes take_Some: "ok lim a \<Longrightarrow> 0 < sz \<Longrightarrow> lim + sz < 18446744073709551616 \<Longrightarrow>
      take_rg a sz = Some (n, a') \<Longrightarrow>
      ok lim a' \<and> rg_ok lim n \<and> rg_end n = rg_start n + sz \<and> rg_bytes n \<subseteq> space a \<and>
      space a' = space a - rg_bytes n"
    and give: "ok lim a \<Longrightarrow> rg_ok lim r \<Longrightarrow> rg_bytes r \<inter> space a = {} \<Longrightarrow>
      ok lim (give_rg a r) \<and> space (give_rg a r) = rg_bytes r \<union> space a"
    and take_after_give: "ok lim a \<Longrightarrow> rg_ok lim r \<Longrightarrow> rg_bytes r \<inter> space a = {} \<Longrightarrow>
      0 < sz \<Longrightarrow> sz \<le> rg_end r - rg_start r \<Longrightarrow> lim + sz < 18446744073709551616 \<Longrightarrow>
      take_rg (give_rg a r) sz \<noteq> None"
begin

lemma take_give:
  assumes "ok lim a" and "0 < sz" and "lim + sz < 18446744073709551616"
    and "take_rg a sz = Some (n, a')"
  shows "ok lim (give_rg a' n)" and "space (give_rg a' n) = space a"
  using take_Some [OF assms] give [of lim a' n] by auto

lemma takes_disjoint:
  assumes "ok lim a" and "0 < sz" and "lim + sz < 18446744073709551616"
    and "0 < sz'" and "lim + sz' < 18446744073709551616"
    and "take_rg a sz = Some (n, a')" and "take_rg a' sz' = Some (n', a'')"
  shows "rg_bytes n \<inter> rg_bytes n' = {}"
  using take_Some [OF assms(1-3) assms(6)] take_Some [of lim a' sz' n' a''] assms(4,5,7) by blast

end

definition give_back :: "vm_rg_struct list \<Rightarrow> vm_rg_struct \<Rightarrow> vm_rg_struct list" where
  "give_back fs r = (case merge_loop fs r of (rgs, e) \<Rightarrow> e # rgs)"

lemma give_back_eq: "give_back fs r = snd (merge_loop fs r) # fst (merge_loop fs r)"
  by (simp add: give_back_def split_beta)

lemma enlist_vm_freerg_list_eq:
  "enlist_vm_freerg_list vma r =
     (if rg_start r < rg_end r then (0, vma\<lparr>vm_freerg_list := give_back (vm_freerg_list vma) r\<rparr>)
      else (- 1, vma))"
  by (simp add: enlist_vm_freerg_list_def give_back_def split_beta)

lemma merge_loop_grows:
  "rg_end e - rg_start e \<le> rg_end (snd (merge_loop fs e)) - rg_start (snd (merge_loop fs e))"
proof (induction fs arbitrary: e)
  case (Cons r fs)
  have "rg_end e - rg_start e \<le> rg_end (rg_hull r e) - rg_start (rg_hull r e)"
    by simp
  with Cons [of "rg_hull r e"] Cons [of e] show ?case
    by (auto simp: merge_loop_Cons)
qed simp

interpretation flist: region_allocator get_free_loop give_back free_bytes freelist_ok
proof (unfold_locales, goal_cases)
  case (1 lim fs sz n fs')
  then show ?case using get_free_loop_Some by blast
next
  case (2 lim fs r)
  then show ?case using merge_loop_spec [of lim fs r] by (simp add: give_back_eq)
next
  case (3 lim fs r sz)
  then have "freelist_ok lim (give_back fs r)"
    using merge_loop_spec [of lim fs r] by (simp add: give_back_eq)
  moreover have "\<not> (\<forall>s \<in> set (give_back fs r). rg_end s - rg_start s < sz)"
    using merge_loop_grows [of r fs] 3 by (auto simp: give_back_eq)
  ultimately show ?case
    using get_free_loop_None [of lim "give_back fs r" sz] 3 by blast
qed

subsection \<open>Properties\<close>

text \<open>
  Giving a region back to an area merges it with the free regions it touches: the free list stays
  a list of disjoint, non-adjacent regions inside the area, and the free bytes grow by exactly the
  bytes of the region.
\<close>

lemma enlist_freerg_ok:
  assumes "freelist_ok lim (vm_freerg_list vma)" and "rg_ok lim r"
    and "rg_bytes r \<inter> free_bytes (vm_freerg_list vma) = {}"
  shows "\<exists>vma'. enlist_vm_freerg_list vma r = (0, vma') \<and> freelist_ok lim (vm_freerg_list vma') \<and>
    free_bytes (vm_freerg_list vma') = rg_bytes r \<union> free_bytes (vm_freerg_list vma) \<and>
    vma' = vma\<lparr>vm_freerg_list := vm_freerg_list vma'\<rparr>"
  using flist.give [OF assms] assms(2) by (simp add: enlist_vm_freerg_list_eq rg_ok_def)

text \<open>
  C29. First fit: the scan of the free list finds a region exactly when one is large enough; the
  region it cuts off has exactly the requested size and lies in free space, and what is left free is
  exactly the rest. Giving the region back restores the free space.
\<close>

theorem first_fit:
  assumes "freelist_ok lim fs" and "0 < sz" and "lim + sz < 18446744073709551616"
  shows "case get_free_loop fs sz of
      None \<Rightarrow> \<forall>r \<in> set fs. rg_end r - rg_start r < sz
    | Some (n, fs') \<Rightarrow> freelist_ok lim fs' \<and> rg_end n = rg_start n + sz \<and>
        rg_bytes n \<subseteq> free_bytes fs \<and> free_bytes fs' = free_bytes fs - rg_bytes n \<and>
        free_bytes (give_back fs' n) = free_bytes fs"
  using get_free_loop_None [OF assms] flist.take_Some [OF assms] flist.take_give(2) [OF assms]
  by (auto split: option.split)

theorem first_fit_witness:
  "case get_free_loop [\<lparr>rg_start = 0, rg_end = 50\<rparr>, \<lparr>rg_start = 100, rg_end = 300\<rparr>] 120 of
      None \<Rightarrow> False
    | Some (n, fs') \<Rightarrow> freelist_ok 300 fs' \<and> rg_end n = rg_start n + 120 \<and> rg_start n = 100"
  using first_fit [of 300 "[\<lparr>rg_start = 0, rg_end = 50\<rparr>, \<lparr>rg_start = 100, rg_end = 300\<rparr>]" 120]
  by (simp add: freelist_ok_def rg_ok_def apart_def ul_def)

end
