(* ===== verification/Mm.thy ===== *)
theory Mm
  imports Memphy Region
begin

text \<open>
  The memory management unit: \<open>struct mm_struct\<close>, all of \<open>src/mm.c\<close> and \<open>src/mm-vm.c\<close>, and the
  page replacement of \<open>src/libmem.c\<close> (\<open>find_victim_page\<close>, \<open>__swap_out_page\<close>,
  \<open>pg_getpage\<close>), which these files call. A name that starts with two underscores in the source
  starts with \<open>u_\<close> here.

  The functions of the source take the calling process. What they touch of it is the record
  \<open>vmctx\<close>: its memory map and the devices its pointers lead to. \<open>active_mswp\<close> is the index of the
  swap device the pointer \<open>active_mswp\<close> leads to. The page table has \<open>PAGING_MAX_PGN\<close> entries and
  an access outside it is \<open>Out_of_bounds\<close>. A function with output parameters returns
  \<open>(return code, outputs, new state)\<close>; reading an output the callee did not write is
  \<open>Uninit_read\<close>.

  \<open>__swap_out_page\<close> copies the victim through system call 17, whose handler also leads back to
  \<open>__swap_out_page\<close> through another branch. The branch it takes, \<open>SYSMEM_SWP_OP\<close>, is the
  definition \<open>sys_memmap_swp\<close>; theory \<open>Libmem\<close> has the whole handler and shows that the system
  call with these registers is this branch.
\<close>

record mm_struct =
  pgd :: "int \<Rightarrow> u32"
  mmap :: "vm_area_struct list"
  symrgtbl :: "vm_rg_struct list"
  fifo_pgn :: "int list"

record vmctx =
  mm :: mm_struct
  mram :: memphy_struct
  mswp :: "memphy_struct list"
  active_mswp :: nat
  active_mswp_id :: u32

record sc_regs =
  a1 :: u32
  a2 :: u32
  a3 :: u32

definition PAGING_MAX_SYMTBL_SZ :: nat where
  "PAGING_MAX_SYMTBL_SZ = 30"

definition PAGING_MAX_MMSWP :: nat where
  "PAGING_MAX_MMSWP = 4"

subsection \<open>Memory accesses of the C code\<close>

definition out :: "'a option \<Rightarrow> 'a res" where
  "out x = (case x of None \<Rightarrow> Inl Uninit_read | Some v \<Rightarrow> Inr v)"

lemma out_Some [simp]: "out (Some x) = Inr x"
  by (simp add: out_def)

definition pgd_get :: "mm_struct \<Rightarrow> int \<Rightarrow> u32 res" where
  "pgd_get m i = (if 0 \<le> i \<and> i < PAGING_MAX_PGN then Inr (pgd m i) else Inl Out_of_bounds)"

definition pgd_set :: "mm_struct \<Rightarrow> int \<Rightarrow> u32 \<Rightarrow> mm_struct res" where
  "pgd_set m i v =
     (if 0 \<le> i \<and> i < PAGING_MAX_PGN then Inr (m\<lparr>pgd := (pgd m)(i := v)\<rparr>) else Inl Out_of_bounds)"

definition swp_dev :: "vmctx \<Rightarrow> int \<Rightarrow> memphy_struct res" where
  "swp_dev c i = (if 0 \<le> i \<and> i < int (length (mswp c)) then Inr (mswp c ! nat i) else Inl Out_of_bounds)"

definition set_swp_dev :: "vmctx \<Rightarrow> int \<Rightarrow> memphy_struct \<Rightarrow> vmctx" where
  "set_swp_dev c i d = c\<lparr>mswp := (mswp c)[nat i := d]\<rparr>"

subsection \<open>Lists of pages and areas\<close>

definition enlist_pgn_node :: "int list \<Rightarrow> int \<Rightarrow> int list" where
  "enlist_pgn_node plist pgn = pgn # plist"

fun get_vma_loop :: "vm_area_struct list \<Rightarrow> int \<Rightarrow> vm_area_struct option" where
  "get_vma_loop [] vmaid = None"
| "get_vma_loop (pvma # rest) vmaid =
     (if vm_id pvma \<noteq> ul vmaid then get_vma_loop rest vmaid else Some pvma)"

definition get_vma_by_num :: "mm_struct \<Rightarrow> int \<Rightarrow> vm_area_struct option" where
  "get_vma_by_num m vmaid = get_vma_loop (mmap m) vmaid"

text \<open>A store through the pointer \<open>get_vma_by_num\<close> returned.\<close>

fun upd_vma_loop ::
    "vm_area_struct list \<Rightarrow> int \<Rightarrow> (vm_area_struct \<Rightarrow> vm_area_struct) \<Rightarrow> vm_area_struct list" where
  "upd_vma_loop [] vmaid f = []"
| "upd_vma_loop (pvma # rest) vmaid f =
     (if vm_id pvma \<noteq> ul vmaid then pvma # upd_vma_loop rest vmaid f else f pvma # rest)"

definition upd_vma :: "mm_struct \<Rightarrow> int \<Rightarrow> (vm_area_struct \<Rightarrow> vm_area_struct) \<Rightarrow> mm_struct" where
  "upd_vma m vmaid f = m\<lparr>mmap := upd_vma_loop (mmap m) vmaid f\<rparr>"

subsection \<open>Copying a frame\<close>

definition cell_addr :: "int \<Rightarrow> int \<Rightarrow> int res" where
  "cell_addr fpn cellidx = rbind (chk_int (fpn * PAGING_PAGESZ)) (\<lambda>x. chk_int (x + cellidx))"

function swap_cp_loop :: "int \<Rightarrow> memphy_struct \<Rightarrow> int \<Rightarrow> memphy_struct \<Rightarrow> int \<Rightarrow>
    (memphy_struct \<times> memphy_struct) res" where
  "swap_cp_loop cellidx mpsrc srcfpn mpdst dstfpn =
     (if cellidx < PAGING_PAGESZ then
        rbind (cell_addr srcfpn cellidx) (\<lambda>addrsrc.
        rbind (cell_addr dstfpn cellidx) (\<lambda>addrdst.
        rbind (MEMPHY_read mpsrc addrsrc) (\<lambda>(_, data, mpsrc').
        rbind (out data) (\<lambda>b.
        rbind (MEMPHY_write mpdst addrdst b) (\<lambda>(_, mpdst').
          swap_cp_loop (cellidx + 1) mpsrc' srcfpn mpdst' dstfpn)))))
      else Inr (mpsrc, mpdst))"
  by pat_completeness auto
termination
  by (relation "measure (\<lambda>(i, _). nat (PAGING_PAGESZ - i))") auto

declare swap_cp_loop.simps [simp del]

definition u_swap_cp_page :: "memphy_struct \<Rightarrow> int \<Rightarrow> memphy_struct \<Rightarrow> int \<Rightarrow>
    (memphy_struct \<times> memphy_struct) res" where
  "u_swap_cp_page mpsrc srcfpn mpdst dstfpn = swap_cp_loop 0 mpsrc srcfpn mpdst dstfpn"

definition u_mm_swap_page :: "vmctx \<Rightarrow> int \<Rightarrow> int \<Rightarrow> vmctx res" where
  "u_mm_swap_page c vicfpn swpfpn =
     rbind (swp_dev c (int (active_mswp c))) (\<lambda>sw.
     rbind (u_swap_cp_page (mram c) vicfpn sw swpfpn) (\<lambda>(ram', sw').
       Inr (set_swp_dev (c\<lparr>mram := ram'\<rparr>) (int (active_mswp c)) sw')))"

definition sys_memmap_swp :: "vmctx \<Rightarrow> sc_regs \<Rightarrow> vmctx res" where
  "sys_memmap_swp c regs = u_mm_swap_page c (sint (a2 regs)) (sint (a3 regs))"

subsection \<open>Page replacement\<close>

fun victim_loop :: "int list \<Rightarrow> int \<times> int list" where
  "victim_loop [] = (0, [])"
| "victim_loop [pgn] = (pgn, [])"
| "victim_loop (p # q # rest) = (let (pgn, l) = victim_loop (q # rest) in (pgn, p # l))"

definition find_victim_page :: "mm_struct \<Rightarrow> int \<times> int option \<times> mm_struct" where
  "find_victim_page m =
     (if fifo_pgn m = [] then (- 1, None, m)
      else let (pgn, l) = victim_loop (fifo_pgn m) in (0, Some pgn, m\<lparr>fifo_pgn := l\<rparr>))"

definition SYSMEM_SWP_OP :: u32 where
  "SYSMEM_SWP_OP = 3"

definition u_swap_out_page :: "vmctx \<Rightarrow> (int \<times> int option \<times> vmctx) res" where
  "u_swap_out_page c =
     (let (rc, vic, m1) = find_victim_page (mm c); c1 = c\<lparr>mm := m1\<rparr> in
      if rc \<noteq> 0 then Inr (- 1, None, c1)
      else
        rbind (out vic) (\<lambda>vicpgn.
        rbind (swp_dev c1 (int (active_mswp c1))) (\<lambda>sw.
          let (rc2, swpf, sw1) = MEMPHY_get_freefp sw;
              c2 = set_swp_dev c1 (int (active_mswp c1)) sw1 in
          if rc2 \<noteq> 0 then
            Inr (- 1, None, c2\<lparr>mm := (mm c2)\<lparr>fifo_pgn := enlist_pgn_node (fifo_pgn (mm c2)) vicpgn\<rparr>\<rparr>)
          else
            rbind (out swpf) (\<lambda>swpfpn.
            rbind (pgd_get (mm c2) vicpgn) (\<lambda>pte.
              let vicfpn = PAGING_FPN pte;
                  regs = \<lparr>a1 = SYSMEM_SWP_OP, a2 = word_of_int vicfpn, a3 = word_of_int swpfpn\<rparr> in
              rbind (sys_memmap_swp c2 regs) (\<lambda>c3.
              rbind (pgd_get (mm c3) vicpgn) (\<lambda>pte3.
              rbind (pgd_set (mm c3) vicpgn (pte_set_swap pte3 (sint (active_mswp_id c3)) swpfpn)) (\<lambda>m4.
                Inr (0, Some vicfpn, c3\<lparr>mm := m4\<rparr>)))))))))"

definition pg_getpage :: "vmctx \<Rightarrow> int \<Rightarrow> (int \<times> int option \<times> vmctx) res" where
  "pg_getpage c pgn =
     (if pgn < 0 \<or> pgn \<ge> PAGING_MAX_PGN then Inr (- 1, None, c)
      else
        rbind (pgd_get (mm c) pgn) (\<lambda>pte.
        if \<not> PAGING_PAGE_PRESENT pte then Inr (- 1, None, c)
        else
          rbind
            (if PAGING_PAGE_SWAPPED pte then
               let swptyp = PAGING_PTE_SWPTYP pte; tgtswpfpn = PAGING_PTE_SWP pte;
                   (rc, f, ram1) = MEMPHY_get_freefp (mram c); c1 = c\<lparr>mram := ram1\<rparr> in
               rbind (swp_dev c swptyp) (\<lambda>_.
               rbind (if rc \<noteq> 0 then u_swap_out_page c1 else Inr (0, f, c1)) (\<lambda>(rc2, f2, c2).
               if rc2 \<noteq> 0 then Inr (- 1, c2)
               else
                 rbind (out f2) (\<lambda>tgtfpn.
                 rbind (swp_dev c2 swptyp) (\<lambda>tgtswp.
                 rbind (u_swap_cp_page tgtswp tgtswpfpn (mram c2) tgtfpn) (\<lambda>(tgtswp', ram').
                   let c3 = set_swp_dev (c2\<lparr>mram := ram'\<rparr>) swptyp
                              (MEMPHY_put_freefp tgtswp' tgtswpfpn) in
                   rbind (pgd_get (mm c3) pgn) (\<lambda>pte3.
                   rbind (pgd_set (mm c3) pgn (pte_set_fpn pte3 tgtfpn)) (\<lambda>m4.
                     Inr (0, c3\<lparr>mm := m4\<lparr>fifo_pgn := enlist_pgn_node (fifo_pgn m4) pgn\<rparr>\<rparr>))))))))
             else Inr (0, c))
            (\<lambda>(rc, c').
               if rc \<noteq> 0 then Inr (rc, None, c')
               else rbind (pgd_get (mm c') pgn) (\<lambda>pte'. Inr (0, Some (PAGING_FPN pte'), c')))))"

subsection \<open>Mapping pages\<close>

primrec put_back :: "int list \<Rightarrow> vmctx \<Rightarrow> vmctx" where
  "put_back [] c = c"
| "put_back (fpn # rest) c = put_back rest (c\<lparr>mram := MEMPHY_put_freefp (mram c) fpn\<rparr>)"

function alloc_pages_loop :: "int \<Rightarrow> int \<Rightarrow> int list \<Rightarrow> vmctx \<Rightarrow> (int \<times> int list \<times> vmctx) res" where
  "alloc_pages_loop pgit req_pgnum fps c =
     (if pgit < req_pgnum then
        let (rc, f, ram1) = MEMPHY_get_freefp (mram c); c1 = c\<lparr>mram := ram1\<rparr> in
        rbind (if rc = 0 then Inr (0, f, c1) else u_swap_out_page c1) (\<lambda>(rc2, f2, c2).
        if rc2 = 0 then
          rbind (out f2) (\<lambda>fpn. alloc_pages_loop (pgit + 1) req_pgnum (fpn # fps) c2)
        else Inr (- 3000, [], put_back fps c2))
      else Inr (0, fps, c))"
  by pat_completeness auto
termination
  by (relation "measure (\<lambda>(pgit, req, _). nat (req - pgit))") auto

declare alloc_pages_loop.simps [simp del]

definition alloc_pages_range :: "vmctx \<Rightarrow> int \<Rightarrow> (int \<times> int list \<times> vmctx) res" where
  "alloc_pages_range c req_pgnum = alloc_pages_loop 0 req_pgnum [] c"

fun vmap_loop :: "int list \<Rightarrow> int \<Rightarrow> int \<Rightarrow> int \<Rightarrow> mm_struct \<Rightarrow> mm_struct res" where
  "vmap_loop [] pgit pgnum pgn m = Inr m"
| "vmap_loop (fpn # rest) pgit pgnum pgn m =
     (if pgit < pgnum then
        rbind (pgd_get m (pgn + pgit)) (\<lambda>pte.
        rbind (pgd_set m (pgn + pgit) (pte_set_fpn pte fpn)) (\<lambda>m'.
          vmap_loop rest (pgit + 1) pgnum pgn
            (m'\<lparr>fifo_pgn := enlist_pgn_node (fifo_pgn m') (pgn + pgit)\<rparr>)))
      else Inr m)"

definition vmap_page_range ::
    "vmctx \<Rightarrow> int \<Rightarrow> int \<Rightarrow> int list \<Rightarrow> (vm_rg_struct \<times> vmctx) res" where
  "vmap_page_range c addr pgnum frames =
     (let pgn = PAGING_PGN addr in
      rbind (chk_int (pgnum * PAGING_PAGESZ)) (\<lambda>len.
      rbind (chk_int (addr + len)) (\<lambda>e.
      rbind (vmap_loop frames 0 pgnum pgn (mm c)) (\<lambda>m'.
        Inr (\<lparr>rg_start = ul addr, rg_end = ul e\<rparr>, c\<lparr>mm := m'\<rparr>)))))"

text \<open>The region is an output parameter the error paths do not write.\<close>

definition vm_map_ram ::
    "vmctx \<Rightarrow> int \<Rightarrow> int \<Rightarrow> int \<Rightarrow> int \<Rightarrow> (int \<times> vm_rg_struct option \<times> vmctx) res" where
  "vm_map_ram c astart aend mapstart incpgnum =
     rbind (alloc_pages_range c incpgnum) (\<lambda>(ret_alloc, frm_lst, c1).
     if ret_alloc < 0 \<and> ret_alloc \<noteq> - 3000 then Inr (- 1, None, c1)
     else if ret_alloc = - 3000 then Inr (- 1, None, c1)
     else rbind (vmap_page_range c1 mapstart incpgnum frm_lst) (\<lambda>(rg, c2). Inr (0, Some rg, c2)))"

definition init_mm :: mm_struct where
  "init_mm =
     (let vma0 = \<lparr>vm_id = 0, vm_start = 0, vm_end = 0, sbrk = 0, vm_freerg_list = []\<rparr>;
          first_rg = init_vm_rg (to_int (vm_start vma0)) (to_int (vm_end vma0));
          vma1 = vma0\<lparr>vm_freerg_list := enlist_vm_rg_node (vm_freerg_list vma0) first_rg\<rparr>
      in \<lparr>pgd = (\<lambda>_. 0), mmap = [vma1],
          symrgtbl = replicate PAGING_MAX_SYMTBL_SZ \<lparr>rg_start = 0, rg_end = 0\<rparr>, fifo_pgn = []\<rparr>)"

subsection \<open>Growing an area\<close>

definition get_vm_area_node_at_brk :: "vmctx \<Rightarrow> int \<Rightarrow> int \<Rightarrow> int \<Rightarrow> vm_rg_struct option" where
  "get_vm_area_node_at_brk c vmaid sz alignedsz =
     (case get_vma_by_num (mm c) vmaid of
        None \<Rightarrow> None
      | Some cur_vma \<Rightarrow> Some \<lparr>rg_start = sbrk cur_vma, rg_end = ul (sbrk cur_vma + alignedsz)\<rparr>)"

fun overlap_loop :: "vm_area_struct list \<Rightarrow> int \<Rightarrow> int \<Rightarrow> int \<Rightarrow> int" where
  "overlap_loop [] vmaid vmastart vmaend = 0"
| "overlap_loop (vma # rest) vmaid vmastart vmaend =
     (if vm_id vma \<noteq> ul vmaid \<and> vm_start vma < vm_end vma \<and>
         ul vmastart < vm_end vma \<and> vm_start vma < ul vmaend then - 1
      else overlap_loop rest vmaid vmastart vmaend)"

definition validate_overlap_vm_area :: "vmctx \<Rightarrow> int \<Rightarrow> int \<Rightarrow> int \<Rightarrow> int" where
  "validate_overlap_vm_area c vmaid vmastart vmaend =
     (if vmastart \<ge> vmaend then - 1 else overlap_loop (mmap (mm c)) vmaid vmastart vmaend)"

definition inc_vma_limit :: "vmctx \<Rightarrow> int \<Rightarrow> int \<Rightarrow> (int \<times> vmctx) res" where
  "inc_vma_limit c vmaid inc_sz =
     rbind (PAGING_PAGE_ALIGNSZ inc_sz) (\<lambda>inc_amt.
       let incnumpage = c_div inc_amt PAGING_PAGESZ in
       case (get_vma_by_num (mm c) vmaid, get_vm_area_node_at_brk c vmaid inc_sz inc_amt) of
         (Some cur_vma, Some area) \<Rightarrow>
           if inc_amt \<le> 0 then Inr (- 1, c)
           else if validate_overlap_vm_area c vmaid (to_int (rg_start area)) (to_int (rg_end area)) < 0
           then Inr (- 1, c)
           else
             rbind (vm_map_ram c (to_int (rg_start area)) (to_int (rg_end area))
                      (to_int (vm_end cur_vma)) incnumpage) (\<lambda>(rc, rg, c1).
             if rc < 0 then Inr (- 1, c1)
             else
               rbind (out rg) (\<lambda>area'.
               let m1 = upd_vma (mm c1) vmaid
                     (\<lambda>v. v\<lparr>vm_end := ul (vm_end v + inc_amt), sbrk := ul (sbrk v + inc_amt)\<rparr>);
                   m2 = upd_vma m1 vmaid (\<lambda>v. snd (enlist_vm_freerg_list v area'))
               in Inr (0, c1\<lparr>mm := m2\<rparr>)))
       | _ \<Rightarrow> Inr (- 1, c))"

subsection \<open>Tracing\<close>

text \<open>
  The trace functions return their code and what they print: the raw entries and the frame numbers of
  the pages of area 0 for \<open>print_pgtbl\<close>.
\<close>

definition print_list_fp :: "int list \<Rightarrow> int \<times> int list" where
  "print_list_fp fps = (if fps = [] then (- 1, []) else (0, fps))"

definition print_list_rg :: "vm_rg_struct list \<Rightarrow> int \<times> (int \<times> int) list" where
  "print_list_rg rgs =
     (if rgs = [] then (- 1, []) else (0, map (\<lambda>r. (rg_start r, rg_end r)) rgs))"

definition print_list_vma :: "vm_area_struct list \<Rightarrow> int \<times> (int \<times> int) list" where
  "print_list_vma vmas =
     (if vmas = [] then (- 1, []) else (0, map (\<lambda>v. (vm_start v, vm_end v)) vmas))"

definition print_list_pgn :: "int list \<Rightarrow> int \<times> int list" where
  "print_list_pgn pgns = (if pgns = [] then (- 1, []) else (0, pgns))"

fun read_ptes :: "mm_struct \<Rightarrow> int list \<Rightarrow> (int \<times> u32) list res" where
  "read_ptes m [] = Inr []"
| "read_ptes m (pgit # rest) =
     rbind (pgd_get m pgit) (\<lambda>pte. rbind (read_ptes m rest) (\<lambda>l. Inr ((pgit, pte) # l)))"

definition print_pgtbl :: "vmctx \<Rightarrow> u32 \<Rightarrow> u32 \<Rightarrow> (int \<times> (int \<times> u32) list \<times> (int \<times> int) list) res" where
  "print_pgtbl c start endd =
     rbind (if endd = - 1 then
              (case get_vma_by_num (mm c) 0 of
                 None \<Rightarrow> Inl Dangling | Some cur_vma \<Rightarrow> Inr (word_of_int (vm_end cur_vma)))
            else Inr endd) (\<lambda>e.
     rbind (read_ptes (mm c) [PAGING_PGN (uint start)..PAGING_PGN (uint e) - 1]) (\<lambda>ptes.
       Inr (0, ptes, map (\<lambda>(p, pte). (p, PAGING_FPN pte)) ptes)))"

end
