(* ===== verification/Paging.thy ===== *)
theory Paging
  imports Mm
begin

text \<open>
  Demand paging: what \<open>__swap_cp_page\<close>, \<open>__swap_out_page\<close>, \<open>pg_getpage\<close>,
  \<open>alloc_pages_range\<close> and \<open>vmap_page_range\<close> do to the memory a process sees.

  The invariant \<open>paging_ok R S c\<close> accounts for every frame: each RAM frame is in the free list once,
  or holds exactly one resident page of the process, or belongs to the set \<open>R\<close> of frames others own;
  likewise for the frames of the active swap device and \<open>S\<close>; and the replacement queue lists exactly
  the resident pages. The abstraction \<open>vmem c\<close> is the memory of the process as a partial map from
  virtual addresses to bytes, wherever the pages are. The operations keep the invariant for the same
  \<open>R\<close> and \<open>S\<close>, do not change a byte of the frames in them, and do not change \<open>vmem\<close>: moving pages
  between RAM and swap is invisible to the process and to every other process.
\<close>

subsection \<open>Copying a frame\<close>

definition dev_same :: "memphy_struct \<Rightarrow> memphy_struct \<Rightarrow> bool" where
  "dev_same d d' \<longleftrightarrow>
     maxsz d' = maxsz d \<and> rdmflg d' = rdmflg d \<and> free_fp_list d' = free_fp_list d"

definition nframes :: "memphy_struct \<Rightarrow> int" where
  "nframes d = maxsz d div 256"

definition overlay :: "(int \<Rightarrow> byte) \<Rightarrow> int \<Rightarrow> (int \<Rightarrow> byte) \<Rightarrow> int \<Rightarrow> int \<Rightarrow> byte" where
  "overlay src s dst d a =
     (if d * 256 \<le> a \<and> a < d * 256 + 256 then src (s * 256 + (a - d * 256)) else dst a)"

lemma cell_addr_eq: "0 \<le> f \<Longrightarrow> 0 \<le> i \<Longrightarrow> f * 256 + i \<le> INT_MAX \<Longrightarrow> cell_addr f i = Inr (f * 256 + i)"
  by (simp add: cell_addr_def PAGING_PAGESZ_def INT_MAX_def chk_int_small)

lemma swap_cp_loop_spec:
  assumes "0 \<le> i" and "i \<le> 256"
    and "0 \<le> s" and "s * 256 + 256 \<le> maxsz src" and "maxsz src \<le> INT_MAX"
    and "0 \<le> d" and "d * 256 + 256 \<le> maxsz dst" and "maxsz dst \<le> INT_MAX"
  shows "\<exists>src' dst'. swap_cp_loop i src s dst d = Inr (src', dst') \<and>
    dev_same src src' \<and> storage src' = storage src \<and> dev_same dst dst' \<and>
    storage dst' = (\<lambda>a. if d * 256 + i \<le> a \<and> a < d * 256 + 256
                        then storage src (s * 256 + (a - d * 256)) else storage dst a)"
  using assms
proof (induction "nat (256 - i)" arbitrary: i src dst)
  case 0
  then show ?case
    by (subst swap_cp_loop.simps) (auto simp: PAGING_PAGESZ_def dev_same_def fun_eq_iff)
next
  case (Suc n)
  let ?src1 = "seek src (s * 256 + i)"
  let ?dst1 = "(seek dst (d * 256 + i))\<lparr>storage := (storage dst)(d * 256 + i := storage src (s * 256 + i))\<rparr>"
  have i: "i < 256"
    using Suc.hyps(2) by simp
  have n: "n = nat (256 - (i + 1))"
    using Suc.hyps(2) by simp
  have step: "swap_cp_loop i src s dst d = swap_cp_loop (i + 1) ?src1 s ?dst1 d"
    using Suc.prems i
    by (subst swap_cp_loop.simps)
      (simp add: PAGING_PAGESZ_def cell_addr_eq MEMPHY_read_eq MEMPHY_write_eq)
  obtain src' dst' where *:
    "swap_cp_loop (i + 1) ?src1 s ?dst1 d = Inr (src', dst')"
    "dev_same ?src1 src'" "storage src' = storage ?src1" "dev_same ?dst1 dst'"
    "storage dst' = (\<lambda>a. if d * 256 + (i + 1) \<le> a \<and> a < d * 256 + 256
                        then storage ?src1 (s * 256 + (a - d * 256)) else storage ?dst1 a)"
    using Suc.hyps(1) [OF n, of ?src1 ?dst1] Suc.prems i by auto
  have "storage dst' = (\<lambda>a. if d * 256 + i \<le> a \<and> a < d * 256 + 256
                        then storage src (s * 256 + (a - d * 256)) else storage dst a)"
    using i by (auto simp: *(5) fun_eq_iff)
  with * step show ?case
    by (auto simp: dev_same_def)
qed

definition frame_in :: "memphy_struct \<Rightarrow> int \<Rightarrow> bool" where
  "frame_in d f \<longleftrightarrow> 0 \<le> f \<and> f < nframes d"

definition dev_ok :: "memphy_struct \<Rightarrow> int \<Rightarrow> bool" where
  "dev_ok d n \<longleftrightarrow> nframes d \<le> n \<and> maxsz d \<le> INT_MAX"

lemma u_swap_cp_page_spec:
  assumes "frame_in src s" and "maxsz src \<le> INT_MAX" and "frame_in dst d" and "maxsz dst \<le> INT_MAX"
  obtains src' dst' where "u_swap_cp_page src s dst d = Inr (src', dst')"
    and "dev_same src src'" and "storage src' = storage src"
    and "dev_same dst dst'" and "storage dst' = overlay (storage src) s (storage dst) d"
proof -
  have "s * 256 + 256 \<le> maxsz src" "d * 256 + 256 \<le> maxsz dst"
    using assms(1,3) by (auto simp: frame_in_def nframes_def)
  then obtain src' dst' where "swap_cp_loop 0 src s dst d = Inr (src', dst')"
      "dev_same src src'" "storage src' = storage src" "dev_same dst dst'"
      "storage dst' = (\<lambda>a. if d * 256 + 0 \<le> a \<and> a < d * 256 + 256
                        then storage src (s * 256 + (a - d * 256)) else storage dst a)"
    using swap_cp_loop_spec [of 0 s src d dst] assms by (auto simp: frame_in_def)
  then show ?thesis
    by (intro that [of src' dst']) (auto simp: u_swap_cp_page_def overlay_def fun_eq_iff)
qed

lemma overlay_frame:
  assumes "0 \<le> i" and "i < 256"
  shows "overlay src s dst d (f * 256 + i) = (if f = d then src (s * 256 + i) else dst (f * 256 + i))"
  using assms by (auto simp: overlay_def)

subsection \<open>Accounting for frames\<close>

text \<open>
  \<open>pool_ok n fl A own X\<close>: the \<open>n\<close> frames of a device are split into the free list \<open>fl\<close>, the
  frames \<open>own p\<close> of the pages \<open>p\<close> in \<open>A\<close>, one each, and the set \<open>X\<close>.
\<close>

definition pool_ok :: "int \<Rightarrow> int list \<Rightarrow> int set \<Rightarrow> (int \<Rightarrow> int) \<Rightarrow> int set \<Rightarrow> bool" where
  "pool_ok n fl A own X \<longleftrightarrow> distinct fl \<and> inj_on own A \<and> set fl \<union> own ` A \<union> X = {0..<n} \<and>
     set fl \<inter> own ` A = {} \<and> set fl \<inter> X = {} \<and> own ` A \<inter> X = {}"

lemma pool_ok_cong:
  "(\<And>p. p \<in> A \<Longrightarrow> own p = own' p) \<Longrightarrow> pool_ok n fl A own X = pool_ok n fl A own' X"
  unfolding pool_ok_def by (simp cong: inj_on_cong image_cong)

lemma pool_ok_take: "pool_ok n (f # fl) A own X \<Longrightarrow> pool_ok n fl A own (insert f X) \<and> f \<notin> X"
  by (auto simp: pool_ok_def)

lemma pool_ok_put: "pool_ok n fl A own (insert f X) \<Longrightarrow> f \<notin> X \<Longrightarrow> pool_ok n (f # fl) A own X"
  by (auto simp: pool_ok_def)

lemma pool_ok_release:
  assumes "pool_ok n fl A own X" and "p \<in> A"
  shows "pool_ok n fl (A - {p}) own (insert (own p) X)" and "own p \<notin> X"
proof -
  have "own ` (A - {p}) = own ` A - {own p}"
    using assms by (auto simp: pool_ok_def inj_on_def)
  then show "pool_ok n fl (A - {p}) own (insert (own p) X)"
    using assms by (auto simp: pool_ok_def inj_on_diff)
  show "own p \<notin> X"
    using assms by (auto simp: pool_ok_def)
qed

lemma pool_ok_acquire:
  assumes "pool_ok n fl A own (insert f X)" and "f \<notin> X" and "p \<notin> A"
    and "own' p = f" and "\<And>q. q \<in> A \<Longrightarrow> own' q = own q"
  shows "pool_ok n fl (insert p A) own' X"
proof -
  have im: "own' ` A = own ` A"
    using assms(5) by (simp cong: image_cong)
  have "inj_on own' A"
    using assms(1,5) by (simp add: pool_ok_def cong: inj_on_cong)
  moreover have "f \<notin> own ` A"
    using assms(1) by (auto simp: pool_ok_def)
  ultimately show ?thesis
    using assms(1-4) im by (auto simp: pool_ok_def)
qed

lemma pool_ok_range:
  assumes "pool_ok n fl A own X"
  shows "f \<in> set fl \<Longrightarrow> 0 \<le> f \<and> f < n" and "p \<in> A \<Longrightarrow> 0 \<le> own p \<and> own p < n"
    and "f \<in> X \<Longrightarrow> 0 \<le> f \<and> f < n"
proof -
  have "set fl \<union> own ` A \<union> X = {0..<n}"
    using assms by (simp add: pool_ok_def)
  then show "f \<in> set fl \<Longrightarrow> 0 \<le> f \<and> f < n" "p \<in> A \<Longrightarrow> 0 \<le> own p \<and> own p < n"
      "f \<in> X \<Longrightarrow> 0 \<le> f \<and> f < n"
    by (auto simp: set_eq_iff)
qed

subsection \<open>The paging invariant and the memory of a process\<close>

definition mapped :: "vmctx \<Rightarrow> int \<Rightarrow> bool" where
  "mapped c p \<longleftrightarrow> 0 \<le> p \<and> p < PAGING_MAX_PGN \<and> PAGING_PAGE_PRESENT (pgd (mm c) p)"

definition swapped :: "vmctx \<Rightarrow> int \<Rightarrow> bool" where
  "swapped c p \<longleftrightarrow> mapped c p \<and> PAGING_PAGE_SWAPPED (pgd (mm c) p)"

definition resident :: "vmctx \<Rightarrow> int \<Rightarrow> bool" where
  "resident c p \<longleftrightarrow> mapped c p \<and> \<not> PAGING_PAGE_SWAPPED (pgd (mm c) p)"

definition fpn_of :: "vmctx \<Rightarrow> int \<Rightarrow> int" where
  "fpn_of c p = PAGING_FPN (pgd (mm c) p)"

definition swp_of :: "vmctx \<Rightarrow> int \<Rightarrow> int" where
  "swp_of c p = PAGING_PTE_SWP (pgd (mm c) p)"

abbreviation act :: "vmctx \<Rightarrow> memphy_struct" where
  "act c \<equiv> mswp c ! active_mswp c"

definition active_ok :: "vmctx \<Rightarrow> bool" where
  "active_ok c \<longleftrightarrow> active_mswp c < length (mswp c) \<and> active_mswp c < 32 \<and>
     sint (active_mswp_id c) = int (active_mswp c)"

definition paging_ok :: "int set \<Rightarrow> int set \<Rightarrow> vmctx \<Rightarrow> bool" where
  "paging_ok R S c \<longleftrightarrow> active_ok c \<and> dev_ok (mram c) 8192 \<and> dev_ok (act c) 2097152 \<and>
     pool_ok (nframes (mram c)) (free_fp_list (mram c)) {p. resident c p} (fpn_of c) R \<and>
     pool_ok (nframes (act c)) (free_fp_list (act c)) {p. swapped c p} (swp_of c) S \<and>
     (\<forall>p. swapped c p \<longrightarrow> PAGING_PTE_SWPTYP (pgd (mm c) p) = int (active_mswp c)) \<and>
     distinct (fifo_pgn (mm c)) \<and> set (fifo_pgn (mm c)) = {p. resident c p}"

definition page_byte :: "vmctx \<Rightarrow> int \<Rightarrow> int \<Rightarrow> byte option" where
  "page_byte c p i =
     (if resident c p then Some (storage (mram c) (fpn_of c p * 256 + i))
      else if swapped c p then Some (storage (act c) (swp_of c p * 256 + i))
      else None)"

definition vmem :: "vmctx \<Rightarrow> int \<Rightarrow> byte option" where
  "vmem c a = page_byte c (a div 256) (a mod 256)"

text \<open>What an operation leaves alone: everything but the pages of the process, and \<open>R\<close>, \<open>S\<close>.\<close>

definition env_same :: "vmctx \<Rightarrow> vmctx \<Rightarrow> bool" where
  "env_same c c' \<longleftrightarrow> active_mswp c' = active_mswp c \<and> active_mswp_id c' = active_mswp_id c \<and>
     length (mswp c') = length (mswp c) \<and> (\<forall>i. i \<noteq> active_mswp c \<longrightarrow> mswp c' ! i = mswp c ! i) \<and>
     maxsz (mram c') = maxsz (mram c) \<and> rdmflg (mram c') = rdmflg (mram c) \<and>
     maxsz (act c') = maxsz (act c) \<and> rdmflg (act c') = rdmflg (act c)"

definition frames_same :: "int set \<Rightarrow> memphy_struct \<Rightarrow> memphy_struct \<Rightarrow> bool" where
  "frames_same F d d' \<longleftrightarrow>
     (\<forall>f i. f \<in> F \<longrightarrow> 0 \<le> i \<longrightarrow> i < 256 \<longrightarrow> storage d' (f * 256 + i) = storage d (f * 256 + i))"

definition map_same :: "vmctx \<Rightarrow> vmctx \<Rightarrow> bool" where
  "map_same c c' \<longleftrightarrow> mmap (mm c') = mmap (mm c) \<and> symrgtbl (mm c') = symrgtbl (mm c)"

definition pages_same :: "vmctx \<Rightarrow> vmctx \<Rightarrow> bool" where
  "pages_same c c' \<longleftrightarrow> (\<forall>p i. 0 \<le> i \<longrightarrow> i < 256 \<longrightarrow> page_byte c' p i = page_byte c p i) \<and>
     mapped c' = mapped c"

definition keeps :: "int set \<Rightarrow> int set \<Rightarrow> vmctx \<Rightarrow> vmctx \<Rightarrow> bool" where
  "keeps R S c c' \<longleftrightarrow> env_same c c' \<and> map_same c c' \<and> pages_same c c' \<and>
     frames_same R (mram c) (mram c') \<and> frames_same S (act c) (act c')"

lemma keeps_refl [simp]: "keeps R S c c"
  by (simp add: keeps_def env_same_def map_same_def pages_same_def frames_same_def)

lemma keeps_trans:
  assumes "keeps R S c c'" and "keeps R S c' c''"
  shows "keeps R S c c''"
  using assms by (auto simp: keeps_def env_same_def map_same_def pages_same_def frames_same_def)

lemma keeps_mono: "keeps R S c c' \<Longrightarrow> R' \<subseteq> R \<Longrightarrow> S' \<subseteq> S \<Longrightarrow> keeps R' S' c c'"
  by (auto simp: keeps_def frames_same_def)

lemma keeps_vmem: "keeps R S c c' \<Longrightarrow> vmem c' = vmem c"
  by (auto simp: keeps_def pages_same_def vmem_def fun_eq_iff)

lemma mapped_iff: "mapped c p \<longleftrightarrow> resident c p \<or> swapped c p"
  by (auto simp: resident_def swapped_def)

lemma resident_not_swapped: "resident c p \<Longrightarrow> \<not> swapped c p"
  by (simp add: resident_def swapped_def)

lemma vmem_dom: "vmem c a \<noteq> None \<longleftrightarrow> mapped c (a div 256)"
  by (simp add: vmem_def page_byte_def mapped_iff)

lemmas page_state_defs = mapped_def resident_def swapped_def fpn_of_def swp_of_def

lemma paging_okD:
  assumes "paging_ok R S c"
  shows "active_ok c" "dev_ok (mram c) 8192" "dev_ok (act c) 2097152"
    "pool_ok (nframes (mram c)) (free_fp_list (mram c)) {p. resident c p} (fpn_of c) R"
    "pool_ok (nframes (act c)) (free_fp_list (act c)) {p. swapped c p} (swp_of c) S"
    "\<And>p. swapped c p \<Longrightarrow> PAGING_PTE_SWPTYP (pgd (mm c) p) = int (active_mswp c)"
    "distinct (fifo_pgn (mm c))" "set (fifo_pgn (mm c)) = {p. resident c p}"
  using assms by (auto simp: paging_ok_def)

lemma resident_frame_in: "paging_ok R S c \<Longrightarrow> resident c p \<Longrightarrow> frame_in (mram c) (fpn_of c p)"
  using pool_ok_range(2) paging_okD(4) by (fastforce simp: frame_in_def)

lemma swapped_frame_in: "paging_ok R S c \<Longrightarrow> swapped c p \<Longrightarrow> frame_in (act c) (swp_of c p)"
  using pool_ok_range(2) paging_okD(5) by (fastforce simp: frame_in_def)

lemma env_same_nframes:
  assumes "env_same c c'"
  shows "nframes (mram c') = nframes (mram c)" and "nframes (act c') = nframes (act c)"
  using assms unfolding env_same_def nframes_def by metis+

subsection \<open>Evicting a page\<close>

text \<open>
  The state after an eviction, described field by field: page \<open>v\<close> has gone from its RAM frame to the
  swap frame \<open>g\<close>, which headed the free list of the active swap device.
\<close>

definition evicted :: "vmctx \<Rightarrow> int \<Rightarrow> int \<Rightarrow> vmctx \<Rightarrow> bool" where
  "evicted c v g c' \<longleftrightarrow> env_same c c' \<and> map_same c c' \<and>
     pgd (mm c') = (pgd (mm c))(v := pte_set_swap (pgd (mm c) v) (int (active_mswp c)) g) \<and>
     fifo_pgn (mm c') = butlast (fifo_pgn (mm c)) \<and>
     storage (mram c') = storage (mram c) \<and> free_fp_list (mram c') = free_fp_list (mram c) \<and>
     free_fp_list (act c) = g # free_fp_list (act c') \<and>
     storage (act c') = overlay (storage (mram c)) (fpn_of c v) (storage (act c)) g"

lemma evicted_pages:
  assumes "evicted c v g c'" and "resident c v"
  shows "resident c' p \<longleftrightarrow> resident c p \<and> p \<noteq> v" and "swapped c' p \<longleftrightarrow> swapped c p \<or> p = v"
    and "p \<noteq> v \<Longrightarrow> fpn_of c' p = fpn_of c p" and "p \<noteq> v \<Longrightarrow> swp_of c' p = swp_of c p"
    and "swp_of c' v = g mod 2097152"
  using assms by (auto simp: evicted_def page_state_defs)

lemma evicted_frame:
  assumes inv: "paging_ok R S c" and ev: "evicted c v g c'"
    and fifo: "fifo_pgn (mm c) \<noteq> []" and v: "v = last (fifo_pgn (mm c))"
  shows "resident c v" "g \<notin> S" "0 \<le> g" "g < 2097152"
    "pool_ok (nframes (act c)) (free_fp_list (act c')) {p. swapped c p} (swp_of c) (insert g S)"
proof -
  note D = paging_okD [OF inv]
  have fl: "free_fp_list (act c) = g # free_fp_list (act c')"
    using ev by (simp add: evicted_def)
  show "resident c v"
    using fifo v D(8) last_in_set by blast
  show "pool_ok (nframes (act c)) (free_fp_list (act c')) {p. swapped c p} (swp_of c) (insert g S)" "g \<notin> S"
    using pool_ok_take [OF D(5) [unfolded fl]] by simp_all
  show "0 \<le> g" "g < 2097152"
    using pool_ok_range(1) [OF D(5), of g] fl D(3) by (auto simp: dev_ok_def)
qed

lemma evicted_paging:
  assumes inv: "paging_ok R S c" and ev: "evicted c v g c'"
    and fifo: "fifo_pgn (mm c) \<noteq> []" and v: "v = last (fifo_pgn (mm c))"
  shows "paging_ok (insert (fpn_of c v) R) S c'" and "fpn_of c v \<notin> R"
proof -
  note D = paging_okD [OF inv] and G = evicted_frame [OF assms]
  note P = evicted_pages [OF ev G(1)]
  have env: "env_same c c'" and ram: "free_fp_list (mram c') = free_fp_list (mram c)"
    using ev by (simp_all add: evicted_def)
  have nf: "nframes (mram c') = nframes (mram c)" "nframes (act c') = nframes (act c)"
    using env by (rule env_same_nframes)+
  show fR: "fpn_of c v \<notin> R"
    using pool_ok_release(2) [OF D(4)] G(1) by simp
  have "pool_ok (nframes (mram c)) (free_fp_list (mram c)) ({p. resident c p} - {v}) (fpn_of c)
      (insert (fpn_of c v) R)"
    using pool_ok_release(1) [OF D(4)] G(1) by simp
  moreover have "{p. resident c p} - {v} = {p. resident c' p}"
    using P(1) by auto
  ultimately have ram_pool: "pool_ok (nframes (mram c')) (free_fp_list (mram c')) {p. resident c' p}
      (fpn_of c') (insert (fpn_of c v) R)"
    using P(1,3) nf ram pool_ok_cong [of "{p. resident c' p}" "fpn_of c" "fpn_of c'"] by simp
  have nsw: "\<not> swapped c v"
    using G(1) by (rule resident_not_swapped)
  have "swp_of c' q = swp_of c q" if "swapped c q" for q
    using P(4) [of q] that nsw by metis
  then have "pool_ok (nframes (act c')) (free_fp_list (act c')) (insert v {p. swapped c p}) (swp_of c') S"
    unfolding nf by (intro pool_ok_acquire [OF G(5,2)]) (use P(5) G(3,4) nsw in simp_all)
  moreover have "insert v {p. swapped c p} = {p. swapped c' p}"
    using P(2) by auto
  ultimately have swp_pool: "pool_ok (nframes (act c')) (free_fp_list (act c')) {p. swapped c' p}
      (swp_of c') S"
    by simp
  have fifo': "distinct (fifo_pgn (mm c'))" "set (fifo_pgn (mm c')) = {p. resident c' p}"
    using distinct_snoc_last(1,2) [OF D(7) fifo] D(8) ev P(1) v by (auto simp: evicted_def)
  have stype: "PAGING_PTE_SWPTYP (pgd (mm c') p) = int (active_mswp c')" if "swapped c' p" for p
    using that D(1) D(6) [of p] P(2) ev
    by (cases "p = v") (auto simp: evicted_def env_same_def active_ok_def)
  show "paging_ok (insert (fpn_of c v) R) S c'"
    unfolding paging_ok_def
    using D(1-3) env nf ram_pool swp_pool fifo' stype
    by (auto simp: env_same_def active_ok_def dev_ok_def)
qed

lemma evicted_keeps:
  assumes inv: "paging_ok R S c" and ev: "evicted c v g c'"
    and fifo: "fifo_pgn (mm c) \<noteq> []" and v: "v = last (fifo_pgn (mm c))"
  shows "keeps R S c c'"
proof -
  note G = evicted_frame [OF assms]
  note P = evicted_pages [OF ev G(1)]
  have env: "env_same c c'" and mp: "map_same c c'" and fl: "free_fp_list (act c) = g # free_fp_list (act c')"
    and ram: "storage (mram c') = storage (mram c)"
    and swp: "storage (act c') = overlay (storage (mram c)) (fpn_of c v) (storage (act c)) g"
    using ev by (simp_all add: evicted_def)
  have byte: "page_byte c' p i = page_byte c p i" if i: "0 \<le> i" "i < 256" for p i
  proof (cases "p = v")
    case True
    then show ?thesis
      using P G(3,4) i G(1) by (simp add: page_byte_def swp overlay_frame mod_pos_pos_trivial)
  next
    case False
    then have "swapped c p \<Longrightarrow> swp_of c p \<noteq> g"
      using paging_okD(5) [OF inv] fl by (auto simp: pool_ok_def)
    then show ?thesis
      using False P i by (auto simp: page_byte_def ram swp overlay_frame)
  qed
  have "mapped c' = mapped c"
    using P(1,2) G(1) by (auto simp: fun_eq_iff mapped_iff)
  moreover have "frames_same S (act c) (act c')"
    using G(2) by (auto simp: frames_same_def swp overlay_frame)
  ultimately show ?thesis
    using env mp byte by (simp add: keeps_def pages_same_def frames_same_def ram)
qed

lemmas evicted_ok = evicted_paging evicted_keeps

lemma victim_loop_eq: "xs \<noteq> [] \<Longrightarrow> victim_loop xs = (last xs, butlast xs)"
  by (induction xs rule: victim_loop.induct) (auto simp: split_beta)

lemma find_victim_page_eq:
  "find_victim_page m =
     (if fifo_pgn m = [] then (- 1, None, m)
      else (0, Some (last (fifo_pgn m)), m\<lparr>fifo_pgn := butlast (fifo_pgn m)\<rparr>))"
  by (simp add: find_victim_page_def victim_loop_eq)

lemma active_ok_simps:
  assumes "active_ok c"
  shows "swp_dev c (int (active_mswp c)) = Inr (act c)"
    and "mswp (set_swp_dev c' (int (active_mswp c)) d) = (mswp c')[active_mswp c := d]"
    and "sint (active_mswp_id c) = int (active_mswp c)"
  using assms by (simp_all add: active_ok_def swp_dev_def set_swp_dev_def)

lemma set_swp_dev_simps [simp]:
  "mm (set_swp_dev c i d) = mm c" "mram (set_swp_dev c i d) = mram c"
  "active_mswp (set_swp_dev c i d) = active_mswp c"
  "active_mswp_id (set_swp_dev c i d) = active_mswp_id c"
  "mswp (set_swp_dev c i d) = (mswp c)[nat i := d]"
  by (simp_all add: set_swp_dev_def)

lemma pgd_get_mapped: "mapped c p \<Longrightarrow> pgd_get (mm c) p = Inr (pgd (mm c) p)"
  by (simp add: pgd_get_def mapped_def)

text \<open>The queue of the process changes order, nothing else: swap was full.\<close>

lemma requeue_ok:
  assumes "paging_ok R S c" and "distinct q" and "set q = set (fifo_pgn (mm c))"
  shows "paging_ok R S (c\<lparr>mm := (mm c)\<lparr>fifo_pgn := q\<rparr>\<rparr>)" (is "paging_ok R S ?c")
    and "keeps R S c (c\<lparr>mm := (mm c)\<lparr>fifo_pgn := q\<rparr>\<rparr>)"
proof -
  have same: "mapped ?c = mapped c" "resident ?c = resident c" "swapped ?c = swapped c"
      "fpn_of ?c = fpn_of c" "swp_of ?c = swp_of c"
    by (auto simp: page_state_defs fun_eq_iff)
  show "paging_ok R S ?c"
    using assms by (simp add: paging_ok_def same active_ok_def)
  show "keeps R S c ?c"
    by (simp add: keeps_def env_same_def map_same_def pages_same_def frames_same_def page_byte_def same)
qed

lemma swap_out_run:
  assumes inv: "paging_ok R S c" and fifo: "fifo_pgn (mm c) \<noteq> []"
    and fl: "free_fp_list (act c) = g # fl"
  shows "\<exists>c'. u_swap_out_page c = Inr (0, Some (fpn_of c (last (fifo_pgn (mm c)))), c') \<and>
    evicted c (last (fifo_pgn (mm c))) g c'"
proof -
  let ?v = "last (fifo_pgn (mm c))" and ?sw1 = "(act c)\<lparr>free_fp_list := fl\<rparr>"
  note D = paging_okD [OF inv]
  have res: "resident c ?v"
    using fifo D(8) last_in_set by blast
  then have m: "mapped c ?v"
    by (simp add: mapped_iff)
  have f: "frame_in (mram c) (fpn_of c ?v)"
    using resident_frame_in [OF inv res] .
  have g: "frame_in ?sw1 g" "0 \<le> g" "g < 2097152"
    using pool_ok_range(1) [OF D(5), of g] fl D(3) by (auto simp: dev_ok_def frame_in_def nframes_def)
  have lim: "maxsz (mram c) \<le> INT_MAX" "maxsz ?sw1 \<le> INT_MAX"
    using D(2,3) by (simp_all add: dev_ok_def)
  obtain ram' sw' where cp: "u_swap_cp_page (mram c) (fpn_of c ?v) ?sw1 g = Inr (ram', sw')"
      "dev_same (mram c) ram'" "storage ram' = storage (mram c)" "dev_same ?sw1 sw'"
      "storage sw' = overlay (storage (mram c)) (fpn_of c ?v) (storage ?sw1) g"
    by (rule u_swap_cp_page_spec [OF f lim(1) g(1) lim(2)])
  have fr: "sint (word_of_int (fpn_of c ?v) :: u32) = fpn_of c ?v" "sint (word_of_int g :: u32) = g"
    using PAGING_FPN_range [of "pgd (mm c) ?v"] g by (simp_all add: fpn_of_def sint_of_int_small)
  let ?c' = "c\<lparr>mram := ram', mswp := (mswp c)[active_mswp c := sw'],
      mm := (mm c)\<lparr>fifo_pgn := butlast (fifo_pgn (mm c)),
        pgd := (pgd (mm c))(?v := pte_set_swap (pgd (mm c) ?v) (int (active_mswp c)) g)\<rparr>\<rparr>"
  have "u_swap_out_page c = Inr (0, Some (fpn_of c ?v), ?c')"
    using fifo fl m D(1) cp(1) fr
    by (simp add: u_swap_out_page_def find_victim_page_eq MEMPHY_get_freefp_def active_ok_def swp_dev_def
        set_swp_dev_def pgd_get_def pgd_set_def mapped_def sys_memmap_swp_def u_mm_swap_page_def
        fpn_of_def sint_of_int_small)
  moreover have "evicted c ?v g ?c'"
    using D(1) cp fl
    by (auto simp: evicted_def env_same_def map_same_def active_ok_def dev_same_def)
  ultimately show ?thesis by blast
qed

lemma swap_out_cases:
  assumes inv: "paging_ok R S c"
  obtains (full) c' where "u_swap_out_page c = Inr (- 1, None, c')"
      "fifo_pgn (mm c) = [] \<or> free_fp_list (act c) = []"
      "paging_ok R S c'" "keeps R S c c'" "mram c' = mram c" "mswp c' = mswp c"
      "length (fifo_pgn (mm c')) = length (fifo_pgn (mm c))"
  | (frame) f c' where "u_swap_out_page c = Inr (0, Some f, c')"
      "fifo_pgn (mm c) \<noteq> []" "free_fp_list (act c) \<noteq> []"
      "f \<notin> R" "paging_ok (insert f R) S c'" "keeps R S c c'"
      "fifo_pgn (mm c') = butlast (fifo_pgn (mm c))" "free_fp_list (mram c') = free_fp_list (mram c)"
      "free_fp_list (act c') = tl (free_fp_list (act c))"
      "\<And>p. \<not> resident c p \<Longrightarrow> pgd (mm c') p = pgd (mm c) p"
proof -
  note D = paging_okD [OF inv]
  consider (a) "fifo_pgn (mm c) = []" | (b) "fifo_pgn (mm c) \<noteq> []" "free_fp_list (act c) = []"
    | (c) g fl where "fifo_pgn (mm c) \<noteq> []" "free_fp_list (act c) = g # fl"
    by (cases "free_fp_list (act c)") auto
  then show ?thesis
  proof cases
    case a
    then have "u_swap_out_page c = Inr (- 1, None, c)"
      by (simp add: u_swap_out_page_def find_victim_page_eq)
    with a inv show ?thesis by (intro full) simp_all
  next
    case b
    let ?q = "last (fifo_pgn (mm c)) # butlast (fifo_pgn (mm c))"
    let ?c' = "c\<lparr>mm := (mm c)\<lparr>fifo_pgn := ?q\<rparr>\<rparr>"
    have "u_swap_out_page c = Inr (- 1, None, ?c')"
      using b D(1)
      by (simp add: u_swap_out_page_def find_victim_page_eq MEMPHY_get_freefp_def active_ok_def swp_dev_def
          set_swp_dev_def enlist_pgn_node_def)
    moreover have "distinct ?q" "set ?q = set (fifo_pgn (mm c))"
      using distinct_snoc_last [OF D(7) b(1)] by auto
    ultimately show ?thesis
      using b requeue_ok [OF inv, of ?q] by (intro full [of ?c']) simp_all
  next
    case c
    obtain c' where run: "u_swap_out_page c = Inr (0, Some (fpn_of c (last (fifo_pgn (mm c)))), c')"
        and ev: "evicted c (last (fifo_pgn (mm c))) g c'"
      using swap_out_run [OF inv c] by blast
    have res: "resident c (last (fifo_pgn (mm c)))"
      using c(1) D(8) last_in_set by blast
    show ?thesis
      using evicted_ok [OF inv ev c(1) refl] ev c run res
      by (intro frame [of "fpn_of c (last (fifo_pgn (mm c)))" c']) (auto simp: evicted_def)
  qed
qed

subsection \<open>Obtaining a RAM frame\<close>

text \<open>
  Both callers try the free list first and evict a page when it is empty. \<open>avail\<close> is the number of
  frames the process can obtain this way.
\<close>

definition claim_frame :: "vmctx \<Rightarrow> (int \<times> int option \<times> vmctx) res" where
  "claim_frame c =
     (let (rc, f, ram1) = MEMPHY_get_freefp (mram c); c1 = c\<lparr>mram := ram1\<rparr> in
      if rc \<noteq> 0 then u_swap_out_page c1 else Inr (0, f, c1))"

definition avail :: "vmctx \<Rightarrow> nat" where
  "avail c = length (free_fp_list (mram c)) +
     min (length (fifo_pgn (mm c))) (length (free_fp_list (act c)))"

lemma ram_list_state:
  fixes c fl
  defines "c' \<equiv> c\<lparr>mram := (mram c)\<lparr>free_fp_list := fl\<rparr>\<rparr>"
  shows "keeps R S c c'"
    and "active_ok c \<Longrightarrow> paging_ok R S c \<Longrightarrow>
      pool_ok (nframes (mram c)) fl {p. resident c p} (fpn_of c) R' \<Longrightarrow> paging_ok R' S c'"
proof -
  have same: "mapped c' = mapped c" "resident c' = resident c" "swapped c' = swapped c"
      "fpn_of c' = fpn_of c" "swp_of c' = swp_of c"
    by (auto simp: page_state_defs fun_eq_iff c'_def)
  show "keeps R S c c'"
    by (simp add: keeps_def env_same_def map_same_def pages_same_def frames_same_def page_byte_def same)
      (simp add: c'_def)
  show "active_ok c \<Longrightarrow> paging_ok R S c \<Longrightarrow>
      pool_ok (nframes (mram c)) fl {p. resident c p} (fpn_of c) R' \<Longrightarrow> paging_ok R' S c'"
    by (simp add: paging_ok_def same) (simp add: c'_def active_ok_def dev_ok_def nframes_def)
qed

lemma claim_frame_cases:
  assumes inv: "paging_ok R S c"
  obtains (none) c' where "claim_frame c = Inr (- 1, None, c')" "avail c = 0"
      "paging_ok R S c'" "keeps R S c c'" "free_fp_list (mram c) = []"
      "fifo_pgn (mm c) = [] \<or> free_fp_list (act c) = []"
  | (frame) f c' where "claim_frame c = Inr (0, Some f, c')" "avail c = Suc (avail c')"
      "f \<notin> R" "paging_ok (insert f R) S c'" "keeps R S c c'"
      "\<And>p. \<not> resident c p \<Longrightarrow> pgd (mm c') p = pgd (mm c) p"
proof (cases "free_fp_list (mram c)")
  case Nil
  then have run: "claim_frame c = u_swap_out_page c"
    by (simp add: claim_frame_def MEMPHY_get_freefp_def)
  from inv show ?thesis
  proof (cases rule: swap_out_cases)
    case (full c')
    with Nil run show ?thesis
      by (intro none [of c']) (auto simp: avail_def)
  next
    case (frame f c')
    have "length (fifo_pgn (mm c)) \<noteq> 0" "length (free_fp_list (act c)) \<noteq> 0"
      using frame(2,3) by simp_all
    then have "Suc (avail c') = avail c"
      unfolding avail_def frame(7-9) Nil length_butlast length_tl by linarith
    with frame run show ?thesis
      by (intro that(2) [of f c']) simp_all
  qed
next
  case (Cons f fl)
  let ?c' = "c\<lparr>mram := (mram c)\<lparr>free_fp_list := fl\<rparr>\<rparr>"
  note D = paging_okD [OF inv]
  have "pool_ok (nframes (mram c)) fl {p. resident c p} (fpn_of c) (insert f R)" and fR: "f \<notin> R"
    using pool_ok_take [OF D(4) [unfolded Cons]] by simp_all
  then have "paging_ok (insert f R) S ?c'"
    using ram_list_state(2) [OF D(1) inv] by blast
  moreover have "claim_frame c = Inr (0, Some f, ?c')"
    by (simp add: claim_frame_def MEMPHY_get_freefp_def Cons)
  ultimately show ?thesis
    using fR Cons ram_list_state(1) [of R S c fl] by (intro frame [of f ?c']) (simp_all add: avail_def)
qed

subsection \<open>Bringing a page back\<close>

definition loaded :: "vmctx \<Rightarrow> int \<Rightarrow> int \<Rightarrow> vmctx \<Rightarrow> bool" where
  "loaded c p f c' \<longleftrightarrow> env_same c c' \<and> map_same c c' \<and>
     pgd (mm c') = (pgd (mm c))(p := pte_set_fpn (pgd (mm c) p) f) \<and>
     fifo_pgn (mm c') = p # fifo_pgn (mm c) \<and>
     storage (act c') = storage (act c) \<and>
     free_fp_list (act c') = swp_of c p # free_fp_list (act c) \<and>
     free_fp_list (mram c') = free_fp_list (mram c) \<and>
     storage (mram c') = overlay (storage (act c)) (swp_of c p) (storage (mram c)) f"

lemma loaded_pages:
  assumes "loaded c p f c'" and "swapped c p"
  shows "swapped c' q \<longleftrightarrow> swapped c q \<and> q \<noteq> p" and "resident c' q \<longleftrightarrow> resident c q \<or> q = p"
    and "q \<noteq> p \<Longrightarrow> fpn_of c' q = fpn_of c q" and "q \<noteq> p \<Longrightarrow> swp_of c' q = swp_of c q"
    and "fpn_of c' p = f mod 8192"
  using assms by (auto simp: loaded_def page_state_defs)

lemma loaded_paging:
  assumes inv: "paging_ok (insert f R) S c" and fR: "f \<notin> R" and sw: "swapped c p"
    and ld: "loaded c p f c'"
  shows "paging_ok R S c'" and "resident c' p" and "fpn_of c' p = f"
proof -
  note D = paging_okD [OF inv]
  note P = loaded_pages [OF ld sw]
  let ?d = "swp_of c p"
  have env: "env_same c c'" and ram: "free_fp_list (mram c') = free_fp_list (mram c)"
    and swp: "free_fp_list (act c') = ?d # free_fp_list (act c)"
    using ld by (simp_all add: loaded_def)
  note nf = env_same_nframes [OF env]
  have f: "0 \<le> f" "f < 8192"
    using pool_ok_range(3) [OF D(4), of f] D(2) by (auto simp: dev_ok_def)
  show "resident c' p" "fpn_of c' p = f"
    using P(2,5) f by simp_all
  have nres: "\<not> resident c p"
    using sw resident_not_swapped by blast
  have res: "{q. resident c' q} = insert p {q. resident c q}"
    and swd: "{q. swapped c' q} = {q. swapped c q} - {p}"
    using P(1,2) by auto
  have "fpn_of c' q = fpn_of c q" if "resident c q" for q
    using P(3) [of q] that nres by metis
  then have "pool_ok (nframes (mram c)) (free_fp_list (mram c)) (insert p {q. resident c q}) (fpn_of c') R"
    by (intro pool_ok_acquire [OF D(4) fR]) (use P(5) f nres in simp_all)
  then have ram_pool: "pool_ok (nframes (mram c')) (free_fp_list (mram c')) {q. resident c' q} (fpn_of c') R"
    by (simp add: nf ram res)
  have "pool_ok (nframes (act c)) (free_fp_list (act c)) ({q. swapped c q} - {p}) (swp_of c) (insert ?d S)" "?d \<notin> S"
    using pool_ok_release [OF D(5), of p] sw by simp_all
  then have "pool_ok (nframes (act c)) (?d # free_fp_list (act c)) ({q. swapped c q} - {p}) (swp_of c) S"
    by (rule pool_ok_put)
  then have swp_pool: "pool_ok (nframes (act c')) (free_fp_list (act c')) {q. swapped c' q} (swp_of c') S"
    unfolding nf swp swd using P(4) pool_ok_cong [of "{q. swapped c q} - {p}" "swp_of c" "swp_of c'"] by simp
  have fifo: "distinct (fifo_pgn (mm c'))" "set (fifo_pgn (mm c')) = {q. resident c' q}"
    using D(7,8) ld nres res by (simp_all add: loaded_def)
  have stype: "PAGING_PTE_SWPTYP (pgd (mm c') q) = int (active_mswp c')" if "swapped c' q" for q
    using that D(6) [of q] P(1) [of q] ld by (auto simp: loaded_def env_same_def)
  show "paging_ok R S c'"
    unfolding paging_ok_def
    using D(1-3) env nf ram_pool swp_pool fifo stype
    by (auto simp: env_same_def active_ok_def dev_ok_def)
qed

lemma loaded_keeps:
  assumes inv: "paging_ok (insert f R) S c" and fR: "f \<notin> R" and sw: "swapped c p"
    and ld: "loaded c p f c'"
  shows "keeps R S c c'"
proof -
  note D = paging_okD [OF inv] and P = loaded_pages [OF ld sw]
  have env: "env_same c c'" and mp: "map_same c c'"
    and ram: "storage (mram c') = overlay (storage (act c)) (swp_of c p) (storage (mram c)) f"
    and swp: "storage (act c') = storage (act c)"
    using ld by (simp_all add: loaded_def)
  have nres: "\<not> resident c p"
    using sw resident_not_swapped by blast
  have f: "fpn_of c' p = f"
    by (rule loaded_paging(3) [OF assms])
  have byte: "page_byte c' q i = page_byte c q i" if i: "0 \<le> i" "i < 256" for q i
  proof (cases "q = p")
    case True
    then show ?thesis
      using P f i sw nres by (simp add: page_byte_def ram overlay_frame)
  next
    case False
    then have "resident c q \<Longrightarrow> fpn_of c q \<noteq> f"
      using D(4) by (auto simp: pool_ok_def)
    then show ?thesis
      using False P i by (auto simp: page_byte_def ram swp overlay_frame)
  qed
  have "mapped c' = mapped c"
    using P(1,2) sw by (auto simp: fun_eq_iff mapped_iff)
  moreover have "frames_same R (mram c) (mram c')"
    using fR by (auto simp: frames_same_def ram overlay_frame)
  ultimately show "keeps R S c c'"
    using env mp byte by (simp add: keeps_def pages_same_def frames_same_def swp)
qed

lemmas loaded_ok = loaded_paging(1) loaded_keeps loaded_paging(2,3)

text \<open>The swap-in half of \<open>pg_getpage\<close>, from the state in which frame \<open>f\<close> has been obtained.\<close>

lemma swap_in_run:
  assumes inv: "paging_ok (insert f R) S c" and sw: "swapped c p"
  shows "\<exists>sw' ram' m c'.
    u_swap_cp_page (act c) (swp_of c p) (mram c) f = Inr (sw', ram') \<and>
    pgd_set (mm c) p (pte_set_fpn (pgd (mm c) p) f) = Inr m \<and>
    c' = (c\<lparr>mram := ram', mswp := (mswp c)[active_mswp c := MEMPHY_put_freefp sw' (swp_of c p)],
            mm := m\<lparr>fifo_pgn := p # fifo_pgn m\<rparr>\<rparr>) \<and>
    loaded c p f c'"
proof -
  note D = paging_okD [OF inv]
  have f: "frame_in (mram c) f"
    using pool_ok_range(3) [OF D(4), of f] by (simp add: frame_in_def)
  have lim: "maxsz (mram c) \<le> INT_MAX" "maxsz (act c) \<le> INT_MAX"
    using D(2,3) by (simp_all add: dev_ok_def)
  obtain sw' ram' where cp: "u_swap_cp_page (act c) (swp_of c p) (mram c) f = Inr (sw', ram')"
      "dev_same (act c) sw'" "storage sw' = storage (act c)" "dev_same (mram c) ram'"
      "storage ram' = overlay (storage (act c)) (swp_of c p) (storage (mram c)) f"
    by (rule u_swap_cp_page_spec [OF swapped_frame_in [OF inv sw] lim(2) f lim(1)])
  let ?m = "(mm c)\<lparr>pgd := (pgd (mm c))(p := pte_set_fpn (pgd (mm c) p) f)\<rparr>"
  have "pgd_set (mm c) p (pte_set_fpn (pgd (mm c) p) f) = Inr ?m"
    using sw by (simp add: pgd_set_def swapped_def mapped_def)
  moreover have "loaded c p f (c\<lparr>mram := ram',
      mswp := (mswp c)[active_mswp c := MEMPHY_put_freefp sw' (swp_of c p)],
      mm := ?m\<lparr>fifo_pgn := p # fifo_pgn ?m\<rparr>\<rparr>)"
    using cp D(1) by (auto simp: loaded_def env_same_def map_same_def active_ok_def dev_same_def)
  ultimately show ?thesis
    using cp(1) by blast
qed

definition can_fault :: "vmctx \<Rightarrow> int \<Rightarrow> bool" where
  "can_fault c p \<longleftrightarrow> mapped c p \<and> (resident c p \<or> 0 < avail c)"

text \<open>A page on the swap device is read into a frame, when one can be claimed.\<close>

text \<open>With a frame at hand the page is copied in, mapped and put at the head of the queue.\<close>

lemma pg_getpage_loads:
  assumes inv: "paging_ok R S c" and sw: "swapped c p" and claim: "claim_frame c = Inr (0, Some f, c1)"
    and f: "f \<notin> R" and inv1: "paging_ok (insert f R) S c1" and sw1: "swapped c1 p"
    and pte: "pgd (mm c1) p = pgd (mm c) p" and ac: "active_mswp c1 = active_mswp c"
  obtains c' where "loaded c1 p f c'" "pg_getpage c p = Inr (0, Some (fpn_of c' p), c')"
proof -
  have m: "mapped c p" and s: "PAGING_PAGE_SWAPPED (pgd (mm c) p)"
    using sw by (simp_all add: swapped_def)
  then have idx: "\<not> (p < 0 \<or> PAGING_MAX_PGN \<le> p)" "PAGING_PAGE_PRESENT (pgd (mm c) p)"
    by (auto simp: mapped_def)
  have so: "swp_of c1 p = PAGING_PTE_SWP (pgd (mm c) p)"
    by (simp add: swp_of_def pte)
  obtain sw' ram' m c' where
      run: "u_swap_cp_page (act c1) (swp_of c1 p) (mram c1) f = Inr (sw', ram')"
        "pgd_set (mm c1) p (pte_set_fpn (pgd (mm c1) p) f) = Inr m"
      and c': "c' = (c1\<lparr>mram := ram', mswp := (mswp c1)[active_mswp c1 := MEMPHY_put_freefp sw' (swp_of c1 p)],
        mm := m\<lparr>fifo_pgn := p # fifo_pgn m\<rparr>\<rparr>)" and ld: "loaded c1 p f c'"
    using swap_in_run [OF inv1 sw1] by blast
  have gets: "pgd_get (mm c) p = Inr (pgd (mm c) p)" "pgd_get (mm c1) p = Inr (pgd (mm c1) p)" "pgd_get (mm c') p = Inr (pgd (mm c') p)"
    using \<open>mapped c p\<close> sw1 loaded_paging(2) [OF inv1 f sw1 ld] by (simp_all add: pgd_get_mapped swapped_def resident_def)
  have devs: "swp_dev c (int (active_mswp c)) = Inr (act c)" "swp_dev c1 (int (active_mswp c1)) = Inr (act c1)"
    using paging_okD(1) [OF inv] paging_okD(1) [OF inv1] by (simp_all add: active_ok_simps)
  have "pg_getpage c p = Inr (0, Some (fpn_of c' p), c')"
    using idx gets s paging_okD(6) [OF inv sw] devs claim run
    by (simp add: pg_getpage_def claim_frame_def Let_def split_beta so ac c' enlist_pgn_node_def set_swp_dev_def fpn_of_def)
  with ld show ?thesis
    by (rule that)
qed

lemma pg_getpage_swapped:
  assumes inv: "paging_ok R S c" and sw: "swapped c p"
  obtains (fail) c' where "pg_getpage c p = Inr (- 1, None, c')" "\<not> can_fault c p"
      "paging_ok R S c'" "keeps R S c c'"
  | (page) c' where "pg_getpage c p = Inr (0, Some (fpn_of c' p), c')" "can_fault c p"
      "paging_ok R S c'" "keeps R S c c'" "resident c' p"
proof -
  have m: "mapped c p"
    using sw by (simp add: swapped_def)
  then have idx: "\<not> (p < 0 \<or> PAGING_MAX_PGN \<le> p)" "PAGING_PAGE_PRESENT (pgd (mm c) p)"
    by (auto simp: mapped_def)
  note get = pgd_get_mapped [OF m]
  have s: "PAGING_PAGE_SWAPPED (pgd (mm c) p)"
    using sw by (simp add: swapped_def)
  have nres: "\<not> resident c p"
    using sw resident_not_swapped by blast
  have tp: "PAGING_PTE_SWPTYP (pgd (mm c) p) = int (active_mswp c)"
    using paging_okD(6) [OF inv sw] .
  have dev: "swp_dev c (int (active_mswp c)) = Inr (act c)"
    using paging_okD(1) [OF inv] by (rule active_ok_simps)
  from inv show ?thesis
  proof (cases rule: claim_frame_cases)
    case (none c')
    have "pg_getpage c p = Inr (- 1, None, c')"
      using idx get s tp dev none(1) by (simp add: pg_getpage_def claim_frame_def Let_def split_beta)
    with none nres show ?thesis
      by (intro fail [of c']) (simp_all add: can_fault_def)
  next
    case (frame f c1)
    have pte: "pgd (mm c1) p = pgd (mm c) p"
      using frame(6) nres by blast
    have ac: "active_mswp c1 = active_mswp c"
      using frame(5) by (simp add: keeps_def env_same_def)
    have sw1: "swapped c1 p"
      using sw pte by (simp add: swapped_def mapped_def)
    obtain c' where ld: "loaded c1 p f c'" and run: "pg_getpage c p = Inr (0, Some (fpn_of c' p), c')"
      by (rule pg_getpage_loads [OF inv sw frame(1,3,4) sw1 pte ac])
    note L = loaded_ok [OF frame(4,3) sw1 ld]
    from run show ?thesis
      using L frame(2) m keeps_trans [OF frame(5) L(2)]
      by (intro page [of c']) (simp_all add: can_fault_def)
  qed
qed

lemma pg_getpage_spec:
  assumes inv: "paging_ok R S c"
  obtains (fail) c' where "pg_getpage c p = Inr (- 1, None, c')" "\<not> can_fault c p"
      "paging_ok R S c'" "keeps R S c c'"
  | (page) c' where "pg_getpage c p = Inr (0, Some (fpn_of c' p), c')" "can_fault c p"
      "paging_ok R S c'" "keeps R S c c'" "resident c' p"
proof (cases "mapped c p")
  case False
  then have "pg_getpage c p = Inr (- 1, None, c)"
    by (auto simp: pg_getpage_def mapped_def pgd_get_def)
  with False inv show ?thesis
    by (intro fail [of c]) (simp_all add: can_fault_def)
next
  case m: True
  then have idx: "\<not> (p < 0 \<or> PAGING_MAX_PGN \<le> p)" "PAGING_PAGE_PRESENT (pgd (mm c) p)"
    by (auto simp: mapped_def)
  note get = pgd_get_mapped [OF m]
  show ?thesis
  proof (cases "swapped c p")
    case False
    then have res: "resident c p" and ns: "\<not> PAGING_PAGE_SWAPPED (pgd (mm c) p)"
      using m by (auto simp: resident_def swapped_def)
    have "pg_getpage c p = Inr (0, Some (fpn_of c p), c)"
      using idx get ns by (simp add: pg_getpage_def fpn_of_def)
    with res m inv show ?thesis
      by (intro page [of c]) (simp_all add: can_fault_def)
  next
    case True
    from inv True show ?thesis
      by (cases rule: pg_getpage_swapped) (blast intro: fail page)+
  qed
qed

subsection \<open>Obtaining several frames\<close>

lemma put_back_ok:
  assumes "paging_ok (R \<union> set fps) S c" and "distinct fps" and "set fps \<inter> R = {}"
  shows "paging_ok R S (put_back fps c) \<and> keeps R S c (put_back fps c)"
  using assms
proof (induction fps arbitrary: c)
  case (Cons f fps)
  let ?c = "c\<lparr>mram := (mram c)\<lparr>free_fp_list := f # free_fp_list (mram c)\<rparr>\<rparr>"
  have inv: "paging_ok (insert f (R \<union> set fps)) S c"
    using Cons.prems(1) by simp
  note D = paging_okD [OF inv]
  have "pool_ok (nframes (mram c)) (f # free_fp_list (mram c)) {p. resident c p} (fpn_of c) (R \<union> set fps)"
    using D(4) Cons.prems(2,3) by (intro pool_ok_put) auto
  then have "paging_ok (R \<union> set fps) S ?c"
    using ram_list_state(2) [OF D(1) inv] by blast
  then have "paging_ok R S (put_back fps ?c) \<and> keeps R S ?c (put_back fps ?c)"
    using Cons.IH Cons.prems(2,3) by simp
  then show ?case
    using keeps_trans [OF ram_list_state(1) [of R S c "f # free_fp_list (mram c)"]]
    by (simp add: MEMPHY_put_freefp_def)
qed simp

lemma alloc_pages_loop_step:
  "alloc_pages_loop pgit req fps c =
     (if pgit < req then
        rbind (claim_frame c) (\<lambda>(rc, f, c').
        if rc = 0 then rbind (out f) (\<lambda>fpn. alloc_pages_loop (pgit + 1) req (fpn # fps) c')
        else Inr (- 3000, [], put_back fps c'))
      else Inr (0, fps, c))"
  by (subst alloc_pages_loop.simps) (simp add: claim_frame_def Let_def split_beta)

lemma alloc_pages_loop_spec:
  assumes "paging_ok (R \<union> set fps) S c" and "distinct fps" and "set fps \<inter> R = {}" and "n = nat (req - pgit)"
  shows "if n \<le> avail c then
      \<exists>fps' c'. alloc_pages_loop pgit req fps c = Inr (0, fps', c') \<and> paging_ok (R \<union> set fps') S c' \<and>
        distinct fps' \<and> set fps' \<inter> R = {} \<and> length fps' = length fps + n \<and> keeps R S c c'
    else \<exists>c'. alloc_pages_loop pgit req fps c = Inr (- 3000, [], c') \<and> paging_ok R S c' \<and> keeps R S c c'"
  using assms
proof (induction n arbitrary: pgit fps c)
  case 0
  then show ?case
    by (subst (1 2) alloc_pages_loop_step) auto
next
  case (Suc n)
  then have lt: "pgit < req" and n: "n = nat (req - (pgit + 1))"
    by auto
  from Suc.prems(1) show ?case
  proof (cases rule: claim_frame_cases)
    case (none c')
    then have "alloc_pages_loop pgit req fps c = Inr (- 3000, [], put_back fps c')"
      using lt by (subst alloc_pages_loop_step) simp
    moreover have "keeps R S c c'"
      using none(4) keeps_mono by blast
    ultimately show ?thesis
      using none(2) put_back_ok [OF none(3) Suc.prems(2,3)] keeps_trans by fastforce
  next
    case (frame f c')
    have inv': "paging_ok (R \<union> set (f # fps)) S c'" and d: "distinct (f # fps)" "set (f # fps) \<inter> R = {}"
      using frame(3,4) Suc.prems(2,3) by auto
    have kp: "keeps R S c c'"
      using frame(5) keeps_mono by blast
    have eq: "alloc_pages_loop pgit req fps c = alloc_pages_loop (pgit + 1) req (f # fps) c'"
      using lt frame(1) by (subst alloc_pages_loop_step) simp
    show ?thesis
      using Suc.IH [OF inv' d n] frame(2) kp unfolding eq
      by (auto split: if_splits intro: keeps_trans)
  qed
qed

subsection \<open>Mapping new pages\<close>

definition grows :: "int set \<Rightarrow> int set \<Rightarrow> int set \<Rightarrow> vmctx \<Rightarrow> vmctx \<Rightarrow> bool" where
  "grows P R S c c' \<longleftrightarrow> env_same c c' \<and> map_same c c' \<and>
     (\<forall>p i. p \<notin> P \<longrightarrow> 0 \<le> i \<longrightarrow> i < 256 \<longrightarrow> page_byte c' p i = page_byte c p i) \<and>
     (\<forall>p. mapped c' p \<longleftrightarrow> mapped c p \<or> p \<in> P) \<and>
     frames_same R (mram c) (mram c') \<and> frames_same S (act c) (act c')"

lemma keeps_grows: "keeps R S c c' \<Longrightarrow> grows {} R S c c'"
  by (simp add: keeps_def grows_def pages_same_def)

lemma grows_trans: "grows P R S c c' \<Longrightarrow> grows Q R S c' c'' \<Longrightarrow> grows (P \<union> Q) R S c c''"
  by (auto simp: grows_def env_same_def map_same_def frames_same_def)

lemma map_page_ok:
  assumes inv: "paging_ok (insert f R) S c" and fR: "f \<notin> R"
    and p: "\<not> mapped c p" "0 \<le> p" "p < PAGING_MAX_PGN"
  defines "c' \<equiv> c\<lparr>mm := (mm c)\<lparr>pgd := (pgd (mm c))(p := pte_set_fpn (pgd (mm c) p) f),
      fifo_pgn := p # fifo_pgn (mm c)\<rparr>\<rparr>"
  shows "paging_ok R S c'" and "grows {p} R S c c'"
proof -
  note D = paging_okD [OF inv]
  have f: "0 \<le> f" "f < 8192"
    using pool_ok_range(3) [OF D(4), of f] D(2) by (auto simp: dev_ok_def)
  have nres: "\<not> resident c p" "\<not> swapped c p"
    using p(1) by (simp_all add: mapped_iff)
  have P: "resident c' q \<longleftrightarrow> resident c q \<or> q = p" "swapped c' q \<longleftrightarrow> swapped c q"
      "q \<noteq> p \<Longrightarrow> fpn_of c' q = fpn_of c q" "q \<noteq> p \<Longrightarrow> swp_of c' q = swp_of c q"
      "fpn_of c' p = f" for q
    using p f by (auto simp: c'_def page_state_defs)
  have res: "{q. resident c' q} = insert p {q. resident c q}"
    using P(1) by auto
  have fo: "fpn_of c' q = fpn_of c q" if "resident c q" for q
    using P(3) [of q] that nres by metis
  have so: "swp_of c' q = swp_of c q" if "swapped c q" for q
    using P(4) [of q] that nres by metis
  have "pool_ok (nframes (mram c)) (free_fp_list (mram c)) (insert p {q. resident c q}) (fpn_of c') R"
    by (rule pool_ok_acquire [OF D(4) fR]) (use P(5) nres fo in simp_all)
  moreover have "pool_ok (nframes (act c)) (free_fp_list (act c)) {q. swapped c' q} (swp_of c') S"
    using D(5) so pool_ok_cong [of "{q. swapped c q}" "swp_of c'" "swp_of c"] by (simp add: P(2))
  moreover have "PAGING_PTE_SWPTYP (pgd (mm c') q) = int (active_mswp c)" if "swapped c' q" for q
    using that D(6) [of q] nres by (auto simp: P(2)) (auto simp: c'_def)
  moreover have "mram c' = mram c" "mswp c' = mswp c" "active_mswp c' = active_mswp c"
      "active_mswp_id c' = active_mswp_id c" "fifo_pgn (mm c') = p # fifo_pgn (mm c)"
    by (simp_all add: c'_def)
  ultimately show "paging_ok R S c'"
    using D nres by (simp add: paging_ok_def res active_ok_def)
  have "page_byte c' q i = page_byte c q i" if "q \<noteq> p" for q i
    using that P(1-4) [of q] by (simp add: page_byte_def) (simp add: c'_def)
  moreover have "mapped c' q \<longleftrightarrow> mapped c q \<or> q = p" for q
    using P(1,2) by (auto simp: mapped_iff)
  ultimately show "grows {p} R S c c'"
    by (simp add: grows_def) (simp add: c'_def env_same_def map_same_def frames_same_def)
qed

lemma vmap_loop_spec:
  assumes "paging_ok (R \<union> set fl) S c" and "distinct fl" and "set fl \<inter> R = {}"
    and "pgit + int (length fl) \<le> pgnum" and "0 \<le> pgn + pgit"
    and "pgn + pgit + int (length fl) \<le> PAGING_MAX_PGN"
    and "\<And>p. pgn + pgit \<le> p \<Longrightarrow> p < pgn + pgit + int (length fl) \<Longrightarrow> \<not> mapped c p"
  shows "\<exists>m'. vmap_loop fl pgit pgnum pgn (mm c) = Inr m' \<and> paging_ok R S (c\<lparr>mm := m'\<rparr>) \<and>
    grows {pgn + pgit..<pgn + pgit + int (length fl)} R S c (c\<lparr>mm := m'\<rparr>)"
  using assms
proof (induction fl arbitrary: pgit c)
  case Nil
  then show ?case
    using keeps_grows [OF keeps_refl] by simp
next
  case (Cons f fl)
  let ?p = "pgn + pgit"
  let ?c = "c\<lparr>mm := (mm c)\<lparr>pgd := (pgd (mm c))(?p := pte_set_fpn (pgd (mm c) ?p) f),
      fifo_pgn := ?p # fifo_pgn (mm c)\<rparr>\<rparr>"
  have inv: "paging_ok (insert f (R \<union> set fl)) S c"
    using Cons.prems(1) by simp
  have st: "paging_ok (R \<union> set fl) S ?c" "grows {?p} (R \<union> set fl) S c ?c"
    using map_page_ok [OF inv, of ?p] Cons.prems(2-7) by auto
  then have gr: "grows {?p} R S c ?c"
    by (auto simp: grows_def frames_same_def)
  have "\<exists>m'. vmap_loop fl (pgit + 1) pgnum pgn (mm ?c) = Inr m' \<and> paging_ok R S (?c\<lparr>mm := m'\<rparr>) \<and>
      grows {pgn + (pgit + 1)..<pgn + (pgit + 1) + int (length fl)} R S ?c (?c\<lparr>mm := m'\<rparr>)"
    using Cons.prems(2-7) gr by (intro Cons.IH [OF st(1)]) (auto simp: grows_def)
  then obtain m' where m': "vmap_loop fl (pgit + 1) pgnum pgn (mm ?c) = Inr m'"
      "paging_ok R S (c\<lparr>mm := m'\<rparr>)"
      "grows {pgn + (pgit + 1)..<pgn + (pgit + 1) + int (length fl)} R S ?c (c\<lparr>mm := m'\<rparr>)"
    by auto
  have "{?p} \<union> {pgn + (pgit + 1)..<pgn + (pgit + 1) + int (length fl)} =
      {?p..<?p + int (length (f # fl))}"
    by auto
  with grows_trans [OF gr m'(3)] have "grows {?p..<?p + int (length (f # fl))} R S c (c\<lparr>mm := m'\<rparr>)"
    by simp
  with m' show ?case
    using Cons.prems(4-6) by (simp add: pgd_get_def pgd_set_def enlist_pgn_node_def)
qed

lemma vm_map_ram_spec:
  assumes inv: "paging_ok R S c" and n: "0 \<le> n" and a: "0 \<le> a" "a mod 256 = 0" "a + n * 256 \<le> 4194304"
    and new: "\<And>p. a div 256 \<le> p \<Longrightarrow> p < a div 256 + n \<Longrightarrow> \<not> mapped c p"
    and pos: "0 < n"
  shows "if nat n \<le> avail c then
      \<exists>c'. vm_map_ram c as ae a n = Inr (0, Some \<lparr>rg_start = a, rg_end = a + n * 256\<rparr>, c') \<and>
        paging_ok R S c' \<and> grows {a div 256..<a div 256 + n} R S c c'
    else \<exists>c'. vm_map_ram c as ae a n = Inr (- 1, None, c') \<and> paging_ok R S c' \<and> keeps R S c c'"
proof -
  have alloc: "if nat n \<le> avail c then
      \<exists>fps' c'. alloc_pages_range c n = Inr (0, fps', c') \<and> paging_ok (R \<union> set fps') S c' \<and>
        distinct fps' \<and> set fps' \<inter> R = {} \<and> length fps' = nat n \<and> keeps R S c c'
    else \<exists>c'. alloc_pages_range c n = Inr (- 3000, [], c') \<and> paging_ok R S c' \<and> keeps R S c c'"
    using alloc_pages_loop_spec [of R "[]" S c "nat n" n 0] inv
    by (auto simp: alloc_pages_range_def split: if_splits)
  show ?thesis
  proof (cases "nat n \<le> avail c")
    case True
    then obtain fps c1 where c1: "alloc_pages_range c n = Inr (0, fps, c1)" "paging_ok (R \<union> set fps) S c1"
        "distinct fps" "set fps \<inter> R = {}" "length fps = nat n" "keeps R S c c1"
      using alloc by auto
    have lt: "a < 4194304"
      using a pos by simp
    have pg: "PAGING_PGN a = a div 256"
      using PAGING_PGN_22(1) [OF a(1) lt] .
    have unm: "\<not> mapped c1 p" if "a div 256 + 0 \<le> p" "p < a div 256 + 0 + int (length fps)" for p
      using that new [of p] c1(5,6) n by (simp add: keeps_def pages_same_def)
    have bd: "a div 256 + 0 + int (length fps) \<le> PAGING_MAX_PGN" "0 \<le> a div 256 + 0"
      using a n c1(5) by (simp_all add: PAGING_MAX_PGN_eq) 
    obtain m' where m': "vmap_loop fps 0 n (a div 256) (mm c1) = Inr m'"
        "paging_ok R S (c1\<lparr>mm := m'\<rparr>)"
        "grows {a div 256..<a div 256 + n} R S c1 (c1\<lparr>mm := m'\<rparr>)"
      using vmap_loop_spec [OF c1(2-4), of 0 n "a div 256"] bd unm c1(5) n by auto
    have "vm_map_ram c as ae a n = Inr (0, Some \<lparr>rg_start = a, rg_end = a + n * 256\<rparr>, c1\<lparr>mm := m'\<rparr>)"
      using c1(1) m'(1) a n pg
      by (simp add: vm_map_ram_def vmap_page_range_def PAGING_PAGESZ_def chk_int_small ul_small)
    moreover have "grows {a div 256..<a div 256 + n} R S c (c1\<lparr>mm := m'\<rparr>)"
      using grows_trans [OF keeps_grows [OF c1(6)] m'(3)] by simp
    ultimately show ?thesis
      using True m'(2) by auto
  next
    case False
    then obtain c1 where "alloc_pages_range c n = Inr (- 3000, [], c1)" "paging_ok R S c1" "keeps R S c c1"
      using alloc by auto
    with False show ?thesis
      by (simp add: vm_map_ram_def)
  qed
qed

end
