(* ===== verification/Libmem.thy ===== *)
theory Libmem
  imports Paging
begin

text \<open>
  The memory library \<open>src/libmem.c\<close> and the handler of system call 17 in \<open>src/sys_mem.c\<close>: region
  allocation and release, bounds-checked reads and writes through the page table, and the release of
  the frames of a terminated process. Each function runs under \<open>mmvm_lock\<close> in the source, so a call
  is one transition; the lock itself is not part of the state. Messages are not modelled, but the
  page table dump the library functions print is run, because it reads the page table.

  The invariant of these operations, \<open>vm_ok\<close>, is in theory \<open>Vm\<close>.
\<close>

definition SYSMEM_MAP_OP :: u32 where "SYSMEM_MAP_OP = 1"
definition SYSMEM_INC_OP :: u32 where "SYSMEM_INC_OP = 2"
definition SYSMEM_IO_READ :: u32 where "SYSMEM_IO_READ = 4"
definition SYSMEM_IO_WRITE :: u32 where "SYSMEM_IO_WRITE = 5"

definition u_sys_memmap :: "vmctx \<Rightarrow> sc_regs \<Rightarrow> (int \<times> sc_regs \<times> vmctx) res" where
  "u_sys_memmap c regs =
     (let memop = a1 regs in
      if memop = SYSMEM_MAP_OP then Inr (0, regs, c)
      else if memop = SYSMEM_INC_OP then
        rbind (inc_vma_limit c (sint (a2 regs)) (sint (a3 regs))) (\<lambda>(_, c'). Inr (0, regs, c'))
      else if memop = SYSMEM_SWP_OP then
        rbind (u_mm_swap_page c (sint (a2 regs)) (sint (a3 regs))) (\<lambda>c'. Inr (0, regs, c'))
      else if memop = SYSMEM_IO_READ then
        rbind (MEMPHY_read (mram c) (sint (a2 regs))) (\<lambda>(_, v, ram').
          let val = (case v of None \<Rightarrow> 0 | Some b \<Rightarrow> b)
          in Inr (0, regs\<lparr>a3 := scast val\<rparr>, c\<lparr>mram := ram'\<rparr>))
      else if memop = SYSMEM_IO_WRITE then
        rbind (MEMPHY_write (mram c) (sint (a2 regs)) (ucast (a3 regs))) (\<lambda>(_, ram').
          Inr (0, regs, c\<lparr>mram := ram'\<rparr>))
      else Inr (0, regs, c))"

definition get_symrg_byid :: "mm_struct \<Rightarrow> int \<Rightarrow> nat option" where
  "get_symrg_byid m rgid =
     (if rgid < 0 \<or> rgid \<ge> int PAGING_MAX_SYMTBL_SZ then None else Some (nat rgid))"

definition symrg_get :: "mm_struct \<Rightarrow> nat \<Rightarrow> vm_rg_struct res" where
  "symrg_get m i = (if i < length (symrgtbl m) then Inr (symrgtbl m ! i) else Inl Out_of_bounds)"

definition symrg_set :: "mm_struct \<Rightarrow> nat \<Rightarrow> vm_rg_struct \<Rightarrow> mm_struct res" where
  "symrg_set m i r =
     (if i < length (symrgtbl m) then Inr (m\<lparr>symrgtbl := (symrgtbl m)[i := r]\<rparr>) else Inl Out_of_bounds)"

definition get_free_vmrg_area :: "vmctx \<Rightarrow> int \<Rightarrow> int \<Rightarrow> int \<times> vm_rg_struct option \<times> vmctx" where
  "get_free_vmrg_area c vmaid sz =
     (case get_vma_by_num (mm c) vmaid of
        None \<Rightarrow> (- 1, None, c)
      | Some vma \<Rightarrow>
          (case get_free_loop (vm_freerg_list vma) sz of
             None \<Rightarrow> (- 1, None, c)
           | Some (newrg, fs) \<Rightarrow>
               (0, Some newrg, c\<lparr>mm := upd_vma (mm c) vmaid (\<lambda>v. v\<lparr>vm_freerg_list := fs\<rparr>)\<rparr>)))"

text \<open>The stores both success paths of \<open>__alloc\<close> make.\<close>

definition commit_rg :: "vmctx \<Rightarrow> int \<Rightarrow> vm_rg_struct \<Rightarrow> (int \<times> int option \<times> vmctx) res" where
  "commit_rg c rgid rgnode =
     rbind (symrg_set (mm c) (nat rgid) \<lparr>rg_start = rg_start rgnode, rg_end = rg_end rgnode\<rparr>) (\<lambda>m'.
       Inr (0, Some (to_int (rg_start rgnode)), c\<lparr>mm := m'\<rparr>))"

definition u_alloc :: "vmctx \<Rightarrow> int \<Rightarrow> int \<Rightarrow> int \<Rightarrow> (int \<times> int option \<times> vmctx) res" where
  "u_alloc c vmaid rgid sz =
     (if rgid < 0 \<or> rgid \<ge> int PAGING_MAX_SYMTBL_SZ \<or> sz \<le> 0 then Inr (- 1, None, c)
      else
        let (rc, rgnode, c1) = get_free_vmrg_area c vmaid sz in
        if rc = 0 then rbind (out rgnode) (commit_rg c1 rgid)
        else
          (case get_vma_by_num (mm c1) vmaid of
             None \<Rightarrow> Inr (- 1, None, c1)
           | Some _ \<Rightarrow>
               rbind (u_sys_memmap c1
                   \<lparr>a1 = SYSMEM_INC_OP, a2 = word_of_int vmaid, a3 = word_of_int sz\<rparr>) (\<lambda>(_, _, c2).
               let (rc2, rgnode2, c3) = get_free_vmrg_area c2 vmaid sz in
               if rc2 = 0 then rbind (out rgnode2) (commit_rg c3 rgid)
               else Inr (- 1, None, c3))))"

definition u_free :: "vmctx \<Rightarrow> int \<Rightarrow> int \<Rightarrow> (int \<times> vmctx) res" where
  "u_free c vmaid rgid =
     (if rgid < 0 \<or> rgid \<ge> int PAGING_MAX_SYMTBL_SZ then Inr (- 1, c)
      else
        (case get_vma_by_num (mm c) vmaid of
           None \<Rightarrow> Inr (- 1, c)
         | Some _ \<Rightarrow>
             rbind (symrg_get (mm c) (nat rgid)) (\<lambda>rg.
             if rg_start rg \<ge> rg_end rg then Inr (- 1, c)
             else
               let rgnode = init_vm_rg (to_int (rg_start rg)) (to_int (rg_end rg)) in
               rbind (symrg_set (mm c) (nat rgid) \<lparr>rg_start = 0, rg_end = 0\<rparr>) (\<lambda>m1.
                 Inr (0, c\<lparr>mm := upd_vma m1 vmaid (\<lambda>v. snd (enlist_vm_freerg_list v rgnode))\<rparr>)))))"

definition liballoc :: "vmctx \<Rightarrow> u32 \<Rightarrow> u32 \<Rightarrow> (int \<times> vmctx) res" where
  "liballoc c sz reg_index =
     rbind (u_alloc c 0 (sint reg_index) (sint sz)) (\<lambda>(ret, addr, c1).
     if ret = - 1 then Inr (- 1, c1)
     else rbind (out addr) (\<lambda>_. rbind (print_pgtbl c1 0 (- 1)) (\<lambda>_. Inr (ret, c1))))"

definition libfree :: "vmctx \<Rightarrow> u32 \<Rightarrow> (int \<times> vmctx) res" where
  "libfree c reg_index =
     rbind (u_free c 0 (sint reg_index)) (\<lambda>(ret, c1).
     if ret = 0 then rbind (print_pgtbl c1 0 (- 1)) (\<lambda>_. Inr (ret, c1)) else Inr (ret, c1))"

subsection \<open>Access to a region\<close>

definition phyaddr_of :: "int \<Rightarrow> int \<Rightarrow> int res" where
  "phyaddr_of fpn off =
     rbind (chk_int (fpn * 2 ^ PAGING_ADDR_FPN_LOBIT)) (\<lambda>base. chk_int (base + off))"

definition pg_getval :: "vmctx \<Rightarrow> int \<Rightarrow> (int \<times> byte option \<times> vmctx) res" where
  "pg_getval c addr =
     (let pgn = PAGING_PGN addr; off = PAGING_OFFST addr in
      rbind (pg_getpage c pgn) (\<lambda>(rc, f, c1).
      if rc \<noteq> 0 then Inr (- 1, None, c1)
      else
        rbind (out f) (\<lambda>fpn.
        rbind (phyaddr_of fpn off) (\<lambda>phyaddr.
        rbind (u_sys_memmap c1 \<lparr>a1 = SYSMEM_IO_READ, a2 = word_of_int phyaddr, a3 = 0\<rparr>) (\<lambda>(_, regs, c2).
          Inr (0, Some (ucast (a3 regs)), c2))))))"

definition pg_setval :: "vmctx \<Rightarrow> int \<Rightarrow> byte \<Rightarrow> (int \<times> vmctx) res" where
  "pg_setval c addr val =
     (let pgn = PAGING_PGN addr; off = PAGING_OFFST addr in
      rbind (pg_getpage c pgn) (\<lambda>(rc, f, c1).
      if rc \<noteq> 0 then Inr (- 1, c1)
      else
        rbind (out f) (\<lambda>fpn.
        rbind (phyaddr_of fpn off) (\<lambda>phyaddr.
        rbind (u_sys_memmap c1 \<lparr>a1 = SYSMEM_IO_WRITE, a2 = word_of_int phyaddr, a3 = scast val\<rparr>) (\<lambda>(_, _, c2).
          Inr (0, c2))))))"

definition u_read :: "vmctx \<Rightarrow> int \<Rightarrow> int \<Rightarrow> int \<Rightarrow> (int \<times> byte option \<times> vmctx) res" where
  "u_read c vmaid rgid offset =
     (case (get_symrg_byid (mm c) rgid, get_vma_by_num (mm c) vmaid) of
        (Some i, Some _) \<Rightarrow>
          if offset < 0 then Inr (- 1, None, c)
          else
            rbind (symrg_get (mm c) i) (\<lambda>currg.
            if ul (rg_start currg + offset) \<ge> rg_end currg then Inr (- 1, None, c)
            else pg_getval c (to_int (ul (rg_start currg + offset))))
      | _ \<Rightarrow> Inr (- 1, None, c))"

definition u_write :: "vmctx \<Rightarrow> int \<Rightarrow> int \<Rightarrow> int \<Rightarrow> byte \<Rightarrow> (int \<times> vmctx) res" where
  "u_write c vmaid rgid offset val =
     (case (get_symrg_byid (mm c) rgid, get_vma_by_num (mm c) vmaid) of
        (Some i, Some _) \<Rightarrow>
          if offset < 0 then Inr (- 1, c)
          else
            rbind (symrg_get (mm c) i) (\<lambda>currg.
            if ul (rg_start currg + offset) \<ge> rg_end currg then Inr (- 1, c)
            else pg_setval c (to_int (ul (rg_start currg + offset))) val)
      | _ \<Rightarrow> Inr (- 1, c))"

text \<open>\<open>*destination = data\<close> sign-extends the byte; the destination is an output parameter.\<close>

definition libread :: "vmctx \<Rightarrow> u32 \<Rightarrow> u32 \<Rightarrow> (int \<times> u32 option \<times> vmctx) res" where
  "libread c source offset =
     rbind (u_read c 0 (sint source) (sint offset)) (\<lambda>(val, data, c1).
     if val = - 1 then Inr (- 1, None, c1)
     else rbind (out data) (\<lambda>b. rbind (print_pgtbl c1 0 (- 1)) (\<lambda>_. Inr (val, Some (scast b), c1))))"

definition libwrite :: "vmctx \<Rightarrow> byte \<Rightarrow> u32 \<Rightarrow> u32 \<Rightarrow> (int \<times> vmctx) res" where
  "libwrite c data destination offset =
     rbind (u_write c 0 (sint destination) (sint offset) data) (\<lambda>(val, c1).
     if val = - 1 then Inr (- 1, c1)
     else rbind (print_pgtbl c1 0 (- 1)) (\<lambda>_. Inr (val, c1)))"

function free_memph_loop :: "int \<Rightarrow> vmctx \<Rightarrow> vmctx res" where
  "free_memph_loop pagenum c =
     (if pagenum < PAGING_MAX_PGN then
        rbind (pgd_get (mm c) pagenum) (\<lambda>pte.
        if \<not> PAGING_PAGE_PRESENT pte then free_memph_loop (pagenum + 1) c
        else
          rbind
            (if PAGING_PAGE_SWAPPED pte then
               rbind (swp_dev c (PAGING_PTE_SWPTYP pte)) (\<lambda>d.
                 Inr (set_swp_dev c (PAGING_PTE_SWPTYP pte) (MEMPHY_put_freefp d (PAGING_PTE_SWP pte))))
             else Inr (c\<lparr>mram := MEMPHY_put_freefp (mram c) (PAGING_FPN pte)\<rparr>))
            (\<lambda>c1. rbind (pgd_set (mm c1) pagenum 0) (\<lambda>m. free_memph_loop (pagenum + 1) (c1\<lparr>mm := m\<rparr>))))
      else Inr c)"
  by pat_completeness auto
termination
  by (relation "measure (\<lambda>(p, _). nat (PAGING_MAX_PGN - p))") auto

declare free_memph_loop.simps [simp del]

definition free_pcb_memph :: "vmctx \<Rightarrow> vmctx res" where
  "free_pcb_memph c = free_memph_loop 0 c"

text \<open>The copy \<open>__swap_out_page\<close> makes is system call 17 with \<open>SYSMEM_SWP_OP\<close>.\<close>

lemma sys_memmap_swp_eq:
  "a1 regs = SYSMEM_SWP_OP \<Longrightarrow>
     u_sys_memmap c regs = rbind (sys_memmap_swp c regs) (\<lambda>c'. Inr (0, regs, c'))"
  by (simp add: u_sys_memmap_def sys_memmap_swp_def SYSMEM_MAP_OP_def SYSMEM_INC_OP_def SYSMEM_SWP_OP_def)

end
