(* ===== verification/Vm.thy ===== *)
theory Vm
  imports Libmem
begin

text \<open>
  The virtual memory of one process: the invariant \<open>vm_ok\<close> and what every operation of the memory
  library does to it and to the bytes the process sees. \<open>vm_ok\<close> extends the paging invariant with the
  area of the process: the mapped pages are exactly those below \<open>vm_end\<close>, and the free regions and the
  regions of the symbol table are pairwise disjoint parts of the area.
\<close>

subsection \<open>The area invariant\<close>

definition null_rg :: vm_rg_struct where
  "null_rg = \<lparr>rg_start = 0, rg_end = 0\<rparr>"

definition sym_ok :: "int \<Rightarrow> vm_rg_struct \<Rightarrow> bool" where
  "sym_ok lim r \<longleftrightarrow> r = null_rg \<or> rg_ok lim r"

definition syms_ok :: "int \<Rightarrow> int set \<Rightarrow> vm_rg_struct list \<Rightarrow> bool" where
  "syms_ok lim F ss \<longleftrightarrow> length ss = PAGING_MAX_SYMTBL_SZ \<and>
     (\<forall>i < length ss. sym_ok lim (ss ! i) \<and> rg_bytes (ss ! i) \<inter> F = {}) \<and>
     (\<forall>i < length ss. \<forall>j < length ss. i \<noteq> j \<longrightarrow> rg_bytes (ss ! i) \<inter> rg_bytes (ss ! j) = {})"

definition area_ok :: "vm_area_struct \<Rightarrow> bool" where
  "area_ok v \<longleftrightarrow> vm_id v = 0 \<and> vm_start v = 0 \<and> sbrk v = vm_end v \<and>
     0 \<le> vm_end v \<and> vm_end v \<le> 4194304 \<and> vm_end v mod 256 = 0 \<and>
     (freelist_ok (vm_end v) (vm_freerg_list v) \<or> vm_end v = 0 \<and> vm_freerg_list v = [null_rg])"

definition area0 :: "vmctx \<Rightarrow> vm_area_struct" where
  "area0 c = hd (mmap (mm c))"

abbreviation limit :: "vmctx \<Rightarrow> int" where
  "limit c \<equiv> vm_end (area0 c)"

abbreviation frees :: "vmctx \<Rightarrow> vm_rg_struct list" where
  "frees c \<equiv> vm_freerg_list (area0 c)"

abbreviation symrg :: "vmctx \<Rightarrow> nat \<Rightarrow> vm_rg_struct" where
  "symrg c i \<equiv> symrgtbl (mm c) ! i"

definition map_ok :: "vmctx \<Rightarrow> bool" where
  "map_ok c \<longleftrightarrow> mmap (mm c) = [area0 c] \<and> area_ok (area0 c) \<and>
     syms_ok (limit c) (free_bytes (frees c)) (symrgtbl (mm c)) \<and>
     (\<forall>p. mapped c p \<longleftrightarrow> 0 \<le> p \<and> p * 256 < limit c)"

definition vm_ok :: "int set \<Rightarrow> int set \<Rightarrow> vmctx \<Rightarrow> bool" where
  "vm_ok R S c \<longleftrightarrow> paging_ok R S c \<and> map_ok c"

text \<open>
  The frame condition of an operation: the devices keep their shape, the frames of the other
  processes keep their bytes, and every byte the process had keeps its value.
\<close>

definition extends :: "int set \<Rightarrow> int set \<Rightarrow> vmctx \<Rightarrow> vmctx \<Rightarrow> bool" where
  "extends R S c c' \<longleftrightarrow> env_same c c' \<and> frames_same R (mram c) (mram c') \<and>
     frames_same S (act c) (act c') \<and> vmem c \<subseteq>\<^sub>m vmem c'"

lemma extends_refl [simp]: "extends R S c c"
  by (simp add: extends_def env_same_def frames_same_def)

lemma extends_trans: "extends R S c c' \<Longrightarrow> extends R S c' c'' \<Longrightarrow> extends R S c c''"
  by (auto simp: extends_def env_same_def frames_same_def intro: map_le_trans)

lemma keeps_extends: "keeps R S c c' \<Longrightarrow> extends R S c c'"
  by (simp add: extends_def keeps_vmem) (simp add: keeps_def)

lemma grows_extends:
  assumes "grows P R S c c'" and "\<And>p. p \<in> P \<Longrightarrow> \<not> mapped c p"
  shows "extends R S c c'"
proof -
  have "vmem c' a = vmem c a" if "a \<in> dom (vmem c)" for a
  proof -
    have "a div 256 \<notin> P"
      using that assms(2) vmem_dom [of c a] by auto
    then show ?thesis
      using assms(1) by (simp add: grows_def vmem_def)
  qed
  then show ?thesis
    using assms(1) by (auto simp: extends_def grows_def map_le_def)
qed

text \<open>Areas and symbols do not matter to the pages.\<close>

lemma remap_simps [simp]:
  "mapped (c\<lparr>mm := (mm c)\<lparr>mmap := x, symrgtbl := y\<rparr>\<rparr>) = mapped c"
  "vmem (c\<lparr>mm := (mm c)\<lparr>mmap := x, symrgtbl := y\<rparr>\<rparr>) = vmem c"
  "paging_ok R S (c\<lparr>mm := (mm c)\<lparr>mmap := x, symrgtbl := y\<rparr>\<rparr>) = paging_ok R S c"
proof -
  let ?c = "c\<lparr>mm := (mm c)\<lparr>mmap := x, symrgtbl := y\<rparr>\<rparr>"
  show m: "mapped ?c = mapped c"
    by (simp add: fun_eq_iff mapped_def)
  have same: "resident ?c = resident c" "swapped ?c = swapped c" "fpn_of ?c = fpn_of c" "swp_of ?c = swp_of c"
    by (simp_all add: fun_eq_iff resident_def swapped_def fpn_of_def swp_of_def m)
  show "vmem ?c = vmem c"
    by (simp add: fun_eq_iff vmem_def page_byte_def same)
  show "paging_ok R S ?c = paging_ok R S c"
    by (simp add: paging_ok_def same active_ok_def)
qed

lemma mm_remap: "c\<lparr>mm := (mm c)\<lparr>mmap := x\<rparr>\<rparr> = c\<lparr>mm := (mm c)\<lparr>mmap := x, symrgtbl := symrgtbl (mm c)\<rparr>\<rparr>"
  "c\<lparr>mm := (mm c)\<lparr>symrgtbl := y\<rparr>\<rparr> = c\<lparr>mm := (mm c)\<lparr>mmap := mmap (mm c), symrgtbl := y\<rparr>\<rparr>"
  by simp_all

lemma extends_remap [simp]: "extends R S c (c\<lparr>mm := (mm c)\<lparr>mmap := x, symrgtbl := y\<rparr>\<rparr>)"
  by (simp add: extends_def) (simp add: env_same_def frames_same_def)

lemma map_okD:
  assumes "map_ok c"
  shows "mmap (mm c) = [area0 c]" "vm_id (area0 c) = 0" "sbrk (area0 c) = limit c" "0 \<le> limit c"
    "limit c \<le> 4194304" "limit c mod 256 = 0" "length (symrgtbl (mm c)) = 30"
    "\<And>p. mapped c p \<longleftrightarrow> 0 \<le> p \<and> p * 256 < limit c"
    "get_vma_by_num (mm c) 0 = Some (area0 c)"
    "upd_vma (mm c) 0 f = (mm c)\<lparr>mmap := [f (area0 c)]\<rparr>"
proof -
  show m: "mmap (mm c) = [area0 c]" and i: "vm_id (area0 c) = 0" and "sbrk (area0 c) = limit c" "0 \<le> limit c"
    "limit c \<le> 4194304" "limit c mod 256 = 0" "length (symrgtbl (mm c)) = 30"
    "\<And>p. mapped c p \<longleftrightarrow> 0 \<le> p \<and> p * 256 < limit c"
    using assms by (simp_all add: map_ok_def area_ok_def syms_ok_def PAGING_MAX_SYMTBL_SZ_def)
  show "get_vma_by_num (mm c) 0 = Some (area0 c)"
    unfolding get_vma_by_num_def by (subst m) (simp add: i ul_def)
  show "upd_vma (mm c) 0 f = (mm c)\<lparr>mmap := [f (area0 c)]\<rparr>"
    unfolding upd_vma_def by (subst m) (simp add: i ul_def)
qed

lemma page_below_iff:
  assumes "l mod 256 = (0 :: int)"
  shows "0 \<le> a div 256 \<and> a div 256 * 256 < l \<longleftrightarrow> 0 \<le> a \<and> a < l"
proof -
  obtain k where "l = k * 256"
    using assms by auto
  then show ?thesis
    by (simp add: pos_imp_zdiv_nonneg_iff) linarith
qed

lemma mapped_addr:
  assumes "map_ok c"
  shows "mapped c (a div 256) \<longleftrightarrow> 0 \<le> a \<and> a < limit c"
  using map_okD(8) [OF assms] page_below_iff [OF map_okD(6) [OF assms]] by simp

lemma dom_vmem: "map_ok c \<Longrightarrow> dom (vmem c) = {0..<limit c}"
  using vmem_dom [of c] mapped_addr by (auto simp: dom_def)

lemma area0_upd [simp]: "area0 (c\<lparr>mm := (mm c)\<lparr>mmap := [v], symrgtbl := y\<rparr>\<rparr>) = v"
  by (simp add: area0_def)

subsection \<open>A new process\<close>

lemma init_mm_simps:
  "pgd init_mm = (\<lambda>_. 0)" "fifo_pgn init_mm = []" "symrgtbl init_mm = replicate 30 null_rg"
  "mmap init_mm = [\<lparr>vm_id = 0, vm_start = 0, vm_end = 0, sbrk = 0, vm_freerg_list = [null_rg]\<rparr>]"
  by (simp_all add: init_mm_def Let_def init_vm_rg_def enlist_vm_rg_node_def null_rg_def ul_def to_int_def
      PAGING_MAX_SYMTBL_SZ_def)

lemma rg_bytes_null [simp]: "rg_bytes null_rg = {}"
  by (simp add: rg_bytes_def null_rg_def)

lemma init_mm_map_ok: "mm c = init_mm \<Longrightarrow> map_ok c"
  by (simp add: map_ok_def area0_def init_mm_simps area_ok_def syms_ok_def sym_ok_def mapped_def
      PAGING_MAX_SYMTBL_SZ_def)

lemma init_mm_no_pages:
  assumes "mm c = init_mm"
  shows "\<not> resident c p" and "\<not> swapped c p"
  using assms by (simp_all add: page_state_defs init_mm_simps)

subsection \<open>Growing the area\<close>

lemma map_ok_keeps:
  assumes "map_ok c" and "keeps R S c c'"
  shows "map_ok c'" and "area0 c' = area0 c" and "symrgtbl (mm c') = symrgtbl (mm c)"
proof -
  show a: "area0 c' = area0 c" and s: "symrgtbl (mm c') = symrgtbl (mm c)"
    using assms(2) by (simp_all add: keeps_def map_same_def area0_def)
  show "map_ok c'"
    using assms by (simp add: map_ok_def a s) (simp add: keeps_def map_same_def pages_same_def)
qed

lemma give_back_null: "give_back [null_rg] r = [r]" if "rg_start r = 0" "0 < rg_end r"
  using that by (cases r) (simp add: give_back_eq merge_loop_Cons null_rg_def)

text \<open>The free list of a well-formed area, with the placeholder of a new area taken as empty.\<close>

definition real_frees :: "vm_area_struct \<Rightarrow> vm_rg_struct list" where
  "real_frees v = (if vm_end v = 0 then [] else vm_freerg_list v)"

lemma freelist_ok_0: "freelist_ok 0 fs \<Longrightarrow> fs = []"
  by (cases fs) (auto simp: freelist_ok_def rg_ok_def)

lemma real_frees_ok:
  assumes "area_ok v"
  shows "freelist_ok (vm_end v) (real_frees v)" and "free_bytes (real_frees v) = free_bytes (vm_freerg_list v)"
    and "0 < sz \<Longrightarrow> get_free_loop (vm_freerg_list v) sz = get_free_loop (real_frees v) sz \<or>
      18446744073709551616 \<le> sz"
    and "rg_start r = vm_end v \<Longrightarrow> rg_start r < rg_end r \<Longrightarrow>
      give_back (vm_freerg_list v) r = give_back (real_frees v) r"
proof -
  consider (a) "vm_end v = 0" "vm_freerg_list v = [null_rg]" | (b) "vm_end v = 0" "vm_freerg_list v = []"
    | (c) "vm_end v \<noteq> 0" "freelist_ok (vm_end v) (vm_freerg_list v)"
    using assms by (cases "vm_end v = 0") (auto simp: area_ok_def dest: freelist_ok_0)
  note cs = this
  show "freelist_ok (vm_end v) (real_frees v)"
    by (cases rule: cs) (simp_all add: real_frees_def)
  show "free_bytes (real_frees v) = free_bytes (vm_freerg_list v)"
    by (cases rule: cs) (simp_all add: real_frees_def)
  show "0 < sz \<Longrightarrow> get_free_loop (vm_freerg_list v) sz = get_free_loop (real_frees v) sz \<or>
      18446744073709551616 \<le> sz"
    by (cases rule: cs) (auto simp: real_frees_def null_rg_def ul_def)
  show "rg_start r = vm_end v \<Longrightarrow> rg_start r < rg_end r \<Longrightarrow>
      give_back (vm_freerg_list v) r = give_back (real_frees v) r"
    by (cases rule: cs) (simp_all add: real_frees_def give_back_null, simp_all add: give_back_eq)
qed

lemma syms_ok_grow:
  assumes "syms_ok lim F ss" and "lim \<le> lim'" and "F' \<subseteq> F \<union> {lim..}"
  shows "syms_ok lim' F' ss"
proof -
  have "sym_ok lim' r \<and> rg_bytes r \<inter> F' = {}" if "sym_ok lim r" "rg_bytes r \<inter> F = {}" for r
    using that assms(2,3) by (fastforce simp: sym_ok_def rg_ok_def rg_bytes_def null_rg_def)
  then show ?thesis
    using assms(1) by (simp add: syms_ok_def)
qed

lemma syms_ok_upd:
  assumes "syms_ok lim F ss" and "k < PAGING_MAX_SYMTBL_SZ" and "sym_ok lim n" and "rg_bytes n \<inter> F' = {}"
    and "\<And>i. i < length ss \<Longrightarrow> i \<noteq> k \<Longrightarrow> rg_bytes (ss ! i) \<inter> rg_bytes n = {} \<and> rg_bytes (ss ! i) \<inter> F' = {}"
  shows "syms_ok lim F' (ss[k := n])"
proof -
  have k: "k < length ss"
    using assms(1,2) by (simp add: syms_ok_def)
  have "sym_ok lim (ss[k := n] ! i) \<and> rg_bytes (ss[k := n] ! i) \<inter> F' = {}" if "i < length ss" for i
    using assms that k by (cases "i = k") (simp_all add: syms_ok_def)
  moreover have "rg_bytes (ss[k := n] ! i) \<inter> rg_bytes (ss[k := n] ! j) = {}"
    if "i < length ss" "j < length ss" "i \<noteq> j" for i j
    using that assms(1) assms(5) [of i] assms(5) [of j] k
    by (cases "i = k"; cases "j = k") (auto simp: syms_ok_def)
  ultimately show ?thesis
    using assms(1) by (simp add: syms_ok_def)
qed

abbreviation page_align :: "int \<Rightarrow> int" where
  "page_align sz \<equiv> (sz + 255) div 256 * 256"

lemma page_align_props:
  assumes "0 < sz"
  shows "sz \<le> page_align sz" "0 < page_align sz" "page_align sz mod 256 = 0"
    "page_align sz div 256 = (sz + 255) div 256" "0 < (sz + 255) div 256"
  using assms by (simp_all add: pos_imp_zdiv_pos_iff)

text \<open>The area after it has grown to \<open>l'\<close>: the new bytes are free.\<close>

lemma area_grown:
  fixes c l'
  defines "new \<equiv> \<lparr>rg_start = limit c, rg_end = l'\<rparr>"
  defines "v \<equiv> (area0 c)\<lparr>vm_end := l', sbrk := l', vm_freerg_list := give_back (real_frees (area0 c)) new\<rparr>"
  assumes mok: "map_ok c" and l': "limit c < l'" "l' \<le> 4194304" "l' mod 256 = 0"
    and c1: "grows {limit c div 256..<l' div 256} R S c c1"
  shows "map_ok (c1\<lparr>mm := (mm c1)\<lparr>mmap := [v], symrgtbl := symrgtbl (mm c)\<rparr>\<rparr>)"
    and "free_bytes (vm_freerg_list v) = rg_bytes new \<union> free_bytes (frees c)"
proof -
  let ?c' = "c1\<lparr>mm := (mm c1)\<lparr>mmap := [v], symrgtbl := symrgtbl (mm c)\<rparr>\<rparr>"
  note M = map_okD [OF mok]
  have ar: "area_ok (area0 c)"
    using mok by (simp add: map_ok_def)
  have "freelist_ok l' (real_frees (area0 c))"
    using real_frees_ok(1) [OF ar] l'(1) by (auto intro: freelist_ok_mono)
  moreover have "rg_ok l' new"
    using M(4) l'(1) by (simp add: rg_ok_def new_def)
  moreover have "rg_bytes new \<inter> free_bytes (real_frees (area0 c)) = {}"
    using free_bytes_lim [OF real_frees_ok(1) [OF ar]] by (auto simp: rg_bytes_def new_def)
  ultimately have gb: "freelist_ok l' (give_back (real_frees (area0 c)) new)"
      "free_bytes (give_back (real_frees (area0 c)) new) = rg_bytes new \<union> free_bytes (frees c)"
    using flist.give real_frees_ok(2) [OF ar] by blast+
  then show "free_bytes (vm_freerg_list v) = rg_bytes new \<union> free_bytes (frees c)"
    by (simp add: v_def)
  have "area_ok v"
    using ar gb(1) l' M by (auto simp: area_ok_def v_def)
  moreover have "syms_ok l' (free_bytes (vm_freerg_list v)) (symrgtbl (mm c))"
    by (rule syms_ok_grow [of "limit c" "free_bytes (frees c)"])
      (use mok gb(2) l'(1) in \<open>auto simp: map_ok_def rg_bytes_def v_def new_def\<close>)
  moreover have "mapped ?c' p \<longleftrightarrow> 0 \<le> p \<and> p * 256 < l'" for p
    using c1 M(4,6,8) l' by (auto simp: grows_def)
  ultimately show "map_ok ?c'"
    by (simp add: map_ok_def v_def)
qed

text \<open>The addresses of the new pages fit \<open>int\<close> and overlap no other area, so only the mapping can fail.\<close>

lemma inc_vma_limit_run:
  assumes mok: "map_ok c" and sz: "0 < sz" and lim: "limit c + page_align sz \<le> 4194304"
  shows "inc_vma_limit c 0 sz =
      rbind (vm_map_ram c (limit c) (limit c + page_align sz) (limit c) ((sz + 255) div 256)) (\<lambda>(rc, rg, c1).
        if rc < 0 then Inr (- 1, c1)
        else rbind (out rg) (\<lambda>area'.
          Inr (0, c1\<lparr>mm := upd_vma (upd_vma (mm c1) 0
              (\<lambda>v. v\<lparr>vm_end := ul (vm_end v + page_align sz), sbrk := ul (sbrk v + page_align sz)\<rparr>)) 0
              (\<lambda>v. snd (enlist_vm_freerg_list v area'))\<rparr>)))"
proof -
  let ?n = "(sz + 255) div 256" and ?l = "limit c" and ?l' = "limit c + page_align sz"
  note M = map_okD [OF mok] and A = page_align_props [OF sz]
  have align: "PAGING_PAGE_ALIGNSZ sz = Inr (page_align sz)"
    using sz lim M(4) A(1) by (intro PAGING_PAGE_ALIGNSZ_eq) (simp_all add: INT_MAX_def PAGING_PAGESZ_def)
  have np: "c_div (page_align sz) PAGING_PAGESZ = ?n"
    using A by (simp add: c_div_nonneg PAGING_PAGESZ_def)
  have small: "to_int ?l = ?l" "to_int ?l' = ?l'" "ul ?l' = ?l'"
    using M(4) lim A(2) by (simp_all add: to_int_small ul_small)
  have ov: "\<not> validate_overlap_vm_area c 0 ?l ?l' < 0"
    using A(2) unfolding validate_overlap_vm_area_def by (subst M(1)) (simp add: M(2) ul_def)
  show ?thesis
    using A(2) ov unfolding inc_vma_limit_def Let_def
    by (simp add: align np get_vm_area_node_at_brk_def M(3,9) small)
qed

lemma inc_vma_limit_spec:
  assumes ok: "vm_ok R S c" and sz: "0 < sz" and lim: "limit c + page_align sz \<le> 4194304"
  shows "if nat ((sz + 255) div 256) \<le> avail c then
      \<exists>c'. inc_vma_limit c 0 sz = Inr (0, c') \<and> vm_ok R S c' \<and> extends R S c c' \<and>
        limit c' = limit c + page_align sz \<and> symrgtbl (mm c') = symrgtbl (mm c) \<and>
        frees c' = give_back (real_frees (area0 c)) \<lparr>rg_start = limit c, rg_end = limit c'\<rparr> \<and>
        free_bytes (frees c') = free_bytes (frees c) \<union> {limit c..<limit c'}
    else \<exists>c'. inc_vma_limit c 0 sz = Inr (- 1, c') \<and> vm_ok R S c' \<and> keeps R S c c'"
proof -
  let ?n = "(sz + 255) div 256" and ?l = "limit c" and ?l' = "limit c + page_align sz"
  let ?new = "\<lparr>rg_start = ?l, rg_end = ?l'\<rparr>"
  have inv: "paging_ok R S c" and mok: "map_ok c"
    using ok by (simp_all add: vm_ok_def)
  note M = map_okD [OF mok]
  note A = page_align_props [OF sz]
  have ar: "area_ok (area0 c)"
    using mok by (simp add: map_ok_def)
  have new: "\<not> mapped c p" if "?l div 256 \<le> p" "p < ?l div 256 + ?n" for p
    using that M(6,8) by auto
  note inc = inc_vma_limit_run [OF mok sz lim]
  have small: "to_int ?l = ?l" "to_int ?l' = ?l'" "ul ?l' = ?l'"
    using M(4) lim A(2) by (simp_all add: to_int_small ul_small)
  have "?n * 256 = page_align sz"
    by simp
  then have vm: "if nat ?n \<le> avail c then
      \<exists>c'. vm_map_ram c ?l ?l' ?l ?n = Inr (0, Some ?new, c') \<and> paging_ok R S c' \<and>
        grows {?l div 256..<?l div 256 + ?n} R S c c'
    else \<exists>c'. vm_map_ram c ?l ?l' ?l ?n = Inr (- 1, None, c') \<and> paging_ok R S c' \<and> keeps R S c c'"
    using vm_map_ram_spec [OF inv _ M(4,6), of ?n ?l ?l'] new A(5) lim by auto
  show ?thesis
  proof (cases "nat ?n \<le> avail c")
    case False
    then obtain c' where "vm_map_ram c ?l ?l' ?l ?n = Inr (- 1, None, c')" "paging_ok R S c'" "keeps R S c c'"
      using vm by auto
    with False inc map_ok_keeps(1) [OF mok] show ?thesis
      by (auto simp: vm_ok_def)
  next
    case True
    then obtain c1 where c1: "vm_map_ram c ?l ?l' ?l ?n = Inr (0, Some ?new, c1)" "paging_ok R S c1"
        "grows {?l div 256..<?l div 256 + ?n} R S c c1"
      using vm by auto
    have mm1: "mmap (mm c1) = [area0 c]" "symrgtbl (mm c1) = symrgtbl (mm c)"
      using c1(3) M(1) by (simp_all add: grows_def map_same_def)
    let ?v = "(area0 c)\<lparr>vm_end := ?l', sbrk := ?l', vm_freerg_list := give_back (real_frees (area0 c)) ?new\<rparr>"
    let ?c' = "c1\<lparr>mm := (mm c1)\<lparr>mmap := [?v], symrgtbl := symrgtbl (mm c)\<rparr>\<rparr>"
    have run: "inc_vma_limit c 0 sz = Inr (0, ?c')"
      using c1(1) mm1 real_frees_ok(4) [OF ar, of ?new] A(2) small M(2,3)
      by (simp add: inc upd_vma_def enlist_vm_freerg_list_eq ul_def [of 0])
    have "?l' div 256 = ?l div 256 + ?n" "?l' mod 256 = 0"
      using M(6) by simp_all
    then have gb: "map_ok ?c'" "free_bytes (vm_freerg_list ?v) = rg_bytes ?new \<union> free_bytes (frees c)"
      using area_grown [OF mok, of ?l' R S c1] A(2) lim c1(3) by (simp_all add: add.commute)
    have "extends R S c ?c'"
      using extends_trans [OF grows_extends [OF c1(3)] extends_remap] new by simp
    with gb show ?thesis
      using True run c1(2) by (auto simp: vm_ok_def rg_bytes_def)
  qed
qed

subsection \<open>Allocating a region\<close>

definition has_hole :: "vmctx \<Rightarrow> int \<Rightarrow> bool" where
  "has_hole c sz \<longleftrightarrow> (\<exists>r \<in> set (real_frees (area0 c)). sz \<le> rg_end r - rg_start r)"

lemma has_hole_iff:
  assumes "map_ok c" and "0 < sz" and "sz \<le> 2147483647"
  shows "get_free_loop (real_frees (area0 c)) sz = None \<longleftrightarrow> \<not> has_hole c sz"
proof -
  have "freelist_ok (limit c) (real_frees (area0 c))"
    using assms(1) real_frees_ok(1) by (simp add: map_ok_def)
  then show ?thesis
    using get_free_loop_None [of "limit c" "real_frees (area0 c)" sz] map_okD(5) [OF assms(1)] assms(2,3)
    by (auto simp: has_hole_def not_le)
qed

lemma get_free_vmrg_area_eq:
  assumes "map_ok c" and "0 < sz" and "sz \<le> 2147483647"
  shows "get_free_vmrg_area c 0 sz =
    (case get_free_loop (real_frees (area0 c)) sz of
       None \<Rightarrow> (- 1, None, c)
     | Some (n, fs) \<Rightarrow> (0, Some n, c\<lparr>mm := (mm c)\<lparr>mmap := [(area0 c)\<lparr>vm_freerg_list := fs\<rparr>]\<rparr>\<rparr>))"
proof -
  have "get_free_loop (frees c) sz = get_free_loop (real_frees (area0 c)) sz"
    using assms real_frees_ok(3) [of "area0 c" sz] by (auto simp: map_ok_def)
  then show ?thesis
    by (simp add: get_free_vmrg_area_def map_okD(9,10) [OF assms(1)] split: option.split)
qed

lemma commit_rg_eq:
  assumes "length (symrgtbl (mm c)) = 30" and "0 \<le> rgid" and "rgid < 30"
  shows "commit_rg c rgid n =
    Inr (0, Some (to_int (rg_start n)), c\<lparr>mm := (mm c)\<lparr>symrgtbl := (symrgtbl (mm c))[nat rgid := n]\<rparr>\<rparr>)"
  using assms by (cases n) (simp add: commit_rg_def symrg_set_def)

lemma take_region_ok:
  assumes ok: "map_ok c" and rg: "0 \<le> rgid" "rgid < 30" and sz: "0 < sz" "sz \<le> 2147483647"
    and take: "get_free_loop (real_frees (area0 c)) sz = Some (n, fs)"
  defines "c' \<equiv> c\<lparr>mm := (mm c)\<lparr>mmap := [(area0 c)\<lparr>vm_freerg_list := fs\<rparr>],
      symrgtbl := (symrgtbl (mm c))[nat rgid := n]\<rparr>\<rparr>"
  shows "map_ok c'" "rg_ok (limit c) n" "rg_end n = rg_start n + sz" "rg_bytes n \<subseteq> free_bytes (frees c)"
    "free_bytes (frees c') = free_bytes (frees c) - rg_bytes n" "limit c' = limit c"
proof -
  have ar: "area_ok (area0 c)"
    using ok by (simp add: map_ok_def)
  note F = real_frees_ok(1,2) [OF ar]
  have lim: "limit c + sz < 18446744073709551616"
    using map_okD(5) [OF ok] sz by simp
  note T = flist.take_Some [OF F(1) sz(1) lim take]
  show n: "rg_ok (limit c) n" "rg_end n = rg_start n + sz" "rg_bytes n \<subseteq> free_bytes (frees c)"
    using T F(2) by auto
  show lc: "limit c' = limit c" and fb: "free_bytes (frees c') = free_bytes (frees c) - rg_bytes n"
    using T F(2) by (auto simp: c'_def)
  let ?ss = "symrgtbl (mm c)"
  have syms: "syms_ok (limit c) (free_bytes (frees c)) ?ss"
    using ok by (simp add: map_ok_def)
  then have len: "length ?ss = 30"
    by (simp add: syms_ok_def PAGING_MAX_SYMTBL_SZ_def)
  have dis: "rg_bytes (?ss ! i) \<inter> rg_bytes n = {}" if "i < 30" for i
    using syms that n(3) len by (fastforce simp: syms_ok_def)
  have "syms_ok (limit c) (free_bytes (frees c) - rg_bytes n) (?ss[nat rgid := n])"
    by (rule syms_ok_upd [OF syms])
      (use syms n(1) dis len rg in \<open>auto simp: sym_ok_def syms_ok_def PAGING_MAX_SYMTBL_SZ_def\<close>)
  moreover have "area_ok ((area0 c)\<lparr>vm_freerg_list := fs\<rparr>)"
    using ar T by (simp add: area_ok_def)
  moreover have "mapped c' = mapped c"
    by (simp add: c'_def)
  ultimately show "map_ok c'"
    using map_okD(8) [OF ok] fb lc by (simp add: map_ok_def) (simp add: c'_def)
qed

definition fits :: "vmctx \<Rightarrow> int \<Rightarrow> bool" where
  "fits c sz \<longleftrightarrow> has_hole c sz \<or> limit c + page_align sz \<le> 4194304"

definition can_alloc :: "vmctx \<Rightarrow> int \<Rightarrow> bool" where
  "can_alloc c sz \<longleftrightarrow> has_hole c sz \<or> nat ((sz + 255) div 256) \<le> avail c"

lemma commit_ok:
  assumes ok: "vm_ok R S c" and rg: "0 \<le> rgid" "rgid < 30" and sz: "0 < sz" "sz \<le> 2147483647"
    and hole: "has_hole c sz"
  obtains n c1 c' where "get_free_vmrg_area c 0 sz = (0, Some n, c1)"
    "commit_rg c1 rgid n = Inr (0, Some (rg_start n), c')"
    "vm_ok R S c'" "extends R S c c'" "symrgtbl (mm c') = (symrgtbl (mm c))[nat rgid := n]"
    "rg_ok (limit c) n" "rg_end n = rg_start n + sz" "rg_bytes n \<subseteq> free_bytes (frees c)"
    "free_bytes (frees c') = free_bytes (frees c) - rg_bytes n" "limit c' = limit c"
proof -
  have mok: "map_ok c"
    using ok by (simp add: vm_ok_def)
  obtain n fs where take: "get_free_loop (real_frees (area0 c)) sz = Some (n, fs)"
    using has_hole_iff [OF mok sz] hole by (cases "get_free_loop (real_frees (area0 c)) sz") auto
  let ?c1 = "c\<lparr>mm := (mm c)\<lparr>mmap := [(area0 c)\<lparr>vm_freerg_list := fs\<rparr>]\<rparr>\<rparr>"
  let ?c' = "c\<lparr>mm := (mm c)\<lparr>mmap := [(area0 c)\<lparr>vm_freerg_list := fs\<rparr>],
      symrgtbl := (symrgtbl (mm c))[nat rgid := n]\<rparr>\<rparr>"
  note T = take_region_ok [OF mok rg sz take]
  have "to_int (rg_start n) = rg_start n"
    using T(2) map_okD(5) [OF mok] by (intro to_int_small) (auto simp: rg_ok_def)
  then have "commit_rg ?c1 rgid n = Inr (0, Some (rg_start n), ?c')"
    using map_okD(7) [OF mok] rg by (simp add: commit_rg_eq)
  moreover have "vm_ok R S ?c'"
    using ok T(1) by (simp add: vm_ok_def)
  moreover have "get_free_vmrg_area c 0 sz = (0, Some n, ?c1)"
    by (simp add: get_free_vmrg_area_eq [OF mok sz] take)
  ultimately show ?thesis
    using T by (intro that [of n ?c1 ?c']) simp_all
qed

lemma no_hole_run:
  assumes "map_ok c" and "0 < sz" and "sz \<le> 2147483647" and "\<not> has_hole c sz"
  shows "get_free_vmrg_area c 0 sz = (- 1, None, c)"
  using assms has_hole_iff [OF assms(1-3)] by (simp add: get_free_vmrg_area_eq)

lemma give_back_hole:
  assumes "frees c = give_back fs r" and "0 < limit c" and "sz \<le> rg_end r - rg_start r"
  shows "has_hole c sz"
  using assms merge_loop_grows [of r fs] by (auto simp: has_hole_def real_frees_def give_back_eq)

lemma sys_memmap_inc:
  assumes "0 \<le> sz" and "sz \<le> 2147483647"
  shows "u_sys_memmap c \<lparr>a1 = SYSMEM_INC_OP, a2 = word_of_int 0, a3 = word_of_int sz\<rparr> =
    rbind (inc_vma_limit c 0 sz)
      (\<lambda>(_, c'). Inr (0, \<lparr>a1 = SYSMEM_INC_OP, a2 = 0, a3 = word_of_int sz\<rparr>, c'))"
  using assms by (simp add: u_sys_memmap_def SYSMEM_INC_OP_def SYSMEM_MAP_OP_def sint_of_int_small)

text \<open>Without a hole the area is extended and searched again.\<close>

lemma u_alloc_no_hole:
  assumes mok: "map_ok c" and rg: "0 \<le> rgid" "rgid < 30" and sz: "0 < sz" "sz \<le> 2147483647" and none: "\<not> has_hole c sz"
  shows "u_alloc c 0 rgid sz = rbind (inc_vma_limit c 0 sz) (\<lambda>(_, c2).
      let (rc2, rgnode2, c3) = get_free_vmrg_area c2 0 sz in
      if rc2 = 0 then rbind (out rgnode2) (commit_rg c3 rgid) else Inr (- 1, None, c3))"
  using rg sz no_hole_run [OF mok sz none] map_okD(9) [OF mok]
  by (cases "inc_vma_limit c 0 sz")
    (auto simp: u_alloc_def PAGING_MAX_SYMTBL_SZ_def sys_memmap_inc [simplified])

lemma u_alloc_spec:
  assumes ok: "vm_ok R S c" and rg: "0 \<le> rgid" "rgid < 30" and sz: "0 < sz" "sz \<le> 2147483647"
    and fits: "fits c sz"
  obtains (alloc) n c' where "u_alloc c 0 rgid sz = Inr (0, Some (rg_start n), c')" "can_alloc c sz"
      "vm_ok R S c'" "extends R S c c'" "symrgtbl (mm c') = (symrgtbl (mm c))[nat rgid := n]"
      "rg_ok (limit c') n" "rg_end n = rg_start n + sz"
      "rg_bytes n \<subseteq> free_bytes (frees c) \<union> {limit c..<limit c'}"
      "free_bytes (frees c') = free_bytes (frees c) \<union> {limit c..<limit c'} - rg_bytes n"
      "limit c' = (if has_hole c sz then limit c else limit c + page_align sz)"
  | (fail) c' where "u_alloc c 0 rgid sz = Inr (- 1, None, c')" "\<not> can_alloc c sz"
      "vm_ok R S c'" "keeps R S c c'"
proof (cases "has_hole c sz")
  case True
  obtain n c1 c' where C: "get_free_vmrg_area c 0 sz = (0, Some n, c1)"
      "commit_rg c1 rgid n = Inr (0, Some (rg_start n), c')"
      "vm_ok R S c'" "extends R S c c'" "symrgtbl (mm c') = (symrgtbl (mm c))[nat rgid := n]"
      "rg_ok (limit c) n" "rg_end n = rg_start n + sz" "rg_bytes n \<subseteq> free_bytes (frees c)"
      "free_bytes (frees c') = free_bytes (frees c) - rg_bytes n" "limit c' = limit c"
    by (rule commit_ok [OF ok rg sz True])
  have "u_alloc c 0 rgid sz = Inr (0, Some (rg_start n), c')"
    using rg sz C(1,2) by (simp add: u_alloc_def PAGING_MAX_SYMTBL_SZ_def)
  with True C show ?thesis
    by (intro that(1) [of n c']) (simp_all add: can_alloc_def)
next
  case False
  have mok: "map_ok c"
    using ok by (simp add: vm_ok_def)
  have room: "limit c + page_align sz \<le> 4194304"
    using fits False by (simp add: fits_def)
  note A = page_align_props [OF sz(1)]
  note run = u_alloc_no_hole [OF mok rg sz False]
  show ?thesis
  proof (cases "nat ((sz + 255) div 256) \<le> avail c")
    case True
    then obtain c2 where I: "inc_vma_limit c 0 sz = Inr (0, c2)" "vm_ok R S c2" "extends R S c c2"
        "limit c2 = limit c + page_align sz" "symrgtbl (mm c2) = symrgtbl (mm c)"
        "frees c2 = give_back (real_frees (area0 c)) \<lparr>rg_start = limit c, rg_end = limit c2\<rparr>"
        and fb: "free_bytes (frees c2) = free_bytes (frees c) \<union> {limit c..<limit c2}"
      using inc_vma_limit_spec [OF ok sz(1) room] by auto
    have hole: "has_hole c2 sz"
      using A map_okD(4) [OF mok] I(4) by (intro give_back_hole [OF I(6)]) simp_all
    obtain n c3 c' where C: "get_free_vmrg_area c2 0 sz = (0, Some n, c3)"
        "commit_rg c3 rgid n = Inr (0, Some (rg_start n), c')"
        "vm_ok R S c'" "extends R S c2 c'" "symrgtbl (mm c') = (symrgtbl (mm c2))[nat rgid := n]"
        "rg_ok (limit c2) n" "rg_end n = rg_start n + sz" "rg_bytes n \<subseteq> free_bytes (frees c2)"
        "free_bytes (frees c') = free_bytes (frees c2) - rg_bytes n" "limit c' = limit c2"
      by (rule commit_ok [OF I(2) rg sz hole])
    have "u_alloc c 0 rgid sz = Inr (0, Some (rg_start n), c')"
      by (simp add: run I(1) C(1,2))
    with C I True False fb extends_trans [OF I(3) C(4)] show ?thesis
      by (intro that(1) [of n c']) (simp_all add: can_alloc_def)
  next
    case no: False
    then obtain c2 where I: "inc_vma_limit c 0 sz = Inr (- 1, c2)" "vm_ok R S c2" "keeps R S c c2"
      using inc_vma_limit_spec [OF ok sz(1) room] by auto
    then have "\<not> has_hole c2 sz" and m2: "map_ok c2"
      using False map_ok_keeps(2) [OF mok I(3)] by (simp_all add: has_hole_def vm_ok_def)
    then have "u_alloc c 0 rgid sz = Inr (- 1, None, c2)"
      using no_hole_run [OF m2 sz] by (simp add: run I(1))
    with I no False show ?thesis
      by (intro that(2) [of c2]) (simp_all add: can_alloc_def)
  qed
qed

subsection \<open>Releasing a region\<close>

lemma u_free_null:
  assumes "map_ok c" and "0 \<le> rgid" and "rgid < 30" and "symrg c (nat rgid) = null_rg"
  shows "u_free c 0 rgid = Inr (- 1, c)"
  using assms map_okD(7,9) [OF assms(1)]
  by (simp add: u_free_def PAGING_MAX_SYMTBL_SZ_def symrg_get_def null_rg_def)

lemma u_free_spec:
  assumes ok: "vm_ok R S c" and rg: "0 \<le> rgid" "rgid < 30" and r: "symrg c (nat rgid) \<noteq> null_rg"
  obtains c' where "u_free c 0 rgid = Inr (0, c')" "vm_ok R S c'" "extends R S c c'"
    "vmem c' = vmem c" "symrgtbl (mm c') = (symrgtbl (mm c))[nat rgid := null_rg]" "limit c' = limit c"
    "free_bytes (frees c') = free_bytes (frees c) \<union> rg_bytes (symrg c (nat rgid))"
    "frees c' = give_back (frees c) (symrg c (nat rgid))"
proof -
  let ?r = "symrg c (nat rgid)" and ?ss = "symrgtbl (mm c)"
  have mok: "map_ok c"
    using ok by (simp add: vm_ok_def)
  note M = map_okD [OF mok]
  have ar: "area_ok (area0 c)" and syms: "syms_ok (limit c) (free_bytes (frees c)) ?ss"
    using mok by (simp_all add: map_ok_def)
  have i: "nat rgid < length ?ss"
    using rg M(7) by simp
  have rok: "rg_ok (limit c) ?r" and dis: "rg_bytes ?r \<inter> free_bytes (frees c) = {}"
    using syms i r by (auto simp: syms_ok_def sym_ok_def)
  have pos: "0 < limit c"
    using rok by (simp add: rg_ok_def)
  then have fl: "freelist_ok (limit c) (frees c)"
    using real_frees_ok(1) [OF ar] by (simp add: real_frees_def)
  have gb: "freelist_ok (limit c) (give_back (frees c) ?r)"
      "free_bytes (give_back (frees c) ?r) = rg_bytes ?r \<union> free_bytes (frees c)"
    using flist.give [OF fl rok dis] by simp_all
  have bounds: "0 \<le> rg_start ?r" "rg_start ?r < rg_end ?r" "rg_end ?r \<le> 4194304"
    using rok M(5) by (auto simp: rg_ok_def)
  have node: "init_vm_rg (to_int (rg_start ?r)) (to_int (rg_end ?r)) = ?r"
    using bounds by (simp add: init_vm_rg_def to_int_small ul_small)
  let ?v = "(area0 c)\<lparr>vm_freerg_list := give_back (frees c) ?r\<rparr>"
  let ?c' = "c\<lparr>mm := (mm c)\<lparr>mmap := [?v], symrgtbl := ?ss[nat rgid := null_rg]\<rparr>\<rparr>"
  have "upd_vma ((mm c)\<lparr>symrgtbl := ?ss[nat rgid := null_rg]\<rparr>) 0 (\<lambda>v. snd (enlist_vm_freerg_list v ?r)) =
      (mm c)\<lparr>mmap := [?v], symrgtbl := ?ss[nat rgid := null_rg]\<rparr>"
    unfolding upd_vma_def using bounds by (simp add: M(1,2) enlist_vm_freerg_list_eq ul_def)
  then have run: "u_free c 0 rgid = Inr (0, ?c')"
    using rg i bounds M(9) node
    by (simp add: u_free_def PAGING_MAX_SYMTBL_SZ_def symrg_get_def symrg_set_def null_rg_def)
  have "area_ok ?v"
    using ar gb(1) by (simp add: area_ok_def)
  moreover have "syms_ok (limit c) (free_bytes (vm_freerg_list ?v)) (?ss[nat rgid := null_rg])"
    by (rule syms_ok_upd [OF syms])
      (use rg i syms gb(2) in \<open>auto simp: PAGING_MAX_SYMTBL_SZ_def sym_ok_def syms_ok_def Int_Un_distrib\<close>)
  ultimately have "map_ok ?c'"
    using M(8) by (simp add: map_ok_def)
  with ok have "vm_ok R S ?c'"
    by (simp add: vm_ok_def)
  with run gb(2) show ?thesis
    by (intro that [of ?c']) auto
qed

end
