(* ===== verification/Access.thy ===== *)
theory Access
  imports Vm
begin

text \<open>
  Reading and writing through the page table. A byte store that may have to fault a page in is the
  locale \<open>faulting_memory\<close>: a read returns the stored byte and leaves the contents alone, a write
  replaces one byte, and either may fail, leaving the contents alone, when no frame can be found.
  The locale is interpreted twice: for virtual addresses (\<open>pg_getval\<close>, \<open>pg_setval\<close>) and for
  region and offset (\<open>__read\<close>, \<open>__write\<close>).
\<close>

subsection \<open>The contract\<close>

primrec run_writes :: "('c \<Rightarrow> 'k \<Rightarrow> byte \<Rightarrow> (int \<times> 'c) res) \<Rightarrow> 'c \<Rightarrow> ('k \<times> byte) list \<Rightarrow> 'c option" where
  "run_writes wr c [] = Some c"
| "run_writes wr c (kb # rest) =
     (case wr c (fst kb) (snd kb) of
        Inr (rc, c') \<Rightarrow> if rc = 0 then run_writes wr c' rest else None
      | Inl _ \<Rightarrow> None)"

locale faulting_memory =
  fixes rd :: "'c \<Rightarrow> 'k \<Rightarrow> (int \<times> byte option \<times> 'c) res"
    and wr :: "'c \<Rightarrow> 'k \<Rightarrow> byte \<Rightarrow> (int \<times> 'c) res"
    and content :: "'c \<Rightarrow> 'k \<rightharpoonup> byte"
    and valid :: "'k \<Rightarrow> bool"
    and ok :: "'c \<Rightarrow> bool"
  assumes rd: "ok c \<Longrightarrow> valid k \<Longrightarrow>
      \<exists>rc v c'. rd c k = Inr (rc, v, c') \<and> ok c' \<and> content c' = content c \<and>
        (rc = 0 \<and> v = content c k \<and> v \<noteq> None \<or> rc = - 1 \<and> v = None)"
    and wr: "ok c \<Longrightarrow> valid k \<Longrightarrow>
      \<exists>rc c'. wr c k b = Inr (rc, c') \<and> ok c' \<and>
        (rc = 0 \<and> k \<in> dom (content c) \<and> content c' = (content c)(k \<mapsto> b) \<or>
         rc = - 1 \<and> content c' = content c)"
begin

lemma run_writes_content:
  assumes "ok c" and "\<forall>kb \<in> set kbs. valid (fst kb)" and "run_writes wr c kbs = Some c'"
  shows "ok c'" and "content c' = content c ++ map_of (rev kbs)"
proof -
  have "ok c' \<and> content c' = content c ++ map_of (rev kbs)"
    using assms
  proof (induction kbs arbitrary: c)
    case (Cons kb kbs)
    obtain rc c1 where c1: "wr c (fst kb) (snd kb) = Inr (rc, c1)" "ok c1"
        "rc = 0 \<and> content c1 = (content c)(fst kb \<mapsto> snd kb) \<or> rc = - 1"
      using wr [of c "fst kb" "snd kb"] Cons.prems(1,2) by auto
    with Cons.prems(3) have "rc = 0" "run_writes wr c1 kbs = Some c'"
      by (auto split: if_splits)
    with Cons.IH [OF c1(2)] Cons.prems(2) c1(3) show ?case
      by (cases kb) (simp add: map_add_assoc [symmetric])
  qed simp
  then show "ok c'" and "content c' = content c ++ map_of (rev kbs)"
    by simp_all
qed

text \<open>After a series of writes a read returns the last byte written to its place.\<close>

lemma read_after_writes:
  assumes "ok c" and "\<forall>kb \<in> set kbs. valid (fst kb)" and "run_writes wr c kbs = Some c'"
    and "valid k" and "rd c' k = Inr (0, v, c'')"
  shows "v = (case map_of (rev kbs) k of None \<Rightarrow> content c k | Some b \<Rightarrow> Some b)"
proof -
  note W = run_writes_content [OF assms(1-3)]
  then have "v = content c' k"
    using rd [OF W(1) assms(4)] assms(5) by auto
  then show ?thesis
    by (simp add: W(2) map_add_def)
qed

end

subsection \<open>Access to the RAM device\<close>

lemma phyaddr_of_eq:
  assumes "paging_ok R S c" and "resident c p" and "0 \<le> i" and "i < 256"
  shows "phyaddr_of (fpn_of c p) i = Inr (fpn_of c p * 256 + i)"
    and "0 \<le> fpn_of c p * 256 + i" and "fpn_of c p * 256 + i < maxsz (mram c)"
    and "fpn_of c p * 256 + i \<le> 2147483647"
proof -
  have f: "0 \<le> fpn_of c p" "fpn_of c p < nframes (mram c)"
    using resident_frame_in [OF assms(1,2)] by (simp_all add: frame_in_def)
  then have b: "fpn_of c p * 256 + 256 \<le> maxsz (mram c)"
    by (simp add: nframes_def)
  have m: "maxsz (mram c) \<le> 2147483647"
    using paging_okD(2) [OF assms(1)] by (simp add: dev_ok_def INT_MAX_def)
  show "0 \<le> fpn_of c p * 256 + i" "fpn_of c p * 256 + i < maxsz (mram c)"
      "fpn_of c p * 256 + i \<le> 2147483647"
    using f b m assms(3,4) by simp_all
  show "phyaddr_of (fpn_of c p) i = Inr (fpn_of c p * 256 + i)"
    using f b m assms(3,4) by (simp add: phyaddr_of_def PAGING_ADDR_FPN_LOBIT_def chk_int_small)
qed

text \<open>Changing the cells of the RAM device and nothing else of the state.\<close>

abbreviation ram_cells :: "vmctx \<Rightarrow> int \<Rightarrow> (int \<Rightarrow> byte) \<Rightarrow> vmctx" where
  "ram_cells c x s \<equiv> c\<lparr>mram := (seek (mram c) x)\<lparr>storage := s\<rparr>\<rparr>"

lemma seek_eq: "seek d x = (seek d x)\<lparr>storage := storage d\<rparr>"
  by (simp add: seek_def)

lemma ram_cells_pages [simp]:
  "mapped (ram_cells c x s) = mapped c" "resident (ram_cells c x s) = resident c"
  "swapped (ram_cells c x s) = swapped c" "fpn_of (ram_cells c x s) = fpn_of c"
  "swp_of (ram_cells c x s) = swp_of c"
  by (simp_all add: fun_eq_iff page_state_defs)

lemma ram_cells_ok: "paging_ok R S c \<Longrightarrow> paging_ok R S (ram_cells c x s)"
  by (simp add: paging_ok_def active_ok_def dev_ok_def nframes_def)

lemma ram_cells_env: "env_same c (ram_cells c x s)" "map_same c (ram_cells c x s)"
    "frames_same S (act c) (act (ram_cells c x s))"
  by (simp_all add: env_same_def map_same_def frames_same_def)

lemma ram_cells_keeps: "keeps R S c (ram_cells c x (storage (mram c)))"
  using ram_cells_env [where c = c and s = "storage (mram c)" and x = x]
  by (simp add: keeps_def pages_same_def page_byte_def frames_same_def)

text \<open>The effect of a successful write of \<open>b\<close> to the virtual address \<open>a\<close>.\<close>

definition stores :: "int set \<Rightarrow> int set \<Rightarrow> int \<Rightarrow> byte \<Rightarrow> vmctx \<Rightarrow> vmctx \<Rightarrow> bool" where
  "stores R S a b c c' \<longleftrightarrow> env_same c c' \<and> map_same c c' \<and> mapped c' = mapped c \<and>
     vmem c' = (vmem c)(a \<mapsto> b) \<and>
     frames_same R (mram c) (mram c') \<and> frames_same S (act c) (act c')"

lemma ram_cells_stores:
  assumes inv: "paging_ok R S c" and res: "resident c (a div 256)"
  defines "x \<equiv> fpn_of c (a div 256) * 256 + a mod 256"
  shows "stores R S a b c (ram_cells c x ((storage (mram c))(x := b)))" (is "stores R S a b c ?c")
proof -
  note D = paging_okD [OF inv]
  have other: "q * 256 + i = x \<longleftrightarrow> q = fpn_of c (a div 256) \<and> i = a mod 256" if "0 \<le> i" "i < 256" for q i
    using that pos_mod_bound [of 256 a] pos_mod_sign [of 256 a] unfolding x_def
    by (smt (verit) mult.commute mult_le_cancel_left_pos)
  have inj: "fpn_of c q = fpn_of c (a div 256) \<longleftrightarrow> q = a div 256" if "resident c q" for q
    using D(4) that res by (auto simp: pool_ok_def inj_on_def)
  have "vmem ?c d = ((vmem c)(a \<mapsto> b)) d" for d
  proof -
    have "d = a \<longleftrightarrow> d div 256 = a div 256 \<and> d mod 256 = a mod 256"
      by (metis div_mult_mod_eq)
    then show ?thesis
      using other [of "d mod 256"] inj [of "d div 256"] res
      by (auto simp: vmem_def page_byte_def)
  qed
  moreover have "frames_same R (mram c) (mram ?c)"
    using other D(4) res by (auto simp: frames_same_def pool_ok_def)
  ultimately show ?thesis
    using ram_cells_env by (auto simp: stores_def)
qed

subsection \<open>Virtual addresses\<close>

lemma sys_memmap_read:
  assumes "0 \<le> x" and "x < maxsz (mram c)" and "x \<le> 2147483647"
  shows "u_sys_memmap c \<lparr>a1 = SYSMEM_IO_READ, a2 = word_of_int x, a3 = 0\<rparr> =
    Inr (0, \<lparr>a1 = SYSMEM_IO_READ, a2 = word_of_int x, a3 = scast (storage (mram c) x)\<rparr>,
      ram_cells c x (storage (mram c)))"
  using assms
  by (simp add: u_sys_memmap_def SYSMEM_MAP_OP_def SYSMEM_INC_OP_def SYSMEM_SWP_OP_def SYSMEM_IO_READ_def
      sint_of_int_small MEMPHY_read_eq seek_eq [symmetric])

lemma sys_memmap_write:
  assumes "0 \<le> x" and "x < maxsz (mram c)" and "x \<le> 2147483647"
  shows "u_sys_memmap c \<lparr>a1 = SYSMEM_IO_WRITE, a2 = word_of_int x, a3 = scast (b :: byte)\<rparr> =
    Inr (0, \<lparr>a1 = SYSMEM_IO_WRITE, a2 = word_of_int x, a3 = scast b\<rparr>,
      ram_cells c x ((storage (mram c))(x := b)))"
  using assms
  by (simp add: u_sys_memmap_def SYSMEM_MAP_OP_def SYSMEM_INC_OP_def SYSMEM_SWP_OP_def SYSMEM_IO_READ_def
      SYSMEM_IO_WRITE_def sint_of_int_small MEMPHY_write_eq)

abbreviation vaddr :: "int \<Rightarrow> bool" where
  "vaddr a \<equiv> 0 \<le> a \<and> a < 4194304"

lemma pg_getval_spec:
  assumes inv: "paging_ok R S c" and a: "vaddr a"
  obtains (fail) c' where "pg_getval c a = Inr (- 1, None, c')" "\<not> can_fault c (a div 256)"
      "paging_ok R S c'" "keeps R S c c'"
  | (byte) b c' where "pg_getval c a = Inr (0, Some b, c')" "can_fault c (a div 256)" "vmem c a = Some b"
      "paging_ok R S c'" "keeps R S c c'" "resident c' (a div 256)"
proof -
  have pg: "PAGING_PGN a = a div 256"
    using a PAGING_PGN_22 by simp
  from inv show ?thesis
  proof (cases rule: pg_getpage_spec [where p = "a div 256"])
    case (fail c')
    then show ?thesis
      by (intro that(1) [of c']) (simp_all add: pg_getval_def pg)
  next
    case (page c1)
    let ?x = "fpn_of c1 (a div 256) * 256 + a mod 256"
    let ?c' = "ram_cells c1 ?x (storage (mram c1))"
    note x = phyaddr_of_eq [OF page(3,5), of "a mod 256", simplified]
    have "vmem c a = Some (storage (mram c1) ?x)"
      unfolding keeps_vmem [OF page(4), symmetric] using page(5) by (simp add: vmem_def page_byte_def)
    moreover have "pg_getval c a = Inr (0, Some (storage (mram c1) ?x), ?c')"
      using page(1) x sys_memmap_read [OF x(2-4)] by (simp add: pg_getval_def pg PAGING_OFFST_eq)
    ultimately show ?thesis
      using page ram_cells_ok [OF page(3)] keeps_trans [OF page(4) ram_cells_keeps]
      by (intro that(2) [of "storage (mram c1) ?x" ?c']) simp_all
  qed
qed

lemma keeps_stores: "keeps R S c c' \<Longrightarrow> stores R S a b c' c'' \<Longrightarrow> stores R S a b c c''"
  using keeps_vmem [of R S c c']
  by (auto simp: stores_def keeps_def env_same_def map_same_def frames_same_def pages_same_def)

lemma pg_setval_spec:
  assumes inv: "paging_ok R S c" and a: "vaddr a"
  obtains (fail) c' where "pg_setval c a b = Inr (- 1, c')" "\<not> can_fault c (a div 256)"
      "paging_ok R S c'" "keeps R S c c'"
  | (stored) c' where "pg_setval c a b = Inr (0, c')" "can_fault c (a div 256)"
      "paging_ok R S c'" "stores R S a b c c'" "resident c' (a div 256)"
proof -
  have pg: "PAGING_PGN a = a div 256"
    using a PAGING_PGN_22 by simp
  from inv show ?thesis
  proof (cases rule: pg_getpage_spec [where p = "a div 256"])
    case (fail c')
    then show ?thesis
      by (intro that(1) [of c']) (simp_all add: pg_setval_def pg)
  next
    case (page c1)
    let ?x = "fpn_of c1 (a div 256) * 256 + a mod 256"
    let ?c' = "ram_cells c1 ?x ((storage (mram c1))(?x := b))"
    note x = phyaddr_of_eq [OF page(3,5), of "a mod 256", simplified]
    have "pg_setval c a b = Inr (0, ?c')"
      using page(1) x sys_memmap_write [OF x(2-4)] by (simp add: pg_setval_def pg PAGING_OFFST_eq)
    then show ?thesis
      using page ram_cells_ok [OF page(3)] keeps_stores [OF page(4) ram_cells_stores [OF page(3,5)]]
      by (intro that(2) [of ?c']) simp_all
  qed
qed

interpretation pm: faulting_memory pg_getval pg_setval vmem vaddr "paging_ok R S" for R S
proof (unfold_locales, goal_cases)
  case (1 c a)
  then show ?case
    by (cases rule: pg_getval_spec) (auto simp: keeps_vmem)
next
  case (2 c a b)
  then show ?case
  proof (cases rule: pg_setval_spec [where b = b])
    case (stored c')
    then have "vmem c a \<noteq> None"
      unfolding vmem_dom by (simp add: can_fault_def)
    with stored show ?thesis
      by (auto simp: stores_def)
  qed (auto simp: keeps_vmem)
qed

subsection \<open>Regions\<close>

text \<open>
  The bytes of the regions of a process, addressed the way the instructions of a program do: by
  region number and offset.
\<close>

definition in_region :: "vmctx \<Rightarrow> int \<times> int \<Rightarrow> bool" where
  "in_region c k \<longleftrightarrow> 0 \<le> fst k \<and> fst k < 30 \<and> 0 \<le> snd k \<and>
     rg_start (symrg c (nat (fst k))) + snd k < rg_end (symrg c (nat (fst k)))"

definition region_addr :: "vmctx \<Rightarrow> int \<times> int \<Rightarrow> int" where
  "region_addr c k = rg_start (symrg c (nat (fst k))) + snd k"

definition region_mem :: "vmctx \<Rightarrow> int \<times> int \<Rightarrow> byte option" where
  "region_mem c k = (if in_region c k then vmem c (region_addr c k) else None)"

abbreviation offset_ok :: "int \<times> int \<Rightarrow> bool" where
  "offset_ok k \<equiv> INT_MIN \<le> snd k \<and> snd k \<le> INT_MAX"

lemma map_ok_sym:
  assumes "map_ok c" and "0 \<le> i" and "i < 30"
  shows "sym_ok (limit c) (symrg c (nat i))"
    and "0 \<le> rg_start (symrg c (nat i))" "rg_start (symrg c (nat i)) \<le> rg_end (symrg c (nat i))"
    and "rg_end (symrg c (nat i)) \<le> 4194304"
proof -
  have "nat i < length (symrgtbl (mm c))"
    using assms map_okD(7) [OF assms(1)] by simp
  then show s: "sym_ok (limit c) (symrg c (nat i))"
    using assms(1) by (simp add: map_ok_def syms_ok_def)
  show "0 \<le> rg_start (symrg c (nat i))" "rg_start (symrg c (nat i)) \<le> rg_end (symrg c (nat i))"
      "rg_end (symrg c (nat i)) \<le> 4194304"
    using s map_okD(4,5) [OF assms(1)] by (auto simp: sym_ok_def rg_ok_def null_rg_def)
qed

lemma region_addr_range:
  assumes "map_ok c" and "in_region c k"
  shows "vaddr (region_addr c k)" and "region_addr c k < limit c"
    and "region_addr c k \<in> rg_bytes (symrg c (nat (fst k)))"
proof -
  have s: "sym_ok (limit c) (symrg c (nat (fst k)))" "0 \<le> rg_start (symrg c (nat (fst k)))"
      "rg_end (symrg c (nat (fst k))) \<le> 4194304"
    using map_ok_sym [OF assms(1)] assms(2) by (simp_all add: in_region_def)
  show "region_addr c k \<in> rg_bytes (symrg c (nat (fst k)))"
    using assms(2) by (simp add: in_region_def region_addr_def rg_bytes_def)
  show "vaddr (region_addr c k)" "region_addr c k < limit c"
    using assms(2) s by (auto simp: in_region_def region_addr_def sym_ok_def rg_ok_def null_rg_def)
qed

lemma region_addr_inj:
  assumes "map_ok c" and "in_region c k" and "in_region c l" and "region_addr c k = region_addr c l"
  shows "k = l"
proof -
  let ?i = "nat (fst k)" and ?j = "nat (fst l)"
  have b: "?i < length (symrgtbl (mm c))" "?j < length (symrgtbl (mm c))"
    using assms(2,3) map_okD(7) [OF assms(1)] by (auto simp: in_region_def nat_less_iff)
  have "region_addr c k \<in> rg_bytes (symrg c ?i) \<inter> rg_bytes (symrg c ?j)"
    using region_addr_range(3) [OF assms(1,2)] region_addr_range(3) [OF assms(1,3)] assms(4) by simp
  moreover have "?i \<noteq> ?j \<Longrightarrow> rg_bytes (symrg c ?i) \<inter> rg_bytes (symrg c ?j) = {}"
    using assms(1) b by (simp add: map_ok_def syms_ok_def)
  ultimately have "?i = ?j"
    by blast
  then have f: "fst k = fst l"
    using assms(2,3) by (auto simp: in_region_def eq_nat_nat_iff)
  with assms(4) show ?thesis
    by (simp add: region_addr_def prod_eq_iff)
qed

lemma region_mem_dom:
  assumes "map_ok c"
  shows "region_mem c k \<noteq> None \<longleftrightarrow> in_region c k"
  using region_addr_range [OF assms] dom_vmem [OF assms] by (auto simp: region_mem_def dom_def set_eq_iff)

text \<open>The guards of \<open>__read\<close> and \<open>__write\<close>.\<close>

lemma region_guard:
  assumes "map_ok c" and "offset_ok k"
  shows "0 \<le> fst k \<Longrightarrow> fst k < 30 \<Longrightarrow> 0 \<le> snd k \<Longrightarrow>
      ul (rg_start (symrg c (nat (fst k))) + snd k) = rg_start (symrg c (nat (fst k))) + snd k"
    and "in_region c k \<Longrightarrow> to_int (region_addr c k) = region_addr c k"
proof -
  show "0 \<le> fst k \<Longrightarrow> fst k < 30 \<Longrightarrow> 0 \<le> snd k \<Longrightarrow>
      ul (rg_start (symrg c (nat (fst k))) + snd k) = rg_start (symrg c (nat (fst k))) + snd k"
    using map_ok_sym [OF assms(1), of "fst k"] assms(2) by (intro ul_small) (auto simp: INT_MAX_def)
  show "in_region c k \<Longrightarrow> to_int (region_addr c k) = region_addr c k"
    using region_addr_range(1) [OF assms(1), of k] by (intro to_int_small) auto
qed

lemma u_read_eq:
  assumes "map_ok c" and "offset_ok k"
  shows "u_read c 0 (fst k) (snd k) =
    (if in_region c k then pg_getval c (region_addr c k) else Inr (- 1, None, c))"
proof (cases "0 \<le> fst k \<and> fst k < 30 \<and> 0 \<le> snd k")
  case True
  then show ?thesis
    using region_guard [OF assms] map_okD(7,9) [OF assms(1)]
    by (auto simp: u_read_def get_symrg_byid_def PAGING_MAX_SYMTBL_SZ_def symrg_get_def in_region_def
        region_addr_def)
next
  case False
  then show ?thesis
    using map_okD(9) [OF assms(1)]
    by (auto simp: u_read_def get_symrg_byid_def PAGING_MAX_SYMTBL_SZ_def in_region_def)
qed

lemma u_write_eq:
  assumes "map_ok c" and "offset_ok k"
  shows "u_write c 0 (fst k) (snd k) b =
    (if in_region c k then pg_setval c (region_addr c k) b else Inr (- 1, c))"
proof (cases "0 \<le> fst k \<and> fst k < 30 \<and> 0 \<le> snd k")
  case True
  then show ?thesis
    using region_guard [OF assms] map_okD(7,9) [OF assms(1)]
    by (auto simp: u_write_def get_symrg_byid_def PAGING_MAX_SYMTBL_SZ_def symrg_get_def in_region_def
        region_addr_def)
next
  case False
  then show ?thesis
    using map_okD(9) [OF assms(1)]
    by (auto simp: u_write_def get_symrg_byid_def PAGING_MAX_SYMTBL_SZ_def in_region_def)
qed

lemma region_mem_cong:
  assumes "symrgtbl (mm c') = symrgtbl (mm c)"
  shows "in_region c' = in_region c" "region_addr c' = region_addr c"
    "vmem c' = vmem c \<Longrightarrow> region_mem c' = region_mem c"
  using assms by (simp_all add: fun_eq_iff in_region_def region_addr_def region_mem_def)

lemma vm_ok_keeps:
  assumes "vm_ok R S c" and "paging_ok R S c'" and "keeps R S c c'"
  shows "vm_ok R S c'" and "region_mem c' = region_mem c"
proof -
  have m: "map_ok c"
    using assms(1) by (simp add: vm_ok_def)
  show "vm_ok R S c'"
    using assms(2) map_ok_keeps(1) [OF m assms(3)] by (simp add: vm_ok_def)
  show "region_mem c' = region_mem c"
    using map_ok_keeps(3) [OF m assms(3)] keeps_vmem [OF assms(3)] by (rule region_mem_cong)
qed

lemma vm_ok_stores:
  assumes "vm_ok R S c" and "paging_ok R S c'" and st: "stores R S (region_addr c k) b c c'"
    and k: "in_region c k"
  shows "vm_ok R S c'" and "region_mem c' = (region_mem c)(k \<mapsto> b)"
proof -
  have m: "map_ok c"
    using assms(1) by (simp add: vm_ok_def)
  have same: "area0 c' = area0 c" "symrgtbl (mm c') = symrgtbl (mm c)" "mmap (mm c') = mmap (mm c)"
      "mapped c' = mapped c"
    using st by (simp_all add: stores_def map_same_def area0_def)
  show "vm_ok R S c'"
    using m assms(2) by (simp add: vm_ok_def map_ok_def same)
  have "vmem c' = (vmem c)(region_addr c k \<mapsto> b)"
    using st by (simp add: stores_def)
  then have "region_mem c' l = ((region_mem c)(k \<mapsto> b)) l" for l
    using region_mem_cong(1,2) [OF same(2)] region_addr_inj [OF m k, of l] k
    by (auto simp: region_mem_def)
  then show "region_mem c' = (region_mem c)(k \<mapsto> b)"
    by (simp add: fun_eq_iff)
qed

definition rd_region :: "vmctx \<Rightarrow> int \<times> int \<Rightarrow> (int \<times> byte option \<times> vmctx) res" where
  "rd_region c k = u_read c 0 (fst k) (snd k)"

definition wr_region :: "vmctx \<Rightarrow> int \<times> int \<Rightarrow> byte \<Rightarrow> (int \<times> vmctx) res" where
  "wr_region c k b = u_write c 0 (fst k) (snd k) b"

lemma rd_region_spec:
  assumes ok: "vm_ok R S c" and k: "offset_ok k"
  obtains (outside) "rd_region c k = Inr (- 1, None, c)" "\<not> in_region c k"
  | (fail) c' where "rd_region c k = Inr (- 1, None, c')" "in_region c k"
      "\<not> can_fault c (region_addr c k div 256)" "vm_ok R S c'" "keeps R S c c'" "region_mem c' = region_mem c"
  | (byte) b c' where "rd_region c k = Inr (0, Some b, c')" "in_region c k"
      "can_fault c (region_addr c k div 256)" "region_mem c k = Some b"
      "vm_ok R S c'" "keeps R S c c'" "region_mem c' = region_mem c" "resident c' (region_addr c k div 256)"
proof -
  have inv: "paging_ok R S c" and m: "map_ok c"
    using ok by (simp_all add: vm_ok_def)
  show ?thesis
  proof (cases "in_region c k")
    case False
    then show ?thesis
      using u_read_eq [OF m k] by (intro outside) (simp_all add: rd_region_def)
  next
    case True
    have run: "rd_region c k = pg_getval c (region_addr c k)"
      using u_read_eq [OF m k] True by (simp add: rd_region_def)
    from inv region_addr_range(1) [OF m True] show ?thesis
    proof (cases rule: pg_getval_spec)
      case (fail c')
      with True run vm_ok_keeps [OF ok fail(3,4)] show ?thesis
        by (intro that(2) [of c']) simp_all
    next
      case (byte b c')
      with True run vm_ok_keeps [OF ok byte(4,5)] show ?thesis
        by (intro that(3) [of b c']) (simp_all add: region_mem_def)
    qed
  qed
qed

lemma wr_region_spec:
  assumes ok: "vm_ok R S c" and k: "offset_ok k"
  obtains (outside) "wr_region c k b = Inr (- 1, c)" "\<not> in_region c k"
  | (fail) c' where "wr_region c k b = Inr (- 1, c')" "in_region c k"
      "\<not> can_fault c (region_addr c k div 256)" "vm_ok R S c'" "keeps R S c c'" "region_mem c' = region_mem c"
  | (stored) c' where "wr_region c k b = Inr (0, c')" "in_region c k"
      "can_fault c (region_addr c k div 256)" "vm_ok R S c'" "stores R S (region_addr c k) b c c'"
      "region_mem c' = (region_mem c)(k \<mapsto> b)" "resident c' (region_addr c k div 256)"
proof -
  have inv: "paging_ok R S c" and m: "map_ok c"
    using ok by (simp_all add: vm_ok_def)
  show ?thesis
  proof (cases "in_region c k")
    case False
    then show ?thesis
      using u_write_eq [OF m k] by (intro outside) (simp_all add: wr_region_def)
  next
    case True
    have run: "wr_region c k b = pg_setval c (region_addr c k) b"
      using u_write_eq [OF m k] True by (simp add: wr_region_def)
    from inv region_addr_range(1) [OF m True] show ?thesis
    proof (cases rule: pg_setval_spec [where b = b])
      case (fail c')
      with True run vm_ok_keeps [OF ok fail(3,4)] show ?thesis
        by (intro that(2) [of c']) simp_all
    next
      case (stored c')
      with True run vm_ok_stores [OF ok stored(3,4) True] show ?thesis
        by (intro that(3) [of c']) simp_all
    qed
  qed
qed

interpretation rm: faulting_memory rd_region wr_region region_mem offset_ok "vm_ok R S" for R S
proof (unfold_locales, goal_cases)
  case (1 c k)
  then show ?case
    by (cases rule: rd_region_spec) (use 1 in auto)
next
  case (2 c k b)
  then have m: "map_ok c"
    by (simp add: vm_ok_def)
  from 2 show ?case
    by (cases rule: wr_region_spec [where b = b]) (use region_mem_dom [OF m, of k] 2 in auto)
qed

subsection \<open>The library calls\<close>

lemma read_ptes_eq:
  "\<forall>p \<in> set ps. 0 \<le> p \<and> p < PAGING_MAX_PGN \<Longrightarrow> read_ptes m ps = Inr (map (\<lambda>p. (p, pgd m p)) ps)"
  by (induction ps) (simp_all add: pgd_get_def)

lemma print_pgtbl_eq:
  assumes "map_ok c"
  shows "print_pgtbl c 0 (- 1) =
    (let ps = (if limit c = 4194304 then [] else [0..limit c div 256 - 1])
     in Inr (0, map (\<lambda>p. (p, pgd (mm c) p)) ps, map (\<lambda>p. (p, fpn_of c p)) ps))"
proof -
  note M = map_okD [OF assms]
  have u: "uint (word_of_int (limit c) :: u32) = limit c"
    using M(4,5) by (simp add: uint_word_of_int)
  have 0: "PAGING_PGN 0 = 0"
    using PAGING_PGN_22(1) [of 0] by simp
  have "PAGING_PGN (limit c) = (if limit c = 4194304 then 0 else limit c div 256)"
    using PAGING_PGN_eq [of "limit c"] PAGING_PGN_22(1) [of "limit c"] M(4,5) by auto
  moreover have "read_ptes (mm c) [0..limit c div 256 - 1] =
      Inr (map (\<lambda>p. (p, pgd (mm c) p)) [0..limit c div 256 - 1])"
    using M(4,5) by (intro read_ptes_eq) (auto simp: PAGING_MAX_PGN_eq)
  ultimately show ?thesis
    by (simp add: print_pgtbl_def M(9) u 0 fpn_of_def comp_def Let_def)
qed

lemma print_pgtbl_ok: "vm_ok R S c \<Longrightarrow> \<exists>x. print_pgtbl c 0 (- 1) = Inr x"
  by (simp add: print_pgtbl_eq Let_def vm_ok_def)

lemma libread_eq:
  assumes "vm_ok R S c"
  shows "libread c s off =
    (case rd_region c (sint s, sint off) of
       Inr (rc, v, c') \<Rightarrow> Inr (rc, map_option scast v, c') | Inl e \<Rightarrow> Inl e)"
proof -
  have k: "offset_ok (sint s, sint off)"
    using to_int_range [of "uint off"] by (simp add: to_int_sint)
  from assms k show ?thesis
  proof (cases rule: rd_region_spec)
    case (byte b c')
    then obtain x where "print_pgtbl c' 0 (- 1) = Inr x"
      using print_pgtbl_ok byte(5) by blast
    with byte show ?thesis
      by (simp add: libread_def rd_region_def)
  qed (simp_all add: libread_def rd_region_def)
qed

lemma libwrite_eq:
  assumes "vm_ok R S c"
  shows "libwrite c b d off = wr_region c (sint d, sint off) b"
proof -
  have k: "offset_ok (sint d, sint off)"
    using to_int_range [of "uint off"] by (simp add: to_int_sint)
  from assms k show ?thesis
  proof (cases rule: wr_region_spec [where b = b])
    case (stored c')
    then obtain x where "print_pgtbl c' 0 (- 1) = Inr x"
      using print_pgtbl_ok stored(4) by blast
    with stored show ?thesis
      by (simp add: libwrite_def wr_region_def)
  qed (simp_all add: libwrite_def wr_region_def)
qed

lemma sint_int_range: "INT_MIN \<le> sint (w :: u32)" "sint (w :: u32) \<le> INT_MAX"
  using to_int_range [of "uint w"] by (simp_all add: to_int_sint)

lemma liballoc_eq:
  assumes "vm_ok R S c" and "fits c (sint sz) \<or> sint sz \<le> 0"
  shows "liballoc c sz i = (case u_alloc c 0 (sint i) (sint sz) of Inr (rc, _, c') \<Rightarrow> Inr (rc, c') | Inl e \<Rightarrow> Inl e)"
proof (cases "0 \<le> sint i \<and> sint i < 30 \<and> 0 < sint sz")
  case True
  have sz: "sint sz \<le> 2147483647"
    using sint_int_range(2) [of sz] by (simp add: INT_MAX_def)
  have i: "0 \<le> sint i" "sint i < 30" "0 < sint sz" and fit: "fits c (sint sz)"
    using True assms(2) by auto
  from assms(1) i sz fit show ?thesis
  proof (cases rule: u_alloc_spec)
    case (alloc n c')
    then obtain x where "print_pgtbl c' 0 (- 1) = Inr x"
      using print_pgtbl_ok by blast
    with alloc(1) show ?thesis
      by (simp add: liballoc_def)
  qed (simp_all add: liballoc_def)
next
  case False
  then have "u_alloc c 0 (sint i) (sint sz) = Inr (- 1, None, c)"
    by (auto simp: u_alloc_def PAGING_MAX_SYMTBL_SZ_def)
  then show ?thesis
    by (simp add: liballoc_def)
qed

lemma libfree_eq:
  assumes "vm_ok R S c"
  shows "libfree c i = u_free c 0 (sint i)"
proof -
  have m: "map_ok c"
    using assms by (simp add: vm_ok_def)
  consider (a) "\<not> (0 \<le> sint i \<and> sint i < 30)"
    | (b) "0 \<le> sint i" "sint i < 30" "symrg c (nat (sint i)) = null_rg"
    | (c) "0 \<le> sint i" "sint i < 30" "symrg c (nat (sint i)) \<noteq> null_rg"
    by auto
  then show ?thesis
  proof cases
    case a
    then have "u_free c 0 (sint i) = Inr (- 1, c)"
      by (auto simp: u_free_def PAGING_MAX_SYMTBL_SZ_def)
    then show ?thesis
      by (simp add: libfree_def)
  next
    case b
    then show ?thesis
      using u_free_null [OF m] by (simp add: libfree_def)
  next
    case c
    from assms c show ?thesis
    proof (rule u_free_spec)
      fix c'
      assume c': "u_free c 0 (sint i) = Inr (0, c')" "vm_ok R S c'"
      then obtain x where "print_pgtbl c' 0 (- 1) = Inr x"
        using print_pgtbl_ok by blast
      with c'(1) show ?thesis
        by (simp add: libfree_def)
    qed
  qed
qed

subsection \<open>The end of a process\<close>

text \<open>
  \<open>free_pcb_memph\<close> clears the page table but leaves the replacement queue as it is, so the
  accounting of the frames is the part of \<open>paging_ok\<close> that stays true.
\<close>

definition frames_ok :: "int set \<Rightarrow> int set \<Rightarrow> vmctx \<Rightarrow> bool" where
  "frames_ok R S c \<longleftrightarrow> active_ok c \<and>
     pool_ok (nframes (mram c)) (free_fp_list (mram c)) {p. resident c p} (fpn_of c) R \<and>
     pool_ok (nframes (act c)) (free_fp_list (act c)) {p. swapped c p} (swp_of c) S \<and>
     (\<forall>p. swapped c p \<longrightarrow> PAGING_PTE_SWPTYP (pgd (mm c) p) = int (active_mswp c))"

definition cells_same :: "vmctx \<Rightarrow> vmctx \<Rightarrow> bool" where
  "cells_same c c' \<longleftrightarrow> env_same c c' \<and> storage (mram c') = storage (mram c) \<and>
     storage (act c') = storage (act c)"

lemma cells_same_trans: "cells_same c c' \<Longrightarrow> cells_same c' c'' \<Longrightarrow> cells_same c c''"
  by (auto simp: cells_same_def env_same_def)

text \<open>Forgetting page \<open>p\<close>, whose frame has gone back to the device it was on.\<close>

definition dropped :: "vmctx \<Rightarrow> int \<Rightarrow> vmctx \<Rightarrow> bool" where
  "dropped c p c' \<longleftrightarrow> cells_same c c' \<and> pgd (mm c') = (pgd (mm c))(p := 0) \<and>
     free_fp_list (mram c') = (if resident c p then [fpn_of c p] else []) @ free_fp_list (mram c) \<and>
     free_fp_list (act c') = (if swapped c p then [swp_of c p] else []) @ free_fp_list (act c)"

lemma pool_ok_drop:
  assumes "pool_ok n fl A own X"
  shows "pool_ok n ((if p \<in> A then [own p] else []) @ fl) (A - {p}) own X"
  using pool_ok_put [OF pool_ok_release [OF assms, of p]] assms by (cases "p \<in> A") simp_all

lemma dropped_ok:
  assumes "frames_ok R S c" and d: "dropped c p c'"
  shows "frames_ok R S c'" and "mapped c' q \<longleftrightarrow> mapped c q \<and> q \<noteq> p"
proof -
  have pg: "pgd (mm c') = (pgd (mm c))(p := 0)" and env: "env_same c c'"
    using d by (simp_all add: dropped_def cells_same_def)
  show "mapped c' q \<longleftrightarrow> mapped c q \<and> q \<noteq> p"
    by (auto simp: mapped_def pg)
  have res: "{q. resident c' q} = {q. resident c q} - {p}" "{q. swapped c' q} = {q. swapped c q} - {p}"
    by (auto simp: resident_def swapped_def mapped_def pg)
  have own: "q \<noteq> p \<Longrightarrow> fpn_of c' q = fpn_of c q" "q \<noteq> p \<Longrightarrow> swp_of c' q = swp_of c q" for q
    by (simp_all add: fpn_of_def swp_of_def pg)
  have "pool_ok (nframes (mram c)) (free_fp_list (mram c')) ({q. resident c q} - {p}) (fpn_of c) R"
    using pool_ok_drop [of _ _ "{q. resident c q}" "fpn_of c" R p] assms
    by (simp add: frames_ok_def dropped_def)
  moreover have "pool_ok (nframes (act c)) (free_fp_list (act c')) ({q. swapped c q} - {p}) (swp_of c) S"
    using pool_ok_drop [of _ _ "{q. swapped c q}" "swp_of c" S p] assms
    by (simp add: frames_ok_def dropped_def)
  moreover have "PAGING_PTE_SWPTYP (pgd (mm c') q) = int (active_mswp c')" if "swapped c' q" for q
    using that assms(1) env by (auto simp: frames_ok_def env_same_def swapped_def mapped_def pg split: if_splits)
  ultimately show "frames_ok R S c'"
    using assms(1) env env_same_nframes [OF env] own
      pool_ok_cong [of "{q. resident c q} - {p}" "fpn_of c" "fpn_of c'"]
      pool_ok_cong [of "{q. swapped c q} - {p}" "swp_of c" "swp_of c'"]
    by (simp add: frames_ok_def res) (simp add: active_ok_def env_same_def)
qed

lemma free_memph_step:
  assumes ok: "frames_ok R S c" and p: "0 \<le> p" "p < PAGING_MAX_PGN"
  shows "\<exists>c'. free_memph_loop p c = free_memph_loop (p + 1) c' \<and> frames_ok R S c' \<and> cells_same c c' \<and>
    (\<forall>q. mapped c' q \<longleftrightarrow> mapped c q \<and> q \<noteq> p)"
proof (cases "mapped c p")
  case False
  then have "free_memph_loop p c = free_memph_loop (p + 1) c"
    using p by (subst free_memph_loop.simps) (simp add: pgd_get_def mapped_def)
  with False ok show ?thesis
    by (intro exI [of _ c]) (auto simp: cells_same_def env_same_def)
next
  case m: True
  let ?pte = "pgd (mm c) p" and ?m = "(mm c)\<lparr>pgd := (pgd (mm c))(p := 0)\<rparr>"
  let ?c1 = "if PAGING_PAGE_SWAPPED ?pte
    then c\<lparr>mswp := (mswp c)[active_mswp c := MEMPHY_put_freefp (act c) (swp_of c p)]\<rparr>
    else c\<lparr>mram := MEMPHY_put_freefp (mram c) (fpn_of c p)\<rparr>"
  have ac: "active_ok c"
    using ok by (simp add: frames_ok_def)
  have tp: "PAGING_PTE_SWPTYP ?pte = int (active_mswp c)" if "PAGING_PAGE_SWAPPED ?pte"
    using ok m that by (auto simp: frames_ok_def swapped_def)
  have run: "free_memph_loop p c = free_memph_loop (p + 1) (?c1\<lparr>mm := ?m\<rparr>)"
    using p m tp active_ok_simps(1) [OF ac]
    by (subst free_memph_loop.simps) (auto simp: pgd_get_def pgd_set_def mapped_def set_swp_dev_def swp_of_def fpn_of_def)
  have "dropped c p (?c1\<lparr>mm := ?m\<rparr>)"
    using ac m by (auto simp: dropped_def cells_same_def env_same_def active_ok_def resident_def swapped_def)
  with run show ?thesis
    using dropped_ok [OF ok] by (auto simp: dropped_def)
qed

lemma free_memph_loop_spec:
  assumes "frames_ok R S c" and "0 \<le> p" and "p \<le> PAGING_MAX_PGN"
  shows "\<exists>c'. free_memph_loop p c = Inr c' \<and> frames_ok R S c' \<and> cells_same c c' \<and>
    (\<forall>q. mapped c' q \<longleftrightarrow> mapped c q \<and> q < p)"
  using assms
proof (induction "nat (PAGING_MAX_PGN - p)" arbitrary: p c)
  case 0
  then have "free_memph_loop p c = Inr c"
    by (subst free_memph_loop.simps) simp
  with 0 show ?case
    by (intro exI [of _ c]) (auto simp: cells_same_def env_same_def mapped_def)
next
  case (Suc n)
  then have p: "p < PAGING_MAX_PGN" and n: "n = nat (PAGING_MAX_PGN - (p + 1))"
    by auto
  obtain c1 where c1: "free_memph_loop p c = free_memph_loop (p + 1) c1" "frames_ok R S c1" "cells_same c c1"
      "\<forall>q. mapped c1 q \<longleftrightarrow> mapped c q \<and> q \<noteq> p"
    using free_memph_step [OF Suc.prems(1,2) p] by blast
  obtain c' where "free_memph_loop (p + 1) c1 = Inr c'" "frames_ok R S c'" "cells_same c1 c'"
      "\<forall>q. mapped c' q \<longleftrightarrow> mapped c1 q \<and> q < p + 1"
    using Suc.hyps(1) [OF n c1(2)] Suc.prems(2) p by auto
  with c1 cells_same_trans show ?case
    by (intro exI [of _ c']) auto
qed

lemma free_pcb_memph_spec:
  assumes "paging_ok R S c"
  obtains c' where "free_pcb_memph c = Inr c'" "cells_same c c'" "\<And>p. \<not> mapped c' p"
    "distinct (free_fp_list (mram c'))" "set (free_fp_list (mram c')) = {0..<nframes (mram c)} - R"
    "distinct (free_fp_list (act c'))" "set (free_fp_list (act c')) = {0..<nframes (act c)} - S"
proof -
  have "frames_ok R S c"
    using assms by (simp add: paging_ok_def frames_ok_def)
  then obtain c' where c': "free_memph_loop 0 c = Inr c'" "frames_ok R S c'" "cells_same c c'"
      "\<forall>q. mapped c' q \<longleftrightarrow> mapped c q \<and> q < 0"
    using free_memph_loop_spec [of R S c 0] by (auto simp: PAGING_MAX_PGN_eq)
  have none: "\<not> mapped c' p" for p
    using c'(4) by (auto simp: mapped_def)
  then have "{p. resident c' p} = {}" "{p. swapped c' p} = {}"
    by (simp_all add: resident_def swapped_def)
  then have "pool_ok (nframes (mram c)) (free_fp_list (mram c')) {} (fpn_of c') R"
      "pool_ok (nframes (act c)) (free_fp_list (act c')) {} (swp_of c') S"
    using c'(2,3) env_same_nframes [of c c'] by (simp_all add: frames_ok_def cells_same_def)
  with c' none show ?thesis
    by (intro that [of c']) (auto simp: free_pcb_memph_def pool_ok_def)
qed

end
