(* ===== verification/Memory.thy ===== *)
theory Memory
  imports Access
begin

text \<open>
  What the virtual memory of a process guarantees, from its creation to its end: the properties of
  paging, allocation and access, and a small machine on which each of them is exercised. The library
  calls of a process are an inductive step relation; the states a process can reach satisfy
  \<open>vm_ok\<close> by rule induction.
\<close>

subsection \<open>A new process\<close>

lemma fresh_ok:
  assumes "mm c = init_mm" and "active_ok c" and "dev_ok (mram c) 8192" and "dev_ok (act c) 2097152"
    and "distinct (free_fp_list (mram c))" and "set (free_fp_list (mram c)) \<subseteq> {0..<nframes (mram c)}"
    and "distinct (free_fp_list (act c))" and "set (free_fp_list (act c)) \<subseteq> {0..<nframes (act c)}"
  shows "vm_ok ({0..<nframes (mram c)} - set (free_fp_list (mram c)))
    ({0..<nframes (act c)} - set (free_fp_list (act c))) c"
  using assms init_mm_map_ok [OF assms(1)] init_mm_no_pages [OF assms(1)]
  by (auto simp: vm_ok_def paging_ok_def pool_ok_def init_mm_simps)

subsection \<open>A small machine\<close>

text \<open>Two frames of RAM and four frames of swap space, both random access, as \<open>main\<close> sets them up.\<close>

definition device :: "int \<Rightarrow> memphy_struct" where
  "device sz = (case init_memphy \<lparr>storage = (\<lambda>_. 0), maxsz = 0, rdmflg = False, cursor = 0,
      free_fp_list = [], used_fp_list = []\<rparr> sz 1 of Inr d \<Rightarrow> d
    | Inl _ \<Rightarrow> \<lparr>storage = (\<lambda>_. 0), maxsz = 0, rdmflg = False, cursor = 0,
      free_fp_list = [], used_fp_list = []\<rparr>)"

definition m0 :: vmctx where
  "m0 = \<lparr>mm = init_mm, mram = device 512, mswp = [device 1024], active_mswp = 0, active_mswp_id = 0\<rparr>"

definition after :: "(int \<times> int option \<times> vmctx) res \<Rightarrow> vmctx" where
  "after r = (case r of Inr (_, _, c) \<Rightarrow> c | Inl _ \<Rightarrow> m0)"

text \<open>Region 0 takes the two frames of RAM.\<close>

definition m1 :: vmctx where
  "m1 = after (u_alloc m0 0 0 512)"

lemma device_simps [simp]:
  assumes "0 \<le> sz"
  shows "maxsz (device sz) = sz" "free_fp_list (device sz) = [0..sz div 256 - 1]"
    "nframes (device sz) = sz div 256"
  using init_memphy_eq [OF assms, of "\<lparr>storage = (\<lambda>_. 0), maxsz = 0, rdmflg = False, cursor = 0,
      free_fp_list = [], used_fp_list = []\<rparr>" 1]
  by (auto simp: device_def nframes_def)

lemma m0_ok: "vm_ok {} {} m0"
proof -
  have "vm_ok ({0..<nframes (mram m0)} - set (free_fp_list (mram m0)))
      ({0..<nframes (act m0)} - set (free_fp_list (act m0))) m0"
    by (rule fresh_ok) (auto simp: m0_def active_ok_def dev_ok_def nframes_def INT_MAX_def)
  moreover have "{0..<2 :: int} - {0..1} = {}" "{0..<4 :: int} - {0..3} = {}"
    by auto
  ultimately show ?thesis
    by (simp add: m0_def)
qed

lemma m0_facts: "limit m0 = 0" "avail m0 = 2" "has_hole m0 sz = False" "fits m0 512" "can_alloc m0 512"
proof -
  show l: "limit m0 = 0"
    by (simp add: area0_def m0_def init_mm_simps)
  show a: "avail m0 = 2"
    by (simp add: avail_def m0_def init_mm_simps upto.simps)
  show "has_hole m0 sz = False"
    by (simp add: has_hole_def real_frees_def l)
  show "fits m0 512" "can_alloc m0 512"
    by (simp_all add: fits_def can_alloc_def l a)
qed

lemma alloc_after:
  assumes "vm_ok R S c" and "0 \<le> rgid" "rgid < 30" and "0 < sz" "sz \<le> 2147483647" and "fits c sz"
    and "can_alloc c sz"
  shows "vm_ok R S (after (u_alloc c 0 rgid sz))"
  using assms(1-6) by (cases rule: u_alloc_spec) (use assms(7) in \<open>auto simp: after_def\<close>)

lemma m1_ok: "vm_ok {} {} m1"
  unfolding m1_def by (rule alloc_after [OF m0_ok]) (simp_all add: m0_facts)

lemma m1_facts: "limit m1 = 512" "avail m1 = 2" "has_hole m1 sz \<longleftrightarrow> False" "symrg m1 0 = \<lparr>rg_start = 0, rg_end = 512\<rparr>"
proof -
  show "limit m1 = 512" "avail m1 = 2" "symrg m1 0 = \<lparr>rg_start = 0, rg_end = 512\<rparr>"
    by code_simp+
  have "real_frees (area0 m1) = []"
    by code_simp
  then show "has_hole m1 sz \<longleftrightarrow> False"
    by (simp add: has_hole_def)
qed

text \<open>
  A process that has filled its address space: all 16384 pages are in swap, page \<open>p\<close> in frame \<open>p\<close>,
  and the only frame of RAM is free.
\<close>

definition full :: vmctx where
  "full = \<lparr>mm = \<lparr>pgd = (\<lambda>p. pte_set_swap 0 0 p),
        mmap = [\<lparr>vm_id = 0, vm_start = 0, vm_end = 4194304, sbrk = 4194304, vm_freerg_list = []\<rparr>],
        symrgtbl = replicate 30 null_rg, fifo_pgn = []\<rparr>,
      mram = device 256, mswp = [(device 4194304)\<lparr>free_fp_list := []\<rparr>], active_mswp = 0, active_mswp_id = 0\<rparr>"

lemma full_facts:
  "mapped full p \<longleftrightarrow> 0 \<le> p \<and> p < 16384" "swapped full p \<longleftrightarrow> 0 \<le> p \<and> p < 16384" "resident full p \<longleftrightarrow> False"
  "limit full = 4194304" "avail full = 1" "free_fp_list (mram full) = [0]"
  by (simp_all add: full_def page_state_defs PAGING_MAX_PGN_eq area0_def avail_def)

lemma full_ok: "vm_ok {} {} full"
proof -
  have own: "swp_of full p = p" if "0 \<le> p" "p < 16384" for p
    using that by (simp add: swp_of_def full_def)
  then have "swp_of full ` {p. 0 \<le> p \<and> p < 16384} = {0..<16384}" "inj_on (swp_of full) {p. 0 \<le> p \<and> p < 16384}"
    by (force simp: image_iff, auto simp: inj_on_def)
  then have "pool_ok 16384 [] {p. swapped full p} (swp_of full) {}"
    by (simp add: pool_ok_def full_facts)
  moreover have "nframes (act full) = 16384" "maxsz (act full) = 4194304"
    by (simp_all add: full_def nframes_def)
  ultimately have "paging_ok {} {} full"
    unfolding paging_ok_def full_facts
    by (auto simp: full_def active_ok_def dev_ok_def pool_ok_def INT_MAX_def)
  moreover have "map_ok full"
    unfolding map_ok_def full_facts
    by (auto simp: full_def area0_def area_ok_def syms_ok_def sym_ok_def PAGING_MAX_SYMTBL_SZ_def)
  ultimately show ?thesis
    by (simp add: vm_ok_def)
qed

subsection \<open>Properties of paging\<close>

text \<open>
  A process that has just been loaded owns no frame: with the empty map \<open>init_mm\<close> makes, the
  invariant holds for whatever frames the devices have left, and every frame that is not free belongs
  to the others.
\<close>

lemma fresh_process:
  assumes "mm c = init_mm" and "active_ok c" and "dev_ok (mram c) 8192" and "dev_ok (act c) 2097152"
    and "distinct (free_fp_list (mram c))" and "set (free_fp_list (mram c)) \<subseteq> {0..<nframes (mram c)}"
    and "distinct (free_fp_list (act c))" and "set (free_fp_list (act c)) \<subseteq> {0..<nframes (act c)}"
  shows "vm_ok ({0..<nframes (mram c)} - set (free_fp_list (mram c)))
      ({0..<nframes (act c)} - set (free_fp_list (act c))) c \<and> vmem c = Map.empty"
  using fresh_ok [OF assms] init_mm_no_pages [OF assms(1)]
  by (simp add: fun_eq_iff vmem_def page_byte_def)

text \<open>
  C19. Evicting a page is invisible. \<open>__swap_out_page\<close> hands out a frame exactly when the process has
  a resident page and the swap device a free frame; the frame then belongs to nobody, the invariant
  holds for the rest, and the process still sees every byte of its memory. When it fails it returns
  \<open>-1\<close> and the same is true. In both cases no byte in a frame of another process changes.
\<close>

theorem swap_out_transparent:
  assumes "paging_ok R S c"
  shows "\<exists>rc f c'. u_swap_out_page c = Inr (rc, f, c') \<and> vmem c' = vmem c \<and>
    frames_same R (mram c) (mram c') \<and> frames_same S (act c) (act c') \<and>
    (if fifo_pgn (mm c) \<noteq> [] \<and> free_fp_list (act c) \<noteq> []
     then rc = 0 \<and> (\<exists>g. f = Some g \<and> g \<notin> R \<and> paging_ok (insert g R) S c')
     else rc = - 1 \<and> paging_ok R S c')"
  using assms
proof (cases rule: swap_out_cases)
  case (full c')
  then show ?thesis
    using keeps_vmem [OF full(4)] by (auto simp: keeps_def)
next
  case (frame f c')
  then show ?thesis
    using keeps_vmem [OF frame(6)] by (auto simp: keeps_def)
qed

theorem swap_out_transparent_witness:
  "\<exists>rc f c'. u_swap_out_page m1 = Inr (rc, f, c') \<and> vmem c' = vmem m1 \<and> rc = 0"
proof -
  have ok: "paging_ok {} {} m1"
    using m1_ok by (simp add: vm_ok_def)
  have "fifo_pgn (mm m1) \<noteq> []" "free_fp_list (act m1) \<noteq> []"
    by code_simp+
  then show ?thesis
    using swap_out_transparent [OF ok] by auto
qed

text \<open>
  C8. Page faults are invisible. \<open>pg_getpage\<close> returns the frame of a page, and afterwards the page
  is resident in it, exactly when the page is mapped and is resident or a frame can be found for it;
  otherwise it returns \<open>-1\<close>. Whatever it moves between RAM and swap, the process and all others see
  the same bytes as before and the invariant holds. No access is undefined.
\<close>

theorem page_fault_transparent:
  assumes "paging_ok R S c"
  shows "\<exists>rc f c'. pg_getpage c p = Inr (rc, f, c') \<and> paging_ok R S c' \<and> vmem c' = vmem c \<and>
    frames_same R (mram c) (mram c') \<and> frames_same S (act c) (act c') \<and>
    (if mapped c p \<and> (resident c p \<or> 0 < avail c)
     then rc = 0 \<and> resident c' p \<and> f = Some (fpn_of c' p) else rc = - 1 \<and> f = None)"
  using assms
proof (cases rule: pg_getpage_spec [where p = p])
  case (fail c')
  then show ?thesis
    using keeps_vmem [OF fail(4)] by (auto simp: keeps_def can_fault_def)
next
  case (page c')
  then show ?thesis
    using keeps_vmem [OF page(4)] by (auto simp: keeps_def can_fault_def)
qed

theorem page_fault_transparent_witness:
  "swapped full 7 \<and> (\<exists>f c'. pg_getpage full 7 = Inr (0, f, c') \<and> resident c' 7 \<and> vmem c' = vmem full)"
proof -
  have ok: "paging_ok {} {} full"
    using full_ok by (simp add: vm_ok_def)
  have "swapped full 7" "mapped full 7" "0 < avail full"
    by (simp_all add: full_facts)
  then show ?thesis
    using page_fault_transparent [OF ok, of 7] by auto
qed

text \<open>
  C23. \<open>alloc_pages_range\<close> obtains \<open>n\<close> frames exactly when the free frames of RAM and the pages that
  can be evicted are enough. It then returns \<open>n\<close> different frames nobody else owns; otherwise it
  returns \<open>-3000\<close> and every frame it had collected is back in the free list. The loop always ends
  and the memory of the process does not change.
\<close>

theorem alloc_pages_exact:
  assumes "paging_ok R S c" and "0 \<le> n"
  shows "\<exists>rc fps c'. alloc_pages_range c n = Inr (rc, fps, c') \<and> vmem c' = vmem c \<and>
    frames_same R (mram c) (mram c') \<and> frames_same S (act c) (act c') \<and>
    (if nat n \<le> avail c
     then rc = 0 \<and> distinct fps \<and> int (length fps) = n \<and> set fps \<inter> R = {} \<and> paging_ok (R \<union> set fps) S c'
     else rc = - 3000 \<and> fps = [] \<and> paging_ok R S c')"
proof -
  note A = alloc_pages_loop_spec [of R "[]" S c "nat n" n 0]
  have "if nat n \<le> avail c then
      \<exists>fps c'. alloc_pages_range c n = Inr (0, fps, c') \<and> paging_ok (R \<union> set fps) S c' \<and>
        distinct fps \<and> set fps \<inter> R = {} \<and> length fps = nat n \<and> keeps R S c c'
    else \<exists>c'. alloc_pages_range c n = Inr (- 3000, [], c') \<and> paging_ok R S c' \<and> keeps R S c c'"
    using A assms(1) by (auto simp: alloc_pages_range_def split: if_splits)
  then show ?thesis
    using assms(2) keeps_vmem by (fastforce simp: keeps_def split: if_splits)
qed

theorem alloc_pages_exact_witness:
  "\<exists>rc fps c'. alloc_pages_range m1 3 = Inr (rc, fps, c') \<and> rc = - 3000 \<and> vmem c' = vmem m1"
proof -
  have ok: "paging_ok {} {} m1"
    using m1_ok by (simp add: vm_ok_def)
  show ?thesis
    using alloc_pages_exact [OF ok, of 3] by (auto simp: m1_facts)
qed

subsection \<open>Properties of allocation\<close>

text \<open>
  C27. Growing the area. As long as the area stays inside the 4 MB address space, \<open>inc_vma_limit\<close>
  succeeds exactly when the pages needed for the size can be had: it then adds exactly those whole
  pages behind the old end, all of them free space, and every byte the process had keeps its value.
  When it fails it returns \<open>-1\<close>; the area, the symbols and the bytes the process sees are then as they
  were, but the attempt may have moved resident pages of the process to swap. In both cases no byte in
  a frame of another process changes.
\<close>

theorem grow_area:
  assumes "vm_ok R S c" and "0 < sz" and "limit c + (sz + 255) div 256 * 256 \<le> 4194304"
  shows "\<exists>rc c'. inc_vma_limit c 0 sz = Inr (rc, c') \<and> vm_ok R S c' \<and> vmem c \<subseteq>\<^sub>m vmem c' \<and>
    frames_same R (mram c) (mram c') \<and> frames_same S (act c) (act c') \<and> symrgtbl (mm c') = symrgtbl (mm c) \<and>
    (if nat ((sz + 255) div 256) \<le> avail c
     then rc = 0 \<and> limit c' = limit c + (sz + 255) div 256 * 256 \<and>
       free_bytes (frees c') = free_bytes (frees c) \<union> {limit c..<limit c'} \<and> dom (vmem c') = {0..<limit c'}
     else rc = - 1 \<and> area0 c' = area0 c \<and> vmem c' = vmem c)"
proof (cases "nat ((sz + 255) div 256) \<le> avail c")
  case True
  with inc_vma_limit_spec [OF assms] show ?thesis
    using dom_vmem by (auto simp: extends_def vm_ok_def)
next
  case False
  with inc_vma_limit_spec [OF assms] obtain c' where "inc_vma_limit c 0 sz = Inr (- 1, c')" "vm_ok R S c'"
      and k: "keeps R S c c'"
    by auto
  moreover have "area0 c' = area0 c" "symrgtbl (mm c') = symrgtbl (mm c)" "vmem c' = vmem c"
    using map_ok_keeps(2,3) [OF _ k] keeps_vmem [OF k] assms(1) by (simp_all add: vm_ok_def)
  moreover have "frames_same R (mram c) (mram c')" "frames_same S (act c) (act c')"
    using k by (simp_all add: keeps_def)
  ultimately show ?thesis
    using False by simp
qed

theorem grow_area_witness:
  "\<exists>c'. inc_vma_limit m0 0 300 = Inr (0, c') \<and> limit c' = 512 \<and> vm_ok {} {} c'"
  using grow_area [OF m0_ok, of 300] by (auto simp: m0_facts)

text \<open>
  C18. Allocation. Inside the 4 MB address space, \<open>__alloc\<close> succeeds exactly when a free region is
  large enough or the area can grow by the pages needed. The new region has exactly the requested
  size, lies in space that was free or is new, overlaps no other region of the process and no free
  space that is left, and no byte the process had changes its value. When it fails, it returns
  \<open>-1\<close>, and the bytes, the symbols and the area of the process are as they were.
\<close>

theorem alloc_region:
  assumes "vm_ok R S c" and "0 \<le> rgid" "rgid < 30" and "0 < sz" "sz \<le> 2147483647" and "fits c sz"
  shows "\<exists>rc a c'. u_alloc c 0 rgid sz = Inr (rc, a, c') \<and> vm_ok R S c' \<and> vmem c \<subseteq>\<^sub>m vmem c' \<and>
    frames_same R (mram c) (mram c') \<and> frames_same S (act c) (act c') \<and>
    (if can_alloc c sz
     then rc = 0 \<and> a = Some (rg_start (symrg c' (nat rgid))) \<and>
       rg_end (symrg c' (nat rgid)) = rg_start (symrg c' (nat rgid)) + sz \<and>
       rg_bytes (symrg c' (nat rgid)) \<subseteq> free_bytes (frees c) \<union> {limit c..<limit c'} \<and>
       rg_bytes (symrg c' (nat rgid)) \<inter> free_bytes (frees c') = {} \<and>
       (\<forall>j < 30. j \<noteq> nat rgid \<longrightarrow> symrg c' j = symrg c j \<and>
          rg_bytes (symrg c' (nat rgid)) \<inter> rg_bytes (symrg c j) = {})
     else rc = - 1 \<and> a = None \<and> vmem c' = vmem c \<and> symrgtbl (mm c') = symrgtbl (mm c) \<and> area0 c' = area0 c)"
  using assms
proof (cases rule: u_alloc_spec)
  case (alloc n c')
  have m: "map_ok c'" and len: "length (symrgtbl (mm c)) = 30"
    using alloc(3) assms(1) map_okD(7) by (auto simp: vm_ok_def)
  have n: "symrg c' (nat rgid) = n"
    using alloc(5) assms(2,3) len by simp
  have o: "symrg c' j = symrg c j" if "j \<noteq> nat rgid" for j
    using that alloc(5) by simp
  have dis: "rg_bytes n \<inter> rg_bytes (symrg c j) = {}" if "j < 30" "j \<noteq> nat rgid" for j
  proof -
    have "nat rgid < length (symrgtbl (mm c'))" "j < length (symrgtbl (mm c'))"
      using map_okD(7) [OF m] that(1) assms(2,3) by simp_all
    then have "rg_bytes (symrg c' (nat rgid)) \<inter> rg_bytes (symrg c' j) = {}"
      using m that(2) by (simp add: map_ok_def syms_ok_def)
    then show ?thesis
      by (simp add: n o [OF that(2)])
  qed
  show ?thesis
    using alloc(1,2,3,4,7,8,9) n o dis by (auto simp: extends_def)
next
  case (fail c')
  have "map_ok c"
    using assms(1) by (simp add: vm_ok_def)
  with fail map_ok_keeps(2,3) [OF _ fail(4)] keeps_vmem [OF fail(4)] show ?thesis
    by (auto simp: keeps_def)
qed

theorem alloc_region_witness:
  "\<exists>c'. u_alloc m0 0 4 512 = Inr (0, Some (rg_start (symrg c' 4)), c') \<and> vm_ok {} {} c' \<and>
    rg_end (symrg c' 4) = rg_start (symrg c' 4) + 512"
  using alloc_region [OF m0_ok, of 4 512] by (auto simp: m0_facts)

text \<open>
  C26. Release. \<open>__free\<close> of an allocated region returns exactly its bytes to the free space, clears
  the symbol and touches no other region and no byte of memory; freeing the symbol again is refused
  with \<open>-1\<close> and changes nothing.
\<close>

theorem free_region:
  assumes "vm_ok R S c" and "0 \<le> rgid" "rgid < 30" and "symrg c (nat rgid) \<noteq> null_rg"
  shows "\<exists>c'. u_free c 0 rgid = Inr (0, c') \<and> vm_ok R S c' \<and> vmem c' = vmem c \<and>
    free_bytes (frees c') = free_bytes (frees c) \<union> rg_bytes (symrg c (nat rgid)) \<and>
    symrgtbl (mm c') = (symrgtbl (mm c))[nat rgid := null_rg] \<and> u_free c' 0 rgid = Inr (- 1, c')"
  using assms
proof (rule u_free_spec)
  fix c'
  assume c': "u_free c 0 rgid = Inr (0, c')" "vm_ok R S c'" "vmem c' = vmem c"
    "symrgtbl (mm c') = (symrgtbl (mm c))[nat rgid := null_rg]"
    "free_bytes (frees c') = free_bytes (frees c) \<union> rg_bytes (symrg c (nat rgid))"
  have "length (symrgtbl (mm c)) = 30"
    using assms(1) map_okD(7) by (simp add: vm_ok_def)
  then have "u_free c' 0 rgid = Inr (- 1, c')"
    using c'(2,4) assms(2,3) by (intro u_free_null) (auto simp: vm_ok_def)
  with c' show ?thesis by blast
qed

theorem free_region_witness:
  "\<exists>c'. u_free m1 0 0 = Inr (0, c') \<and> free_bytes (frees c') = free_bytes (frees m1) \<union> {0..<512} \<and>
    u_free c' 0 0 = Inr (- 1, c')"
  using free_region [OF m1_ok, of 0] by (auto simp: m1_facts null_rg_def rg_bytes_def)

subsection \<open>Properties of access\<close>

text \<open>
  C6. Read after write, through page faults. After any series of successful writes to regions, in
  any order and interleaved with whatever page movements they cause, a successful read returns the
  last byte written to that region and offset, or the byte that was there at the start if none was.
\<close>

theorem last_write_wins:
  assumes "vm_ok R S c"
    and "\<forall>kb \<in> set kbs. INT_MIN \<le> snd (fst kb) \<and> snd (fst kb) \<le> INT_MAX"
    and "run_writes (\<lambda>c k b. u_write c 0 (fst k) (snd k) b) c kbs = Some c'"
    and "INT_MIN \<le> off" "off \<le> INT_MAX" and "u_read c' 0 rgid off = Inr (0, v, c'')"
  shows "v = (case map_of (rev kbs) (rgid, off) of None \<Rightarrow> region_mem c (rgid, off) | Some b \<Rightarrow> Some b)"
proof -
  have wr: "wr_region = (\<lambda>c k b. u_write c 0 (fst k) (snd k) b)"
    by (simp add: fun_eq_iff wr_region_def)
  show ?thesis
    using rm.read_after_writes [of R S c kbs c' "(rgid, off)" v c'', unfolded wr] assms
    by (simp add: rd_region_def)
qed

theorem last_write_wins_witness:
  "\<exists>c' v c''. run_writes (\<lambda>c k b. u_write c 0 (fst k) (snd k) b) m1 [((0, 5), 1), ((0, 300), 2), ((0, 5), 3)] =
      Some c' \<and> u_read c' 0 0 5 = Inr (0, v, c'') \<and> v = Some 3"
proof -
  let ?kbs = "[((0, 5), 1), ((0, 300), 2), ((0, 5), 3)] :: ((int \<times> int) \<times> byte) list"
  have "case run_writes (\<lambda>c k b. u_write c 0 (fst k) (snd k) b) m1 ?kbs of
      Some c' \<Rightarrow> (case u_read c' 0 0 5 of Inr (rc, _, _) \<Rightarrow> rc = 0 | Inl _ \<Rightarrow> False) | None \<Rightarrow> False"
    by code_simp
  then obtain c' v c'' where r: "run_writes (\<lambda>c k b. u_write c 0 (fst k) (snd k) b) m1 ?kbs = Some c'"
      "u_read c' 0 0 5 = Inr (0, v, c'')"
    by (auto split: option.splits sum.splits prod.splits)
  have "v = (case map_of (rev ?kbs) (0, 5) of None \<Rightarrow> region_mem m1 (0, 5) | Some b \<Rightarrow> Some b)"
    using r by (intro last_write_wins [OF m1_ok _ r(1)]) (simp_all add: INT_MIN_def INT_MAX_def)
  with r show ?thesis
    by simp
qed

lemma resident_can_fault: "resident c p \<Longrightarrow> can_fault c p"
  by (simp add: can_fault_def mapped_iff)

lemma m1_resident: "resident m1 0" "resident m1 1"
  by code_simp+

lemma m1_in_region: "in_region m1 (0, 5)" "in_region m1 (0, 300)"
  by (simp_all add: in_region_def m1_facts)

text \<open>
  A byte written by \<open>libwrite\<close> is read back by \<open>libread\<close>, sign-extended to the register: after a
  successful write the read cannot fail, because the page is in RAM.
\<close>

lemma libwrite_libread:
  assumes "vm_ok R S c" and "libwrite c b d off = Inr (0, c')"
  shows "\<exists>c''. libread c' d off = Inr (0, Some (scast b), c'') \<and> vm_ok R S c'' \<and>
    region_mem c'' = (region_mem c)((sint d, sint off) \<mapsto> b)"
proof -
  let ?k = "(sint d, sint off)"
  have k: "offset_ok ?k"
    using sint_int_range by simp
  have w: "wr_region c ?k b = Inr (0, c')"
    using libwrite_eq [OF assms(1)] assms(2) by simp
  from assms(1) k show ?thesis
  proof (cases rule: wr_region_spec [where b = b])
    case (stored c1)
    then have c1: "c1 = c'"
      using w by simp
    have sym: "symrgtbl (mm c') = symrgtbl (mm c)"
      using stored(5) by (simp add: c1 stores_def map_same_def)
    have ok: "vm_ok R S c'"
      using stored(4) c1 by simp
    have in': "in_region c' ?k" and res: "can_fault c' (region_addr c' ?k div 256)"
      using stored(2,7) resident_can_fault region_mem_cong(1,2) [OF sym] by (simp_all add: c1)
    from ok k show ?thesis
    proof (cases rule: rd_region_spec)
      case (byte v c'')
      then show ?thesis
        using stored(6) by (auto simp: libread_eq [OF ok] c1)
    qed (use in' res in simp_all)
  qed (use w in simp_all)
qed

text \<open>
  C28. No access leaves its region: a read or write with a region number outside the table, a negative
  offset or an offset behind the end of the region is refused with \<open>-1\<close> and changes nothing.
\<close>

theorem access_in_bounds:
  assumes "vm_ok R S c" and "\<not> in_region c (sint r, sint off)"
  shows "libread c r off = Inr (- 1, None, c) \<and> libwrite c b r off = Inr (- 1, c)"
proof -
  have k: "offset_ok (sint r, sint off)" and m: "map_ok c"
    using sint_int_range assms(1) by (simp_all add: vm_ok_def)
  show ?thesis
    using u_read_eq [OF m k] u_write_eq [OF m k] assms(2)
    by (simp add: libread_eq [OF assms(1)] libwrite_eq [OF assms(1)] rd_region_def wr_region_def)
qed

theorem access_in_bounds_witness:
  "libread m1 0 512 = Inr (- 1, None, m1) \<and> libwrite m1 7 0 512 = Inr (- 1, m1)"
  by (rule access_in_bounds [OF m1_ok]) (simp add: in_region_def m1_facts)

subsection \<open>The life of a process\<close>

text \<open>
  The library calls a process can make, as a step relation. An allocation that would push the area
  over the 4 MB of the address space is not a step: see the last property of this theory.
\<close>

inductive lib_step :: "vmctx \<Rightarrow> vmctx \<Rightarrow> bool" where
  lib_alloc: "liballoc c sz i = Inr (rc, c') \<Longrightarrow> fits c (sint sz) \<or> sint sz \<le> 0 \<Longrightarrow> lib_step c c'"
| lib_free: "libfree c i = Inr (rc, c') \<Longrightarrow> lib_step c c'"
| lib_read: "libread c i off = Inr (rc, v, c') \<Longrightarrow> lib_step c c'"
| lib_write: "libwrite c b i off = Inr (rc, c') \<Longrightarrow> lib_step c c'"

text \<open>What a call may change: its own memory, never the shape of the devices or the frames of others.\<close>

definition confined :: "int set \<Rightarrow> int set \<Rightarrow> vmctx \<Rightarrow> vmctx \<Rightarrow> bool" where
  "confined R S c c' \<longleftrightarrow> env_same c c' \<and> frames_same R (mram c) (mram c') \<and> frames_same S (act c) (act c')"

lemma confinedI:
  "keeps R S c c' \<Longrightarrow> confined R S c c'" "extends R S c c' \<Longrightarrow> confined R S c c'"
  "stores R S a b c c' \<Longrightarrow> confined R S c c'" "confined R S c c"
  by (simp_all add: confined_def keeps_def extends_def stores_def) (simp add: env_same_def frames_same_def)

lemma liballoc_ok:
  assumes "vm_ok R S c" and "fits c (sint sz) \<or> sint sz \<le> 0"
  shows "\<exists>rc c'. liballoc c sz i = Inr (rc, c') \<and> vm_ok R S c' \<and> confined R S c c'"
proof (cases "0 \<le> sint i \<and> sint i < 30 \<and> 0 < sint sz")
  case True
  then have i: "0 \<le> sint i" "sint i < 30" "0 < sint sz" "sint sz \<le> 2147483647" "fits c (sint sz)"
    using assms(2) sint_int_range(2) [of sz] by (auto simp: INT_MAX_def)
  from assms(1) i show ?thesis
    by (cases rule: u_alloc_spec) (auto simp: liballoc_eq [OF assms] intro: confinedI)
next
  case False
  then have "u_alloc c 0 (sint i) (sint sz) = Inr (- 1, None, c)"
    by (auto simp: u_alloc_def PAGING_MAX_SYMTBL_SZ_def)
  then show ?thesis
    using assms(1) by (simp add: liballoc_eq [OF assms] confinedI)
qed

lemma libfree_ok:
  assumes "vm_ok R S c"
  shows "\<exists>rc c'. libfree c i = Inr (rc, c') \<and> vm_ok R S c' \<and> confined R S c c'"
proof -
  have m: "map_ok c"
    using assms by (simp add: vm_ok_def)
  consider (a) "\<not> (0 \<le> sint i \<and> sint i < 30)" | (b) "0 \<le> sint i" "sint i < 30" "symrg c (nat (sint i)) = null_rg"
    | (c) "0 \<le> sint i" "sint i < 30" "symrg c (nat (sint i)) \<noteq> null_rg"
    by auto
  then show ?thesis
  proof cases
    case a
    then have "u_free c 0 (sint i) = Inr (- 1, c)"
      by (auto simp: u_free_def PAGING_MAX_SYMTBL_SZ_def)
    then show ?thesis
      using assms by (simp add: libfree_eq [OF assms] confinedI)
  next
    case b
    then show ?thesis
      using assms u_free_null [OF m b] by (simp add: libfree_eq [OF assms] confinedI)
  next
    case c
    show ?thesis
      by (rule u_free_spec [OF assms c]) (auto simp: libfree_eq [OF assms] intro: confinedI)
  qed
qed

lemma libread_ok:
  assumes "vm_ok R S c"
  shows "\<exists>rc v c'. libread c i off = Inr (rc, v, c') \<and> vm_ok R S c' \<and> confined R S c c'"
proof -
  have k: "offset_ok (sint i, sint off)"
    using sint_int_range by simp
  from assms k show ?thesis
    by (cases rule: rd_region_spec) (use assms in \<open>auto simp: libread_eq [OF assms] intro: confinedI\<close>)
qed

lemma libwrite_ok:
  assumes "vm_ok R S c"
  shows "\<exists>rc c'. libwrite c b i off = Inr (rc, c') \<and> vm_ok R S c' \<and> confined R S c c'"
proof -
  have k: "offset_ok (sint i, sint off)"
    using sint_int_range by simp
  from assms k show ?thesis
    by (cases rule: wr_region_spec [where b = b]) (use assms in \<open>auto simp: libwrite_eq [OF assms] intro: confinedI\<close>)
qed

lemma lib_step_ok: "lib_step c c' \<Longrightarrow> vm_ok R S c \<Longrightarrow> vm_ok R S c' \<and> confined R S c c'"
proof (induction rule: lib_step.induct)
  case (lib_alloc c sz i rc c')
  then show ?case using liballoc_ok [of R S c sz i] by auto
next
  case (lib_free c i rc c')
  then show ?case using libfree_ok [of R S c i] by auto
next
  case (lib_read c i off rc v c')
  then show ?case using libread_ok [of R S c i off] by auto
next
  case (lib_write c b i off rc c')
  then show ?case using libwrite_ok [of R S c b i off] by auto
qed

interpretation lib_inv: transition_invariant lib_step "vm_ok R S" for R S
  by unfold_locales (use lib_step_ok in blast)

text \<open>
  C25. Whatever library calls a process has made, each further call is defined: it returns a code and
  a consistent state. The invariant holds in every reachable state.
\<close>

theorem library_safe:
  assumes "vm_ok R S c0" and "lib_step\<^sup>*\<^sup>* c0 c"
  shows "vm_ok R S c \<and> (\<exists>x. libfree c i = Inr x) \<and> (\<exists>x. libread c i off = Inr x) \<and>
    (\<exists>x. libwrite c b i off = Inr x) \<and>
    (fits c (sint sz) \<or> sint sz \<le> 0 \<longrightarrow> (\<exists>x. liballoc c sz i = Inr x))"
proof -
  have ok: "vm_ok R S c"
    using lib_inv.steps_inv [OF assms(2,1)] .
  then show ?thesis
    using liballoc_ok [OF ok, of sz i] libfree_ok [OF ok, of i] libread_ok [OF ok, of i off]
      libwrite_ok [OF ok, of b i off] by auto
qed

theorem library_safe_witness:
  "\<exists>c. lib_step\<^sup>*\<^sup>* m0 c \<and> c \<noteq> m0 \<and> vm_ok {} {} c \<and> (\<exists>x. libwrite c 7 0 5 = Inr x)"
proof -
  obtain rc c where c: "liballoc m0 512 0 = Inr (rc, c)"
    using liballoc_ok [OF m0_ok, of 512 0] by (auto simp: m0_facts)
  have "lib_step m0 c"
    using c by (rule lib_step.lib_alloc) (simp add: m0_facts)
  then have st: "lib_step\<^sup>*\<^sup>* m0 c"
    by (rule r_into_rtranclp)
  have "case liballoc m0 512 0 of Inr (_, c) \<Rightarrow> fifo_pgn (mm c) \<noteq> fifo_pgn (mm m0) | Inl _ \<Rightarrow> False"
    by code_simp
  then have "c \<noteq> m0"
    using c by auto
  with st library_safe [OF m0_ok st, of 0 5 7] show ?thesis
    by blast
qed

text \<open>
  C24. At the end of a process \<open>free_pcb_memph\<close> returns all its memory: afterwards the free lists of
  RAM and swap hold every frame that does not belong to another process, each once, no page is mapped
  and no byte of the devices has changed.
\<close>

theorem release_all_frames:
  assumes "vm_ok R S c"
  shows "\<exists>c'. free_pcb_memph c = Inr c' \<and> (\<forall>p. \<not> mapped c' p) \<and>
    distinct (free_fp_list (mram c')) \<and> set (free_fp_list (mram c')) = {0..<nframes (mram c)} - R \<and>
    distinct (free_fp_list (act c')) \<and> set (free_fp_list (act c')) = {0..<nframes (act c)} - S \<and>
    storage (mram c') = storage (mram c) \<and> storage (act c') = storage (act c)"
proof -
  have "paging_ok R S c"
    using assms by (simp add: vm_ok_def)
  then show ?thesis
    by (rule free_pcb_memph_spec) (auto simp: cells_same_def)
qed

theorem release_all_frames_witness:
  "\<exists>c'. free_pcb_memph m1 = Inr c' \<and> (\<forall>p. \<not> mapped c' p) \<and>
    set (free_fp_list (mram c')) = {0..<nframes (mram m1)}"
  using release_all_frames [OF m1_ok] by auto

subsection \<open>The end of the address space\<close>

lemma grow_past_end_run:
  assumes mok: "map_ok c" and lim: "limit c = 4194304" and fl: "free_fp_list (mram c) = f # fl"
  defines "mp \<equiv> (mm c)\<lparr>pgd := (pgd (mm c))(0 := pte_set_fpn (pgd (mm c) 0) f), fifo_pgn := 0 # fifo_pgn (mm c)\<rparr>"
    and "v \<equiv> (area0 c)\<lparr>vm_end := 4194560, sbrk := 4194560,
      vm_freerg_list := give_back (frees c) \<lparr>rg_start = 4194304, rg_end = 4194560\<rparr>\<rparr>"
  shows "inc_vma_limit c 0 256 =
    Inr (0, c\<lparr>mram := (mram c)\<lparr>free_fp_list := fl\<rparr>, mm := mp\<lparr>mmap := [v]\<rparr>\<rparr>)"
proof -
  note M = map_okD [OF mok]
  have align: "PAGING_PAGE_ALIGNSZ 256 = Inr 256"
    by (subst PAGING_PAGE_ALIGNSZ_eq) (simp_all add: INT_MAX_def PAGING_PAGESZ_def)
  have np: "c_div 256 PAGING_PAGESZ = 1"
    by (simp add: PAGING_PAGESZ_def c_div_def)
  have ov: "\<not> validate_overlap_vm_area c 0 4194304 4194560 < 0"
    unfolding validate_overlap_vm_area_def by (subst M(1)) (simp add: M(2) ul_def)
  have pg: "PAGING_PGN 4194304 = 0"
    using PAGING_PGN_eq [of 4194304] by simp
  have alloc: "alloc_pages_range c 1 = Inr (0, [f], c\<lparr>mram := (mram c)\<lparr>free_fp_list := fl\<rparr>\<rparr>)"
    unfolding alloc_pages_range_def
    by (subst alloc_pages_loop.simps, subst alloc_pages_loop.simps) (simp add: MEMPHY_get_freefp_def fl)
  have map: "vm_map_ram c 4194304 4194560 4194304 1 = Inr (0, Some \<lparr>rg_start = 4194304, rg_end = 4194560\<rparr>,
      c\<lparr>mram := (mram c)\<lparr>free_fp_list := fl\<rparr>, mm := mp\<rparr>)"
    by (simp add: vm_map_ram_def alloc vmap_page_range_def pg pgd_get_def pgd_set_def PAGING_MAX_PGN_eq
        PAGING_PAGESZ_def chk_int_small ul_small enlist_pgn_node_def mp_def)
  have mmp: "mmap mp = [area0 c]"
    using M(1) by (simp add: mp_def)
  show ?thesis
    unfolding inc_vma_limit_def Let_def
    by (simp add: align np get_vm_area_node_at_brk_def M(2,3,9) lim to_int_small ul_small ov map upd_vma_def mmp
        enlist_vm_freerg_list_eq v_def)
qed

text \<open>
  C22. Nothing stops the area at the end of the 4 MB address space. When a process that has mapped all
  of it grows once more, the call succeeds, but the page number of the new page wraps to 0: the entry
  of page 0 is overwritten with the new frame, what the process had stored there is lost, the old
  frame of page 0 is never returned, and the invariant is broken.
\<close>

theorem address_space_wraps:
  assumes "vm_ok R S c" and "limit c = 4194304" and "free_fp_list (mram c) = f # fl"
  shows "\<exists>c'. inc_vma_limit c 0 256 = Inr (0, c') \<and> limit c' = 4194560 \<and>
    (\<forall>i \<in> {0..<256}. vmem c' i = Some (storage (mram c) (f * 256 + i))) \<and>
    (resident c 0 \<longrightarrow> fpn_of c 0 \<notin> set (free_fp_list (mram c')) \<and> (\<forall>p. resident c' p \<longrightarrow> fpn_of c' p \<noteq> fpn_of c 0)) \<and>
    (\<forall>R' S'. \<not> vm_ok R' S' c')"
proof -
  have inv: "paging_ok R S c" and mok: "map_ok c"
    using assms(1) by (simp_all add: vm_ok_def)
  note D = paging_okD [OF inv]
  obtain c' where run: "inc_vma_limit c 0 256 = Inr (0, c')" and lim: "limit c' = 4194560"
      and c': "pgd (mm c') = (pgd (mm c))(0 := pte_set_fpn (pgd (mm c) 0) f)"
        "storage (mram c') = storage (mram c)" "free_fp_list (mram c') = fl"
    using grow_past_end_run [OF mok assms(2,3)] by (auto simp: area0_def)
  have f: "0 \<le> f" "f < 8192"
    using pool_ok_range(1) [OF D(4), of f] assms(3) D(2) by (auto simp: dev_ok_def)
  then have p0: "resident c' 0" "fpn_of c' 0 = f"
    by (simp_all add: page_state_defs c'(1) PAGING_MAX_PGN_eq)
  have other: "resident c' p \<longleftrightarrow> resident c p" "fpn_of c' p = fpn_of c p" if "p \<noteq> 0" for p
    using that by (simp_all add: page_state_defs c'(1))
  have "fpn_of c 0 \<notin> set fl \<and> f \<noteq> fpn_of c 0 \<and> (\<forall>p. resident c p \<longrightarrow> p \<noteq> 0 \<longrightarrow> fpn_of c p \<noteq> fpn_of c 0)"
    if "resident c 0"
    using D(4) that unfolding assms(3) by (auto simp: pool_ok_def inj_on_def)
  then have "fpn_of c 0 \<notin> set fl \<and> (\<forall>p. resident c' p \<longrightarrow> fpn_of c' p \<noteq> fpn_of c 0)" if "resident c 0"
    using that other p0(2) by metis
  moreover have "\<forall>i \<in> {0..<256}. vmem c' i = Some (storage (mram c) (f * 256 + i))"
    using p0 by (simp add: vmem_def page_byte_def c'(2))
  moreover have "\<not> vm_ok R' S' c'" for R' S'
    using lim map_okD(5) [of c'] by (auto simp: vm_ok_def)
  ultimately show ?thesis
    using run lim c'(3) by auto
qed

theorem address_space_wraps_witness:
  "\<exists>c'. inc_vma_limit full 0 256 = Inr (0, c') \<and> limit c' = 4194560 \<and> \<not> vm_ok {} {} c'"
proof -
  have "free_fp_list (mram full) = 0 # []"
    by (simp add: full_facts)
  then show ?thesis
    using address_space_wraps [OF full_ok full_facts(4)] by blast
qed

end
