(* ===== verification/Isolation.thy ===== *)
theory Isolation
  imports Memory
begin

text \<open>
  All processes of the simulator share one RAM and the swap devices. \<open>memsys\<close> is that shared
  memory with the memory maps of the live processes; \<open>ctx s i\<close> is what process \<open>i\<close> sees of it,
  set up as \<open>ld_routine\<close> does: the same devices and the same active swap device for all. Library
  calls of different processes are interleaved in any order, since each holds \<open>mmvm_lock\<close>.

  \<open>sys_ok\<close> says that every frame of every device has exactly one owner, a process or the free list.
  Loading a process, any library call and the end of a process keep it, and the calls of one process
  never change a byte another process sees.
\<close>

record memsys =
  live :: "nat set"
  mms :: "nat \<Rightarrow> mm_struct"
  ram :: memphy_struct
  swaps :: "memphy_struct list"

definition ctx :: "memsys \<Rightarrow> nat \<Rightarrow> vmctx" where
  "ctx s i = \<lparr>mm = mms s i, mram = ram s, mswp = swaps s, active_mswp = 0, active_mswp_id = 0\<rparr>"

definition put_ctx :: "memsys \<Rightarrow> nat \<Rightarrow> vmctx \<Rightarrow> memsys" where
  "put_ctx s i c = s\<lparr>mms := (mms s)(i := mm c), ram := mram c, swaps := mswp c\<rparr>"

definition ram_frames :: "mm_struct \<Rightarrow> int set" where
  "ram_frames m = {PAGING_FPN (pgd m p) | p. 0 \<le> p \<and> p < PAGING_MAX_PGN \<and>
     PAGING_PAGE_PRESENT (pgd m p) \<and> \<not> PAGING_PAGE_SWAPPED (pgd m p)}"

definition swp_frames :: "mm_struct \<Rightarrow> int set" where
  "swp_frames m = {PAGING_PTE_SWP (pgd m p) | p. 0 \<le> p \<and> p < PAGING_MAX_PGN \<and>
     PAGING_PAGE_PRESENT (pgd m p) \<and> PAGING_PAGE_SWAPPED (pgd m p)}"

definition ram_of :: "memsys \<Rightarrow> nat set \<Rightarrow> int set" where
  "ram_of s P = (\<Union>j \<in> P. ram_frames (mms s j))"

definition swp_of_procs :: "memsys \<Rightarrow> nat set \<Rightarrow> int set" where
  "swp_of_procs s P = (\<Union>j \<in> P. swp_frames (mms s j))"

definition sys_ok :: "memsys \<Rightarrow> bool" where
  "sys_ok s \<longleftrightarrow> swaps s \<noteq> [] \<and> dev_ok (ram s) 8192 \<and> dev_ok (swaps s ! 0) 2097152 \<and>
     distinct (free_fp_list (ram s)) \<and>
     set (free_fp_list (ram s)) = {0..<nframes (ram s)} - ram_of s (live s) \<and>
     distinct (free_fp_list (swaps s ! 0)) \<and>
     set (free_fp_list (swaps s ! 0)) = {0..<nframes (swaps s ! 0)} - swp_of_procs s (live s) \<and>
     (\<forall>i \<in> live s. vm_ok (ram_of s (live s - {i})) (swp_of_procs s (live s - {i})) (ctx s i))"

subsection \<open>What depends on the memory map only\<close>

lemma ctx_simps [simp]:
  "mm (ctx s i) = mms s i" "mram (ctx s i) = ram s" "mswp (ctx s i) = swaps s"
  "active_mswp (ctx s i) = 0" "active_mswp_id (ctx s i) = 0"
  by (simp_all add: ctx_def)

lemma put_ctx_simps [simp]:
  "live (put_ctx s i c) = live s" "mms (put_ctx s i c) = (mms s)(i := mm c)"
  "ram (put_ctx s i c) = mram c" "swaps (put_ctx s i c) = mswp c"
  by (simp_all add: put_ctx_def)

lemma frames_ctx:
  "fpn_of c ` {p. resident c p} = ram_frames (mm c)" "swp_of c ` {p. swapped c p} = swp_frames (mm c)"
  by (auto simp: ram_frames_def swp_frames_def page_state_defs)

lemma page_state_cong:
  assumes "mm c' = mm c"
  shows "mapped c' = mapped c" "resident c' = resident c" "swapped c' = swapped c"
    "fpn_of c' = fpn_of c" "swp_of c' = swp_of c" "map_ok c' = map_ok c"
proof -
  show m: "mapped c' = mapped c"
    using assms by (simp add: fun_eq_iff mapped_def)
  show "resident c' = resident c" "swapped c' = swapped c" "fpn_of c' = fpn_of c" "swp_of c' = swp_of c"
    using assms by (simp_all add: fun_eq_iff resident_def swapped_def fpn_of_def swp_of_def m)
  show "map_ok c' = map_ok c"
    using assms by (simp add: map_ok_def m area0_def)
qed

lemma ram_of_upd:
  assumes "i \<notin> P"
  shows "ram_of (put_ctx s i c) P = ram_of s P" "swp_of_procs (put_ctx s i c) P = swp_of_procs s P"
proof -
  show "ram_of (put_ctx s i c) P = ram_of s P"
    unfolding ram_of_def by (rule SUP_cong) (use assms in auto)
  show "swp_of_procs (put_ctx s i c) P = swp_of_procs s P"
    unfolding swp_of_procs_def by (rule SUP_cong) (use assms in auto)
qed

lemma pool_ok_iff:
  "pool_ok n fl A own X \<longleftrightarrow> distinct fl \<and> inj_on own A \<and> own ` A \<inter> X = {} \<and> own ` A \<union> X \<subseteq> {0..<n} \<and>
     set fl = {0..<n} - (own ` A \<union> X)"
  by (auto simp: pool_ok_def)

text \<open>
  The memory of process \<open>j\<close> after the devices changed under it: the free lists now go with a new set
  of foreign frames, and the bytes of its own frames are the same.
\<close>

lemma paging_ok_move:
  assumes ok: "paging_ok R S c" and mm: "mm c' = mm c" and env: "env_same c c'"
    and ram: "distinct (free_fp_list (mram c'))" "ram_frames (mm c) \<inter> R' = {}"
      "ram_frames (mm c) \<union> R' \<subseteq> {0..<nframes (mram c)}"
      "set (free_fp_list (mram c')) = {0..<nframes (mram c)} - (ram_frames (mm c) \<union> R')"
    and swp: "distinct (free_fp_list (act c'))" "swp_frames (mm c) \<inter> S' = {}"
      "swp_frames (mm c) \<union> S' \<subseteq> {0..<nframes (act c)}"
      "set (free_fp_list (act c')) = {0..<nframes (act c)} - (swp_frames (mm c) \<union> S')"
  shows "paging_ok R' S' c'"
proof -
  note D = paging_okD [OF ok] and C = page_state_cong [OF mm] and N = env_same_nframes [OF env]
  have "inj_on (fpn_of c) {p. resident c p}" "inj_on (swp_of c) {p. swapped c p}"
    using D(4,5) by (simp_all add: pool_ok_def)
  then have "pool_ok (nframes (mram c)) (free_fp_list (mram c')) {p. resident c p} (fpn_of c) R'"
      "pool_ok (nframes (act c)) (free_fp_list (act c')) {p. swapped c p} (swp_of c) S'"
    using ram swp by (simp_all add: pool_ok_iff frames_ctx)
  then show ?thesis
    unfolding paging_ok_def C N using D env mm
    by (auto simp: env_same_def active_ok_def dev_ok_def nframes_def)
qed

lemma vmem_move:
  assumes "mm c' = mm c" and "frames_same (ram_frames (mm c)) (mram c) (mram c')"
    and "frames_same (swp_frames (mm c)) (act c) (act c')"
  shows "vmem c' = vmem c"
proof
  fix a
  have "resident c p \<Longrightarrow> fpn_of c p \<in> ram_frames (mm c)" "swapped c p \<Longrightarrow> swp_of c p \<in> swp_frames (mm c)" for p
    unfolding frames_ctx [symmetric] by blast+
  then show "vmem c' a = vmem c a"
    using assms(2,3) page_state_cong [OF assms(1)]
    by (auto simp: vmem_def page_byte_def frames_same_def)
qed

subsection \<open>The calls of one process\<close>

lemma ram_of_split:
  assumes "i \<in> P"
  shows "ram_of s P = ram_frames (mms s i) \<union> ram_of s (P - {i})"
    "swp_of_procs s P = swp_frames (mms s i) \<union> swp_of_procs s (P - {i})"
  using assms by (auto simp: ram_of_def swp_of_procs_def)

lemma vm_ok_pools:
  assumes "vm_ok R S c"
  shows "distinct (free_fp_list (mram c))" "ram_frames (mm c) \<inter> R = {}"
    "ram_frames (mm c) \<union> R \<subseteq> {0..<nframes (mram c)}"
    "set (free_fp_list (mram c)) = {0..<nframes (mram c)} - (ram_frames (mm c) \<union> R)"
    "distinct (free_fp_list (act c))" "swp_frames (mm c) \<inter> S = {}"
    "swp_frames (mm c) \<union> S \<subseteq> {0..<nframes (act c)}"
    "set (free_fp_list (act c)) = {0..<nframes (act c)} - (swp_frames (mm c) \<union> S)"
  using assms paging_okD(4,5) [of R S c] by (simp_all add: vm_ok_def pool_ok_iff frames_ctx)

lemma vm_ok_inj:
  assumes "vm_ok R S c"
  shows "inj_on (fpn_of c) {pg. resident c pg}" "inj_on (swp_of c) {pg. swapped c pg}"
  using assms paging_okD(4,5) [of R S c] by (simp_all add: vm_ok_def pool_ok_def)

lemma put_ctx_self:
  assumes "env_same (ctx s i) c"
  shows "ctx (put_ctx s i c) i = c"
  using assms by (simp add: ctx_def env_same_def)

lemma other_process:
  assumes ok: "sys_ok s" and i: "i \<in> live s" and j: "j \<in> live s" "j \<noteq> i"
    and c: "vm_ok (ram_of s (live s - {i})) (swp_of_procs s (live s - {i})) c"
    and conf: "confined (ram_of s (live s - {i})) (swp_of_procs s (live s - {i})) (ctx s i) c"
  shows "vm_ok (ram_of (put_ctx s i c) (live s - {j})) (swp_of_procs (put_ctx s i c) (live s - {j}))
      (ctx (put_ctx s i c) j)"
    and "vmem (ctx (put_ctx s i c) j) = vmem (ctx s j)"
proof -
  let ?s = "put_ctx s i c" and ?L = "live s - {i, j}"
  have P: "i \<in> live s - {j}" "j \<in> live s - {i}" "i \<notin> ?L" "live s - {j} - {i} = ?L" "live s - {i} - {j} = ?L"
    using i j by auto
  have env: "env_same (ctx s i) c" and same: "frames_same (ram_of s (live s - {i})) (ram s) (mram c)"
      "frames_same (swp_of_procs s (live s - {i})) (swaps s ! 0) (mswp c ! active_mswp c)"
    using conf by (simp_all add: confined_def)
  have act: "active_mswp c = 0"
    using env by (simp add: env_same_def)
  have others: "ram_of s (live s - {i}) = ram_frames (mms s j) \<union> ram_of s ?L"
      "swp_of_procs s (live s - {i}) = swp_frames (mms s j) \<union> swp_of_procs s ?L"
    using ram_of_split [OF P(2), of s] P(5) by simp_all
  have mine: "ram_of ?s (live s - {j}) = ram_frames (mm c) \<union> ram_of s ?L"
      "swp_of_procs ?s (live s - {j}) = swp_frames (mm c) \<union> swp_of_procs s ?L"
    using ram_of_split [OF P(1), of ?s] P(4) ram_of_upd [OF P(3), of s c] by simp_all
  have old: "vm_ok (ram_of s (live s - {j})) (swp_of_procs s (live s - {j})) (ctx s j)"
    using ok j(1) by (simp add: sys_ok_def)
  have disj: "ram_frames (mms s j) \<inter> ram_of s ?L = {}" "swp_frames (mms s j) \<inter> swp_of_procs s ?L = {}"
    using vm_ok_pools(2,6) [OF old] ram_of_split [OF P(1), of s] P(4) by auto
  have envj: "env_same (ctx s j) (ctx ?s j)"
    using env act by (auto simp: env_same_def)
  note N = env_same_nframes [OF env] and V = vm_ok_pools [OF c]
  have pg: "paging_ok (ram_of ?s (live s - {j})) (swp_of_procs ?s (live s - {j})) (ctx ?s j)"
    by (rule paging_ok_move [OF _ _ envj]) (use old j V N act disj in \<open>auto simp: vm_ok_def mine others\<close>)
  have mj: "mm (ctx ?s j) = mm (ctx s j)"
    using j(2) by simp
  with pg old show "vm_ok (ram_of ?s (live s - {j})) (swp_of_procs ?s (live s - {j})) (ctx ?s j)"
    using page_state_cong(6) [OF mj] by (simp add: vm_ok_def)
  show "vmem (ctx ?s j) = vmem (ctx s j)"
    by (rule vmem_move [OF mj]) (use same act in \<open>auto simp: frames_same_def others\<close>)
qed

lemma sys_okD:
  assumes "sys_ok s"
  shows "swaps s \<noteq> []" "dev_ok (ram s) 8192" "dev_ok (swaps s ! 0) 2097152" "distinct (free_fp_list (ram s))"
    "set (free_fp_list (ram s)) = {0..<nframes (ram s)} - ram_of s (live s)"
    "distinct (free_fp_list (swaps s ! 0))"
    "set (free_fp_list (swaps s ! 0)) = {0..<nframes (swaps s ! 0)} - swp_of_procs s (live s)"
    "i \<in> live s \<Longrightarrow> vm_ok (ram_of s (live s - {i})) (swp_of_procs s (live s - {i})) (ctx s i)"
    "ram_of s (live s) \<subseteq> {0..<nframes (ram s)}" "swp_of_procs s (live s) \<subseteq> {0..<nframes (swaps s ! 0)}"
proof -
  show ne: "swaps s \<noteq> []"
    using assms by (simp add: sys_ok_def)
  show ok: "i \<in> live s \<Longrightarrow> vm_ok (ram_of s (live s - {i})) (swp_of_procs s (live s - {i})) (ctx s i)" for i
    using assms by (simp add: sys_ok_def)
  show "ram_of s (live s) \<subseteq> {0..<nframes (ram s)}" "swp_of_procs s (live s) \<subseteq> {0..<nframes (swaps s ! 0)}"
    using vm_ok_pools(3,7) [OF ok] by (fastforce simp: ram_of_def swp_of_procs_def)+
qed (use assms in \<open>simp_all add: sys_ok_def\<close>)

lemma sys_okI:
  assumes "swaps s \<noteq> []" "dev_ok (ram s) 8192" "dev_ok (swaps s ! 0) 2097152" "distinct (free_fp_list (ram s))"
    "set (free_fp_list (ram s)) = {0..<nframes (ram s)} - ram_of s (live s)"
    "distinct (free_fp_list (swaps s ! 0))"
    "set (free_fp_list (swaps s ! 0)) = {0..<nframes (swaps s ! 0)} - swp_of_procs s (live s)"
    "\<And>i. i \<in> live s \<Longrightarrow> vm_ok (ram_of s (live s - {i})) (swp_of_procs s (live s - {i})) (ctx s i)"
  shows "sys_ok s"
  using assms by (simp add: sys_ok_def)

lemma put_ctx_ok:
  assumes ok: "sys_ok s" and i: "i \<in> live s"
    and c: "vm_ok (ram_of s (live s - {i})) (swp_of_procs s (live s - {i})) c"
    and conf: "confined (ram_of s (live s - {i})) (swp_of_procs s (live s - {i})) (ctx s i) c"
  shows "sys_ok (put_ctx s i c)"
proof -
  let ?s = "put_ctx s i c"
  have env: "env_same (ctx s i) c"
    using conf by (simp add: confined_def)
  have act: "active_mswp c = 0" and len: "mswp c \<noteq> []"
    using env sys_okD(1) [OF ok] by (auto simp: env_same_def)
  note D = paging_okD [of "ram_of s (live s - {i})" "swp_of_procs s (live s - {i})" c] and V = vm_ok_pools [OF c]
  have mine: "ram_of ?s (live s) = ram_frames (mm c) \<union> ram_of s (live s - {i})"
      "swp_of_procs ?s (live s) = swp_frames (mm c) \<union> swp_of_procs s (live s - {i})"
    using ram_of_split [OF i, of ?s] ram_of_upd [of i "live s - {i}" s c] by simp_all
  show ?thesis
  proof (rule sys_okI)
    fix j
    assume "j \<in> live ?s"
    then show "vm_ok (ram_of ?s (live ?s - {j})) (swp_of_procs ?s (live ?s - {j})) (ctx ?s j)"
      using other_process(1) [OF ok i _ _ c conf, of j] put_ctx_self [OF env] c
        ram_of_upd [of i "live s - {i}" s c] by (cases "j = i") auto
  qed (use V D(2,3) c act len mine in \<open>auto simp: vm_ok_def\<close>)
qed

subsection \<open>Loading and ending processes\<close>

definition load_proc :: "memsys \<Rightarrow> nat \<Rightarrow> memsys" where
  "load_proc s j = s\<lparr>live := insert j (live s), mms := (mms s)(j := init_mm)\<rparr>"

definition end_proc :: "memsys \<Rightarrow> nat \<Rightarrow> vmctx \<Rightarrow> memsys" where
  "end_proc s i c = s\<lparr>live := live s - {i}, ram := mram c, swaps := mswp c\<rparr>"

lemma init_mm_frames: "ram_frames init_mm = {}" "swp_frames init_mm = {}"
  by (simp_all add: ram_frames_def swp_frames_def init_mm_simps)

lemma load_frames:
  "j \<notin> P \<Longrightarrow> ram_of (load_proc s j) P = ram_of s P" "j \<notin> P \<Longrightarrow> swp_of_procs (load_proc s j) P = swp_of_procs s P"
  "ram_of (load_proc s j) P = ram_of (load_proc s j) (P - {j})"
  "swp_of_procs (load_proc s j) P = swp_of_procs (load_proc s j) (P - {j})"
  by (auto simp: ram_of_def swp_of_procs_def load_proc_def init_mm_frames split: if_splits)

lemma load_proc_ok:
  assumes ok: "sys_ok s" and j: "j \<notin> live s"
  shows "sys_ok (load_proc s j)"
proof -
  let ?s = "load_proc s j"
  note D = sys_okD [OF ok]
  have dev: "ram ?s = ram s" "swaps ?s = swaps s" "live ?s = insert j (live s)"
    by (simp_all add: load_proc_def)
  have all: "ram_of ?s (live ?s) = ram_of s (live s)" "swp_of_procs ?s (live ?s) = swp_of_procs s (live s)"
    using j load_frames(3,4) [of s j "live ?s"] load_frames(1,2) [of j "live s" s] by (simp_all add: dev)
  have new: "vm_ok ({0..<nframes (mram (ctx ?s j))} - set (free_fp_list (mram (ctx ?s j))))
      ({0..<nframes (act (ctx ?s j))} - set (free_fp_list (act (ctx ?s j)))) (ctx ?s j)"
    by (rule fresh_ok) (use D in \<open>auto simp: dev load_proc_def active_ok_def\<close>)
  show ?thesis
  proof (rule sys_okI)
    fix i
    assume i: "i \<in> live ?s"
    show "vm_ok (ram_of ?s (live ?s - {i})) (swp_of_procs ?s (live ?s - {i})) (ctx ?s i)"
    proof (cases "i = j")
      case True
      moreover have "live ?s - {j} = live s"
        using j by (auto simp: dev)
      ultimately show ?thesis
        using new D(5,7,9,10) load_frames(1,2) [OF j, of s] by (simp add: dev double_diff)
    next
      case False
      then have "live ?s - {i} - {j} = live s - {i}" "j \<notin> live s - {i}" "ctx ?s i = ctx s i" "i \<in> live s"
        using j i by (auto simp: dev ctx_def load_proc_def)
      then show ?thesis
        using D(8) [of i] load_frames(1,2) [of j "live s - {i}" s] load_frames(3,4) [of s j "live ?s - {i}"] by simp
    qed
  qed (use D all in \<open>simp_all add: dev\<close>)
qed

lemma end_proc_ok:
  assumes ok: "sys_ok s" and i: "i \<in> live s" and c: "free_pcb_memph (ctx s i) = Inr c"
  shows "sys_ok (end_proc s i c)" and "j \<in> live s \<Longrightarrow> j \<noteq> i \<Longrightarrow> vmem (ctx (end_proc s i c) j) = vmem (ctx s j)"
proof -
  let ?s = "end_proc s i c"
  note D = sys_okD [OF ok]
  have "paging_ok (ram_of s (live s - {i})) (swp_of_procs s (live s - {i})) (ctx s i)"
    using D(8) [OF i] by (simp add: vm_ok_def)
  then obtain F: "cells_same (ctx s i) c" "distinct (free_fp_list (mram c))"
      "set (free_fp_list (mram c)) = {0..<nframes (ram s)} - ram_of s (live s - {i})"
      "distinct (free_fp_list (act c))"
      "set (free_fp_list (act c)) = {0..<nframes (swaps s ! 0)} - swp_of_procs s (live s - {i})"
    by (rule free_pcb_memph_spec) (use c in auto)
  have env: "env_same (ctx s i) c" and act: "active_mswp c = 0"
    using F(1) by (auto simp: cells_same_def env_same_def)
  have envj: "env_same (ctx s j) (ctx ?s j)" for j
    using env by (auto simp: env_same_def end_proc_def)
  note N = env_same_nframes [OF env]
  have fr: "ram_of ?s P = ram_of s P" "swp_of_procs ?s P = swp_of_procs s P" for P
    by (simp_all add: ram_of_def swp_of_procs_def end_proc_def)
  show "vmem (ctx ?s j) = vmem (ctx s j)" if "j \<in> live s" "j \<noteq> i"
    by (rule vmem_move) (use F(1) act in \<open>auto simp: cells_same_def end_proc_def frames_same_def\<close>)
  show "sys_ok ?s"
  proof (rule sys_okI)
    fix j
    assume "j \<in> live ?s"
    then have j: "j \<in> live s" "j \<noteq> i" "j \<in> live s - {i}"
      by (auto simp: end_proc_def)
    have L: "live ?s - {j} = live s - {i} - {j}"
      by (auto simp: end_proc_def)
    have "ram_of s (live s - {i} - {j}) \<subseteq> ram_of s (live s - {j})"
        "swp_of_procs s (live s - {i} - {j}) \<subseteq> swp_of_procs s (live s - {j})"
      by (auto simp: ram_of_def swp_of_procs_def)
    then have "paging_ok (ram_of ?s (live ?s - {j})) (swp_of_procs ?s (live ?s - {j})) (ctx ?s j)"
      unfolding L fr using vm_ok_pools [OF D(8) [OF j(1)]] D(8) [OF j(1)] F(2-5) act
        ram_of_split [OF j(3), of s] N
      by (intro paging_ok_move [OF _ _ envj [of j]]) (auto simp: vm_ok_def end_proc_def)
    then show "vm_ok (ram_of ?s (live ?s - {j})) (swp_of_procs ?s (live ?s - {j})) (ctx ?s j)"
      using D(8) [OF j(1)] page_state_cong(6) [of "ctx ?s j" "ctx s j"] by (simp add: vm_ok_def end_proc_def)
  qed (use F D(1-3) env act N in \<open>auto simp: end_proc_def fr [unfolded end_proc_def] env_same_def dev_ok_def\<close>)
qed

subsection \<open>Interleaved processes\<close>

inductive sys_step :: "memsys \<Rightarrow> memsys \<Rightarrow> bool" where
  load_step: "j \<notin> live s \<Longrightarrow> sys_step s (load_proc s j)"
| call_step: "i \<in> live s \<Longrightarrow> lib_step (ctx s i) c \<Longrightarrow> sys_step s (put_ctx s i c)"
| end_step: "i \<in> live s \<Longrightarrow> free_pcb_memph (ctx s i) = Inr c \<Longrightarrow> sys_step s (end_proc s i c)"

inductive_cases sys_stepE: "sys_step s s'"

lemma sys_step_ok: "sys_step s s' \<Longrightarrow> sys_ok s \<Longrightarrow> sys_ok s'"
proof (induction rule: sys_step.induct)
  case (load_step j s)
  then show ?case by (intro load_proc_ok)
next
  case (call_step i s c)
  then show ?case
    using lib_step_ok [OF call_step(2) sys_okD(8)] by (intro put_ctx_ok) blast+
next
  case (end_step i s c)
  then show ?case by (intro end_proc_ok(1))
qed

interpretation sys_inv: transition_invariant sys_step sys_ok
  by unfold_locales (rule sys_step_ok)

definition boot :: "memphy_struct \<Rightarrow> memphy_struct list \<Rightarrow> memsys" where
  "boot r ws = \<lparr>live = {}, mms = (\<lambda>_. init_mm), ram = r, swaps = ws\<rparr>"

lemma boot_ok:
  assumes "init_memphy d0 rsz 1 = Inr r" and "init_memphy d1 ssz 1 = Inr w"
    and "0 \<le> rsz" "rsz \<le> 2097152" and "0 \<le> ssz" "ssz \<le> 536870912"
  shows "sys_ok (boot r (w # ws))"
proof -
  have r: "maxsz r = rsz" "free_fp_list r = [0..rsz div 256 - 1]" "maxsz w = ssz" "free_fp_list w = [0..ssz div 256 - 1]"
    using init_memphy_eq [OF assms(3), of d0 1] init_memphy_eq [OF assms(5), of d1 1] assms(1,2) by auto
  then show ?thesis
    using assms(3-6)
    by (intro sys_okI) (auto simp: boot_def dev_ok_def nframes_def INT_MAX_def ram_of_def swp_of_procs_def)
qed

subsection \<open>Properties\<close>

text \<open>
  C9. From the devices \<open>main\<close> initialises (RAM up to 2 MB, swap up to 512 MB), whatever processes are
  loaded, call the memory library and end, in any interleaving: the free list of RAM and that of the
  active swap device name every free frame once; every other frame of the device belongs to exactly one
  page of one live process, since different processes have different frames and different pages of a
  process have different frames; no page has a frame outside its device; and the memory map of every
  live process is consistent.
\<close>

theorem frames_accounted:
  assumes "init_memphy d0 rsz 1 = Inr r" and "init_memphy d1 ssz 1 = Inr w"
    and "0 \<le> rsz" "rsz \<le> 2097152" and "0 \<le> ssz" "ssz \<le> 536870912"
    and "sys_step\<^sup>*\<^sup>* (boot r (w # ws)) s"
  shows "distinct (free_fp_list (ram s)) \<and> distinct (free_fp_list (swaps s ! 0)) \<and>
    set (free_fp_list (ram s)) = {0..<nframes (ram s)} - (\<Union>i \<in> live s. ram_frames (mms s i)) \<and>
    set (free_fp_list (swaps s ! 0)) = {0..<nframes (swaps s ! 0)} - (\<Union>i \<in> live s. swp_frames (mms s i)) \<and>
    (\<forall>i \<in> live s. \<forall>j \<in> live s. i \<noteq> j \<longrightarrow>
       ram_frames (mms s i) \<inter> ram_frames (mms s j) = {} \<and> swp_frames (mms s i) \<inter> swp_frames (mms s j) = {}) \<and>
    (\<forall>i \<in> live s. inj_on (fpn_of (ctx s i)) {pg. resident (ctx s i) pg} \<and>
       inj_on (swp_of (ctx s i)) {pg. swapped (ctx s i) pg} \<and>
       fpn_of (ctx s i) ` {pg. resident (ctx s i) pg} = ram_frames (mms s i) \<and>
       swp_of (ctx s i) ` {pg. swapped (ctx s i) pg} = swp_frames (mms s i) \<and>
       ram_frames (mms s i) \<subseteq> {0..<nframes (ram s)} \<and> swp_frames (mms s i) \<subseteq> {0..<nframes (swaps s ! 0)}) \<and>
    (\<forall>i \<in> live s. map_ok (ctx s i))"
proof -
  have ok: "sys_ok s"
    using sys_inv.steps_inv [OF assms(7) boot_ok [OF assms(1-6)]] .
  note D = sys_okD [OF ok]
  have "ram_frames (mms s i) \<inter> ram_frames (mms s j) = {} \<and> swp_frames (mms s i) \<inter> swp_frames (mms s j) = {}"
    if "i \<in> live s" "j \<in> live s" "i \<noteq> j" for i j
    using vm_ok_pools(2,6) [OF D(8) [OF that(1)]] that by (auto simp: ram_of_def swp_of_procs_def)
  moreover have "map_ok (ctx s i)" if "i \<in> live s" for i
    using D(8) [OF that] by (simp add: vm_ok_def)
  moreover have "inj_on (fpn_of (ctx s i)) {pg. resident (ctx s i) pg}" "inj_on (swp_of (ctx s i)) {pg. swapped (ctx s i) pg}"
      "fpn_of (ctx s i) ` {pg. resident (ctx s i) pg} = ram_frames (mms s i)"
      "swp_of (ctx s i) ` {pg. swapped (ctx s i) pg} = swp_frames (mms s i)"
      "ram_frames (mms s i) \<subseteq> {0..<nframes (ram s)}" "swp_frames (mms s i) \<subseteq> {0..<nframes (swaps s ! 0)}" if "i \<in> live s" for i
    using vm_ok_inj [OF D(8) [OF that]] vm_ok_pools(3,7) [OF D(8) [OF that]] frames_ctx [of "ctx s i"] by simp_all
  ultimately show ?thesis
    using D(4-7) by (simp add: ram_of_def swp_of_procs_def)
qed

text \<open>
  C5. Isolation. In every reachable state, a library call of one process and the end of a process
  leave the memory every other live process sees unchanged, byte for byte, although the call may
  evict pages, fault pages in and write.
\<close>

theorem processes_isolated:
  assumes "init_memphy d0 rsz 1 = Inr r" and "init_memphy d1 ssz 1 = Inr w"
    and "0 \<le> rsz" "rsz \<le> 2097152" and "0 \<le> ssz" "ssz \<le> 536870912"
    and "sys_step\<^sup>*\<^sup>* (boot r (w # ws)) s" and "i \<in> live s" and "j \<in> live s" and "j \<noteq> i"
  shows "(\<forall>c. lib_step (ctx s i) c \<longrightarrow> vmem (ctx (put_ctx s i c) j) = vmem (ctx s j)) \<and>
    (\<forall>c. free_pcb_memph (ctx s i) = Inr c \<longrightarrow> vmem (ctx (end_proc s i c) j) = vmem (ctx s j))"
proof -
  have ok: "sys_ok s"
    using sys_inv.steps_inv [OF assms(7) boot_ok [OF assms(1-6)]] .
  have "vmem (ctx (put_ctx s i c) j) = vmem (ctx s j)" if "lib_step (ctx s i) c" for c
    using lib_step_ok [OF that sys_okD(8) [OF ok assms(8)]] assms(9,10)
    by (intro other_process(2) [OF ok assms(8)]) blast+
  then show ?thesis
    using end_proc_ok(2) [OF ok assms(8) _ assms(9,10)] by blast
qed

text \<open>Two processes on the small machine; the first has allocated both frames of RAM.\<close>

definition duo :: memsys where
  "duo = put_ctx (load_proc (load_proc (boot (device 512) [device 1024]) 0) 1) 0 m1"

lemma device_init: "0 \<le> sz \<Longrightarrow> init_memphy \<lparr>storage = (\<lambda>_. 0), maxsz = 0, rdmflg = False, cursor = 0,
      free_fp_list = [], used_fp_list = []\<rparr> sz 1 = Inr (device sz)"
  using init_memphy_eq [of sz "\<lparr>storage = (\<lambda>_. 0), maxsz = 0, rdmflg = False, cursor = 0,
      free_fp_list = [], used_fp_list = []\<rparr>" 1] by (auto simp: device_def)

lemma m0_step: "lib_step m0 m1"
proof -
  have "\<exists>n. u_alloc m0 0 0 512 = Inr (0, n, m1)"
    using m0_ok by (cases rule: u_alloc_spec [where rgid = 0 and sz = 512])
      (auto simp: m0_facts m1_def after_def)
  then have "liballoc m0 512 0 = Inr (0, m1)"
    using liballoc_eq [OF m0_ok, of 512 0] m0_facts(4) by auto
  then show ?thesis
    by (rule lib_step.lib_alloc) (simp add: m0_facts)
qed

lemma duo_reached: "sys_step\<^sup>*\<^sup>* (boot (device 512) [device 1024]) duo" "live duo = {0, 1}"
proof -
  let ?b = "boot (device 512) [device 1024]" and ?l = "load_proc (load_proc (boot (device 512) [device 1024]) 0) 1"
  have "sys_step ?b (load_proc ?b 0)" "sys_step (load_proc ?b 0) ?l"
    by (rule load_step, simp add: boot_def load_proc_def)+
  moreover have "ctx ?l 0 = m0"
    by (simp add: ctx_def load_proc_def boot_def m0_def)
  then have "sys_step ?l duo"
    unfolding duo_def using m0_step by (intro call_step) (auto simp: load_proc_def)
  ultimately show "sys_step\<^sup>*\<^sup>* ?b duo"
    by (meson converse_rtranclp_into_rtranclp rtranclp.rtrancl_refl)
  show "live duo = {0, 1}"
    by (auto simp: duo_def load_proc_def boot_def)
qed

theorem frames_accounted_witness:
  "set (free_fp_list (ram duo)) = {0..<nframes (ram duo)} - (\<Union>i \<in> live duo. ram_frames (mms duo i)) \<and>
    distinct (free_fp_list (swaps duo ! 0)) \<and> inj_on (fpn_of (ctx duo 0)) {pg. resident (ctx duo 0) pg} \<and> live duo = {0, 1}"
  using frames_accounted [OF device_init [of 512] device_init [of 1024], of "[]" duo] duo_reached by simp

theorem processes_isolated_witness:
  "\<exists>c. lib_step (ctx duo 0) c \<and> vmem (ctx (put_ctx duo 0 c) 1) = vmem (ctx duo 1)"
proof -
  have "sys_ok duo"
    using sys_inv.steps_inv [OF duo_reached(1) boot_ok [OF device_init device_init]] by simp
  then obtain rc c where "libwrite (ctx duo 0) 9 0 300 = Inr (rc, c)"
    using libwrite_ok [OF sys_okD(8), of duo 0] duo_reached(2) by blast
  then have "lib_step (ctx duo 0) c"
    by (rule lib_step.lib_write)
  then show ?thesis
    using processes_isolated [OF device_init [of 512] device_init [of 1024], of "[]" duo 0 1] duo_reached by auto
qed

end
