(* ===== verification/Queue.thy ===== *)
theory Queue
  imports Prelude
begin

text \<open>
  The process queue of \<open>src/queue.c\<close>: an array of \<open>MAX_QUEUE_SIZE\<close> pointers to process control
  blocks, with the number of occupied cells. A pointer is a natural number, the address of the
  object; \<open>NULL\<close> arguments and results are \<open>None\<close>. An access outside the array is
  \<open>Out_of_bounds\<close>.

  The contract is the locale \<open>bounded_fifo\<close>: the operations act on the list of waiting processes as
  snoc, tail and removal of the first occurrence, a full queue drops what is enqueued, and no access
  leaves the array. The scheduler uses only this contract.
\<close>

type_synonym pcb_ptr = nat

record queue_t =
  proc :: "pcb_ptr list"
  qsize :: int

definition MAX_QUEUE_SIZE :: int where
  "MAX_QUEUE_SIZE = 100"

definition proc_get :: "queue_t \<Rightarrow> int \<Rightarrow> pcb_ptr res" where
  "proc_get q i =
     (if 0 \<le> i \<and> i < int (length (proc q)) then Inr (proc q ! nat i) else Inl Out_of_bounds)"

definition proc_set :: "queue_t \<Rightarrow> int \<Rightarrow> pcb_ptr \<Rightarrow> queue_t res" where
  "proc_set q i p =
     (if 0 \<le> i \<and> i < int (length (proc q)) then Inr (q\<lparr>proc := (proc q)[nat i := p]\<rparr>)
      else Inl Out_of_bounds)"

definition empty :: "queue_t \<Rightarrow> bool" where
  "empty q \<longleftrightarrow> qsize q = 0"

definition enqueue :: "queue_t \<Rightarrow> pcb_ptr option \<Rightarrow> queue_t res" where
  "enqueue q pr =
     (case pr of
        None \<Rightarrow> Inr q
      | Some p \<Rightarrow>
          if qsize q \<ge> MAX_QUEUE_SIZE then Inr q
          else rbind (proc_set q (qsize q) p) (\<lambda>q1. Inr (q1\<lparr>qsize := qsize q1 + 1\<rparr>)))"

function shift_loop :: "int \<Rightarrow> queue_t \<Rightarrow> queue_t res" where
  "shift_loop i q =
     (if i < qsize q - 1 then
        rbind (proc_get q (i + 1)) (\<lambda>p. rbind (proc_set q i p) (shift_loop (i + 1)))
      else Inr q)"
  by pat_completeness auto
termination
  by (relation "measure (\<lambda>(i, q). nat (qsize q - i))") (auto simp: proc_set_def split: if_splits)

declare shift_loop.simps [simp del]

definition dequeue :: "queue_t \<Rightarrow> (pcb_ptr option \<times> queue_t) res" where
  "dequeue q =
     (if qsize q = 0 then Inr (None, q)
      else
        rbind (proc_get q 0) (\<lambda>p.
        rbind (shift_loop 0 q) (\<lambda>q1. Inr (Some p, q1\<lparr>qsize := qsize q1 - 1\<rparr>))))"

function remove_loop :: "int \<Rightarrow> queue_t \<Rightarrow> pcb_ptr \<Rightarrow> (int \<times> queue_t) res" where
  "remove_loop i q p =
     (if i < qsize q then
        rbind (proc_get q i) (\<lambda>x.
        if x = p then rbind (shift_loop i q) (\<lambda>q1. Inr (1, q1\<lparr>qsize := qsize q1 - 1\<rparr>))
        else remove_loop (i + 1) q p)
      else Inr (0, q))"
  by pat_completeness auto
termination
  by (relation "measure (\<lambda>(i, q, p). nat (qsize q - i))") auto

declare remove_loop.simps [simp del]

definition remove_from_queue :: "queue_t \<Rightarrow> pcb_ptr option \<Rightarrow> (int \<times> queue_t) res" where
  "remove_from_queue q pr = (case pr of None \<Rightarrow> Inr (0, q) | Some p \<Rightarrow> remove_loop 0 q p)"

subsection \<open>The list of waiting processes\<close>

definition q_ok :: "queue_t \<Rightarrow> bool" where
  "q_ok q \<longleftrightarrow> length (proc q) = 100 \<and> 0 \<le> qsize q \<and> qsize q \<le> 100"

definition waiting :: "queue_t \<Rightarrow> pcb_ptr list" where
  "waiting q = take (nat (qsize q)) (proc q)"

lemma length_waiting: "q_ok q \<Longrightarrow> length (waiting q) = nat (qsize q)"
  by (auto simp: q_ok_def waiting_def)

lemma waiting_nth: "i < nat (qsize q) \<Longrightarrow> waiting q ! i = proc q ! i"
  by (simp add: waiting_def)

text \<open>Shifting from cell \<open>i\<close> on closes the gap at \<open>i\<close>.\<close>

lemma shift_loop_spec:
  assumes "q_ok q" and "0 \<le> i" and "i < qsize q"
  shows "\<exists>xs. shift_loop i q = Inr (q\<lparr>proc := xs\<rparr>) \<and> length xs = 100 \<and>
    take (nat (qsize q - 1)) xs = take (nat i) (waiting q) @ drop (Suc (nat i)) (waiting q)"
  using assms
proof (induction "nat (qsize q - 1 - i)" arbitrary: i q)
  case 0
  then have i: "i = qsize q - 1"
    by simp
  then have "shift_loop i q = Inr q"
    by (subst shift_loop.simps) simp
  moreover have "take (nat (qsize q - 1)) (proc q) = take (nat i) (waiting q) @ drop (Suc (nat i)) (waiting q)"
    using 0 i by (simp add: waiting_def q_ok_def)
  ultimately show ?case
    using 0 by (intro exI [of _ "proc q"]) (simp add: q_ok_def)
next
  case (Suc n)
  let ?k = "nat i" and ?q = "q\<lparr>proc := (proc q)[nat i := proc q ! Suc (nat i)]\<rparr>"
  have lt: "i < qsize q - 1" and n: "n = nat (qsize ?q - 1 - (i + 1))"
    using Suc.hyps(2) by simp_all
  have ok: "q_ok ?q"
    using Suc.prems by (simp add: q_ok_def)
  have len: "length (proc q) = 100" "qsize q \<le> 100"
    using Suc.prems by (simp_all add: q_ok_def)
  have k: "nat (i + 1) = Suc ?k" "Suc ?k < nat (qsize q)"
    using Suc.prems lt by simp_all
  have step: "shift_loop i q = shift_loop (i + 1) ?q"
    using lt Suc.prems len k by (subst shift_loop.simps) (simp add: proc_get_def proc_set_def)
  obtain xs where xs: "shift_loop (i + 1) ?q = Inr (?q\<lparr>proc := xs\<rparr>)" "length xs = 100"
      "take (nat (qsize q - 1)) xs = take (Suc ?k) (waiting ?q) @ drop (Suc (Suc ?k)) (waiting ?q)"
    using Suc.hyps(1) [OF n ok] Suc.prems lt k by auto
  have w: "waiting ?q = (waiting q)[?k := waiting q ! Suc ?k]"
    using k by (simp add: waiting_def take_update_swap)
  have lw: "Suc ?k < length (waiting q)"
    using k len by (simp add: waiting_def)
  then have "take (Suc ?k) (waiting ?q) @ drop (Suc (Suc ?k)) (waiting ?q) =
      take ?k (waiting q) @ drop (Suc ?k) (waiting q)"
    by (simp add: w take_Suc_conv_app_nth Cons_nth_drop_Suc)
  with step xs show ?case
    by (intro exI [of _ xs]) simp
qed

lemma shift_loop_waiting:
  assumes "q_ok q" and "i < length (waiting q)"
  shows "\<exists>q1. shift_loop (int i) q = Inr q1 \<and> q_ok (q1\<lparr>qsize := qsize q1 - 1\<rparr>) \<and>
    waiting (q1\<lparr>qsize := qsize q1 - 1\<rparr>) = take i (waiting q) @ drop (Suc i) (waiting q)"
proof -
  have "int i < qsize q"
    using assms length_waiting by simp
  with shift_loop_spec [OF assms(1), of "int i"] show ?thesis
    using assms(1) by (force simp: q_ok_def waiting_def)
qed

lemma enqueue_spec:
  assumes "q_ok q"
  shows "\<exists>q'. enqueue q (Some p) = Inr q' \<and> q_ok q' \<and>
    waiting q' = (if length (waiting q) < 100 then waiting q @ [p] else waiting q)"
proof (cases "qsize q \<ge> 100")
  case True
  then show ?thesis
    using assms length_waiting [OF assms] by (simp add: enqueue_def MAX_QUEUE_SIZE_def)
next
  case False
  let ?k = "nat (qsize q)"
  have "take (Suc ?k) ((proc q)[?k := p]) = take ?k (proc q) @ [p]"
    using assms False by (simp add: q_ok_def take_Suc_conv_app_nth)
  moreover have "nat (qsize q + 1) = Suc ?k"
    using assms by (auto simp: q_ok_def)
  ultimately show ?thesis
    using assms False length_waiting [OF assms]
    by (simp add: enqueue_def MAX_QUEUE_SIZE_def proc_set_def q_ok_def waiting_def)
qed

lemma dequeue_spec:
  assumes "q_ok q"
  shows "\<exists>q'. dequeue q = Inr (if waiting q = [] then None else Some (hd (waiting q)), q') \<and> q_ok q' \<and>
    waiting q' = tl (waiting q)"
proof (cases "qsize q = 0")
  case True
  then show ?thesis
    using assms by (simp add: dequeue_def waiting_def)
next
  case False
  then have ne: "0 < length (waiting q)"
    using assms length_waiting [OF assms] by (simp add: q_ok_def)
  obtain q1 where q1: "shift_loop 0 q = Inr q1" "q_ok (q1\<lparr>qsize := qsize q1 - 1\<rparr>)"
      "waiting (q1\<lparr>qsize := qsize q1 - 1\<rparr>) = tl (waiting q)"
    using shift_loop_waiting [OF assms ne] by (auto simp: drop_Suc)
  have "proc_get q 0 = Inr (hd (waiting q))"
  proof -
    have "proc q ! 0 = hd (waiting q)"
      using ne length_waiting [OF assms] waiting_nth [of 0 q] hd_conv_nth [of "waiting q"] by force
    then show ?thesis
      using assms by (simp add: proc_get_def q_ok_def)
  qed
  with q1 ne False show ?thesis
    by (simp add: dequeue_def)
qed

lemma take_drop_remove1:
  assumes "i < length xs" and "xs ! i = p" and "p \<notin> set (take i xs)"
  shows "take i xs @ drop (Suc i) xs = remove1 p xs"
proof -
  have "xs = take i xs @ p # drop (Suc i) xs"
    using assms(1,2) id_take_nth_drop by blast
  then show ?thesis
    using assms(3) by (metis remove1.simps(2) remove1_append)
qed

lemma remove_loop_spec:
  assumes "q_ok q" and "i \<le> length (waiting q)" and "p \<notin> set (take i (waiting q))"
  shows "\<exists>q'. remove_loop (int i) q p = Inr (if p \<in> set (waiting q) then 1 else 0, q') \<and> q_ok q' \<and>
    waiting q' = remove1 p (waiting q)"
  using assms(2,3)
proof (induction "length (waiting q) - i" arbitrary: i)
  case 0
  then have "\<not> int i < qsize q"
    using assms(1) length_waiting by fastforce
  then have "remove_loop (int i) q p = Inr (0, q)"
    by (subst remove_loop.simps) simp
  with 0 assms(1) show ?case
    by (simp add: remove1_idem)
next
  case (Suc n)
  then have lt: "i < length (waiting q)" and n: "n = length (waiting q) - Suc i"
    by simp_all
  have get: "proc_get q (int i) = Inr (waiting q ! i)" and sz: "int i < qsize q"
    using assms(1) lt length_waiting [OF assms(1)] waiting_nth [of i q] by (auto simp: proc_get_def q_ok_def)
  show ?case
  proof (cases "waiting q ! i = p")
    case True
    obtain q1 where "shift_loop (int i) q = Inr q1" "q_ok (q1\<lparr>qsize := qsize q1 - 1\<rparr>)"
        "waiting (q1\<lparr>qsize := qsize q1 - 1\<rparr>) = take i (waiting q) @ drop (Suc i) (waiting q)"
      using shift_loop_waiting [OF assms(1) lt] by blast
    moreover have "p \<in> set (waiting q)"
      using True lt by auto
    ultimately show ?thesis
      using True get sz take_drop_remove1 [OF lt True Suc.prems(2)] by (subst remove_loop.simps) simp
  next
    case False
    have "p \<notin> set (take (Suc i) (waiting q))"
      using False Suc.prems(2) lt by (simp add: take_Suc_conv_app_nth)
    then have "\<exists>q'. remove_loop (int (Suc i)) q p = Inr (if p \<in> set (waiting q) then 1 else 0, q') \<and>
        q_ok q' \<and> waiting q' = remove1 p (waiting q)"
      using Suc.hyps(1) [OF n] lt by simp
    moreover have "remove_loop (int i) q p = remove_loop (int (Suc i)) q p"
      using False get sz by (subst remove_loop.simps) (simp add: add.commute)
    ultimately show ?thesis
      by simp
  qed
qed

lemma remove_from_queue_spec:
  assumes "q_ok q"
  shows "\<exists>q'. remove_from_queue q (Some p) = Inr (if p \<in> set (waiting q) then 1 else 0, q') \<and> q_ok q' \<and>
    waiting q' = remove1 p (waiting q)"
  using remove_loop_spec [OF assms, of 0 p] by (simp add: remove_from_queue_def)

lemma empty_iff: "q_ok q \<Longrightarrow> empty q \<longleftrightarrow> waiting q = []"
  by (auto simp: empty_def waiting_def q_ok_def)

subsection \<open>The contract\<close>

primrec fill :: "('q \<Rightarrow> 'p \<Rightarrow> 'q res) \<Rightarrow> 'q \<Rightarrow> 'p list \<Rightarrow> 'q res" where
  "fill enq q [] = Inr q"
| "fill enq q (p # ps) = rbind (enq q p) (\<lambda>q'. fill enq q' ps)"

primrec drain :: "('q \<Rightarrow> ('p option \<times> 'q) res) \<Rightarrow> nat \<Rightarrow> 'q \<Rightarrow> ('p option list \<times> 'q) res" where
  "drain deq 0 q = Inr ([], q)"
| "drain deq (Suc n) q =
     rbind (deq q) (\<lambda>(p, q'). rbind (drain deq n q') (\<lambda>(ps, q''). Inr (p # ps, q'')))"

locale bounded_fifo =
  fixes enq :: "'q \<Rightarrow> 'p \<Rightarrow> 'q res"
    and deq :: "'q \<Rightarrow> ('p option \<times> 'q) res"
    and rmv :: "'q \<Rightarrow> 'p \<Rightarrow> (int \<times> 'q) res"
    and items :: "'q \<Rightarrow> 'p list"
    and ok :: "'q \<Rightarrow> bool"
    and cap :: nat
  assumes enq: "ok q \<Longrightarrow> \<exists>q'. enq q p = Inr q' \<and> ok q' \<and>
      items q' = (if length (items q) < cap then items q @ [p] else items q)"
    and deq: "ok q \<Longrightarrow> \<exists>q'. deq q = Inr (if items q = [] then None else Some (hd (items q)), q') \<and>
      ok q' \<and> items q' = tl (items q)"
    and rmv: "ok q \<Longrightarrow> \<exists>q'. rmv q p = Inr (if p \<in> set (items q) then 1 else 0, q') \<and>
      ok q' \<and> items q' = remove1 p (items q)"
    and items_cap: "ok q \<Longrightarrow> length (items q) \<le> cap"
begin

lemma fill_items:
  assumes "ok q" and "length (items q) + length ps \<le> cap"
  shows "\<exists>q'. fill enq q ps = Inr q' \<and> ok q' \<and> items q' = items q @ ps"
  using assms
proof (induction ps arbitrary: q)
  case (Cons p ps)
  then obtain q1 where "enq q p = Inr q1" "ok q1" "items q1 = items q @ [p]"
    using enq [OF Cons.prems(1), of p] by auto
  with Cons.IH [of q1] Cons.prems(2) show ?case
    by simp
qed simp

lemma drain_items:
  assumes "ok q" and "n \<le> length (items q)"
  shows "\<exists>q'. drain deq n q = Inr (map Some (take n (items q)), q') \<and> ok q' \<and> items q' = drop n (items q)"
  using assms
proof (induction n arbitrary: q)
  case (Suc n)
  then obtain p ps where it: "items q = p # ps"
    by (cases "items q") auto
  then obtain q1 where "deq q = Inr (Some p, q1)" "ok q1" "items q1 = ps"
    using deq [OF Suc.prems(1)] by auto
  with Suc.IH [of q1] Suc.prems(2) it show ?case
    by auto
qed simp

text \<open>First in, first out: behind what waits already, in the order of insertion.\<close>

lemma fifo:
  assumes "ok q" and "length (items q) + length ps \<le> cap"
  shows "\<exists>q1 q2. fill enq q ps = Inr q1 \<and>
    drain deq (length (items q) + length ps) q1 = Inr (map Some (items q @ ps), q2) \<and> items q2 = []"
proof -
  obtain q1 where q1: "fill enq q ps = Inr q1" "ok q1" "items q1 = items q @ ps"
    using fill_items [OF assms] by blast
  with drain_items [of q1 "length (items q) + length ps"] show ?thesis
    by auto
qed

end

interpretation pq: bounded_fifo "\<lambda>q p. enqueue q (Some p)" dequeue
    "\<lambda>q p. remove_from_queue q (Some p)" waiting q_ok 100
  using enqueue_spec dequeue_spec remove_from_queue_spec length_waiting
  by unfold_locales (auto simp: q_ok_def)

subsection \<open>Properties\<close>

text \<open>
  C30. The process queue is first in, first out: processes enqueued behind those that wait come out
  after them, in the order they were enqueued, as long as the capacity of 100 is respected, and no
  access leaves the array.
\<close>

theorem queue_fifo:
  assumes "q_ok q" and "length (waiting q) + length ps \<le> 100"
  shows "\<exists>q1 q2. fill (\<lambda>q p. enqueue q (Some p)) q ps = Inr q1 \<and>
    drain dequeue (length (waiting q) + length ps) q1 = Inr (map Some (waiting q @ ps), q2) \<and>
    waiting q2 = []"
  using assms by (rule pq.fifo)

theorem queue_fifo_witness:
  "\<exists>q1 q2. fill (\<lambda>q p. enqueue q (Some p)) \<lparr>proc = replicate 100 0, qsize = 1\<rparr> [5, 3, 5] = Inr q1 \<and>
    drain dequeue 4 q1 = Inr ([Some 0, Some 5, Some 3, Some 5], q2) \<and> waiting q2 = []"
proof -
  have "waiting \<lparr>proc = replicate 100 0, qsize = 1\<rparr> = [0]"
    by (simp add: waiting_def numeral_eq_Suc)
  then show ?thesis
    using queue_fifo [of "\<lparr>proc = replicate 100 0, qsize = 1\<rparr>" "[5, 3, 5]"]
    by (simp add: q_ok_def numeral_eq_Suc)
qed

text \<open>
  \<open>remove_from_queue\<close> takes out the first occurrence of a process and keeps the order of the
  others; it reports 1 exactly when the process was in the queue.
\<close>

lemma remove_keeps_order:
  assumes "q_ok q"
  shows "\<exists>q'. remove_from_queue q (Some p) = Inr (if p \<in> set (waiting q) then 1 else 0, q') \<and> q_ok q' \<and>
    waiting q' = remove1 p (waiting q)"
  using assms by (rule pq.rmv)

end
