(* ===== verification/Common.thy ===== *)
theory Common
  imports Mm Queue
begin

text \<open>
  The process control block and the instructions of \<open>include/common.h\<close>. The record \<open>pcb_t\<close> has
  the fields the simulator uses. The pointers of the source to the page table, the devices and the
  queues are resolved where they are used: \<open>pmm\<close> is the memory map itself, the devices are shared
  by all processes and belong to the machine state. A string is its characters before the
  terminating 0.
\<close>

datatype ins_opcode_t = CALC | ALLOC | FREE | READ | WRITE | SYSCALL

record inst_t =
  opcode :: ins_opcode_t
  arg_0 :: u32
  arg_1 :: u32
  arg_2 :: u32
  arg_3 :: u32

record code_seg_t =
  code_text :: "inst_t list"
  code_size :: u32

record pcb_t =
  pid :: u32
  priority :: u32
  path :: string
  code :: code_seg_t
  regs :: "u32 list"
  pc :: u32
  prio :: u32
  pmm :: mm_struct
  bp :: u32
  killed :: int

text \<open>Access to an array of the source that is a list.\<close>

definition arr_get :: "'a list \<Rightarrow> int \<Rightarrow> 'a res" where
  "arr_get xs i = (if 0 \<le> i \<and> i < int (length xs) then Inr (xs ! nat i) else Inl Out_of_bounds)"

definition arr_set :: "'a list \<Rightarrow> int \<Rightarrow> 'a \<Rightarrow> 'a list res" where
  "arr_set xs i v = (if 0 \<le> i \<and> i < int (length xs) then Inr (xs[nat i := v]) else Inl Out_of_bounds)"

lemma arr_get_in [simp]: "i < length xs \<Longrightarrow> arr_get xs (int i) = Inr (xs ! i)"
  by (simp add: arr_get_def)

lemma arr_set_in [simp]: "i < length xs \<Longrightarrow> arr_set xs (int i) v = Inr (xs[i := v])"
  by (simp add: arr_set_def)

end
