(* ===== verification/Sched.thy ===== *)
theory Sched
  imports Common
begin

text \<open>
  The multi-level queue scheduler, \<open>src/sched.c\<close> as it is built (\<open>MLQ_SCHED\<close>), and the
  single-queue policy of its other branch. The static variables of the file are the record
  \<open>sched_t\<close>, which also holds the process control blocks the pointers lead to. Every function of
  the source holds \<open>queue_lock\<close> from its first access to its last, so each is one transition.

  The abstraction is the list of waiting processes of each priority (\<open>lev\<close>) and the number of
  dispatches a priority has used in the current round (\<open>used\<close>). The lemmas show that
  \<open>get_mlq_proc\<close> is the policy its comment describes, and that no process starves.
\<close>

record sched_t =
  ready_queue :: queue_t
  run_queue :: queue_t
  running_list :: queue_t
  mlq_ready_queue :: "queue_t list"
  slot :: "int list"
  slot_used :: "int list"
  pcbs :: "pcb_ptr \<Rightarrow> pcb_t"

definition MAX_PRIO :: int where
  "MAX_PRIO = 140"

fun mlq_all_empty :: "queue_t list \<Rightarrow> bool" where
  "mlq_all_empty [] \<longleftrightarrow> True"
| "mlq_all_empty (q # qs) \<longleftrightarrow> (if \<not> empty q then False else mlq_all_empty qs)"

definition queue_empty :: "sched_t \<Rightarrow> bool" where
  "queue_empty s \<longleftrightarrow>
     (if \<not> mlq_all_empty (mlq_ready_queue s) then False
      else empty (ready_queue s) \<and> empty (run_queue s))"

definition init_scheduler :: "sched_t \<Rightarrow> sched_t" where
  "init_scheduler s =
     s\<lparr>mlq_ready_queue := map (\<lambda>q. q\<lparr>qsize := 0\<rparr>) (mlq_ready_queue s),
       slot := map (\<lambda>i. MAX_PRIO - i) [0..MAX_PRIO - 1],
       slot_used := map (\<lambda>i. 0) [0..MAX_PRIO - 1],
       ready_queue := (ready_queue s)\<lparr>qsize := 0\<rparr>,
       run_queue := (run_queue s)\<lparr>qsize := 0\<rparr>,
       running_list := (running_list s)\<lparr>qsize := 0\<rparr>\<rparr>"

text \<open>\<open>strrchr\<close> finds the last separator.\<close>

definition proc_name :: "string \<Rightarrow> string" where
  "proc_name p = (if CHR ''/'' \<in> set p then rev (takeWhile (\<lambda>c. c \<noteq> CHR ''/'') (rev p)) else p)"

definition finish_proc :: "sched_t \<Rightarrow> pcb_ptr \<Rightarrow> sched_t res" where
  "finish_proc s p =
     rbind (remove_from_queue (running_list s) (Some p)) (\<lambda>(_, q). Inr (s\<lparr>running_list := q\<rparr>))"

text \<open>The removal of a process from the ready queues, with the short-circuit evaluation of the source.\<close>

definition take_ready :: "sched_t \<Rightarrow> pcb_ptr \<Rightarrow> (bool \<times> sched_t) res" where
  "take_ready s p =
     rbind (remove_from_queue (ready_queue s) (Some p)) (\<lambda>(r1, q1).
       let s1 = s\<lparr>ready_queue := q1\<rparr> in
       if r1 \<noteq> 0 then Inr (True, s1)
       else
         rbind (remove_from_queue (run_queue s1) (Some p)) (\<lambda>(r2, q2).
           let s2 = s1\<lparr>run_queue := q2\<rparr>; i = uint (prio (pcbs s p)) in
           if r2 \<noteq> 0 then Inr (True, s2)
           else if i < MAX_PRIO then
             rbind (arr_get (mlq_ready_queue s2) i) (\<lambda>q.
             rbind (remove_from_queue q (Some p)) (\<lambda>(r3, q3).
             rbind (arr_set (mlq_ready_queue s2) i q3) (\<lambda>qs.
               Inr (r3 \<noteq> 0, s2\<lparr>mlq_ready_queue := qs\<rparr>))))
           else Inr (False, s2)))"

lemma take_ready_running: "take_ready s p = Inr (b, s') \<Longrightarrow> running_list s' = running_list s"
  by (auto simp: take_ready_def rbind_Inr_iff Let_def split: if_splits)

lemma shift_loop_size: "shift_loop i q = Inr q' \<Longrightarrow> qsize q' = qsize q"
proof (induction i q rule: shift_loop.induct)
  case (1 i q)
  show ?case
  proof (cases "i < qsize q - 1")
    case True
    then obtain p q1 where "proc_get q (i + 1) = Inr p" "proc_set q i p = Inr q1"
        "shift_loop (i + 1) q1 = Inr q'"
      using 1(2) by (subst (asm) shift_loop.simps) (auto simp: rbind_Inr_iff)
    with 1(1) [OF True] show ?thesis
      by (auto simp: proc_set_def split: if_splits)
  next
    case False
    with 1(2) show ?thesis
      by (subst (asm) shift_loop.simps) simp
  qed
qed

lemma remove_loop_size:
  assumes "remove_loop j q p = Inr (r, q')" and "proc_get q i = Inr p" and "j \<le> i" and "i < qsize q"
  shows "qsize q' = qsize q - 1"
  using assms
proof (induction j q p arbitrary: rule: remove_loop.induct)
  case (1 j q p)
  then have lt: "j < qsize q"
    by simp
  obtain x where x: "proc_get q j = Inr x"
    using 1(2) lt by (subst (asm) remove_loop.simps) (auto simp: rbind_Inr_iff)
  show ?case
  proof (cases "x = p")
    case True
    then show ?thesis
      using 1(2) lt x shift_loop_size by (subst (asm) remove_loop.simps) (auto simp: rbind_Inr_iff)
  next
    case False
    then have "j \<noteq> i"
      using 1(3) x by auto
    with False show ?thesis
      using 1(2-5) 1(1) [OF lt x False] lt x by (subst (asm) remove_loop.simps) simp
  qed
qed

lemma remove_size:
  assumes "remove_from_queue q (Some p) = Inr (r, q')" and "proc_get q i = Inr p" and "i < qsize q"
  shows "qsize q' = qsize q - 1"
proof -
  have "0 \<le> i"
    using assms(2) by (simp add: proc_get_def split: if_splits)
  with assms show ?thesis
    using remove_loop_size [of 0 q p r q' i] by (simp add: remove_from_queue_def)
qed

text \<open>
  \<open>victims\<close> is the part in use of the array the killed processes that no CPU holds are returned in;
  the array has \<open>MAX_QUEUE_SIZE\<close> elements, and the loop does not check its bound.
\<close>

function kill_loop :: "string \<Rightarrow> pcb_ptr \<Rightarrow> int \<Rightarrow> int \<Rightarrow> pcb_ptr list \<Rightarrow> sched_t \<Rightarrow>
    (int \<times> pcb_ptr list \<times> sched_t) res" where
  "kill_loop name caller i kld victims s =
     (if i < qsize (running_list s) then
        rbind (proc_get (running_list s) i) (\<lambda>p.
        if p = caller \<or> proc_name (path (pcbs s p)) \<noteq> name
        then kill_loop name caller (i + 1) kld victims s
        else
          rbind (take_ready (s\<lparr>pcbs := (pcbs s)(p := (pcbs s p)\<lparr>killed := 1\<rparr>)\<rparr>) p) (\<lambda>(in_ready, s1).
          if in_ready then
            rbind (remove_from_queue (running_list s1) (Some p)) (\<lambda>(_, rl).
            if int (length victims) < MAX_QUEUE_SIZE then
              kill_loop name caller i (kld + 1) (victims @ [p]) (s1\<lparr>running_list := rl\<rparr>)
            else Inl Out_of_bounds)
          else kill_loop name caller (i + 1) (kld + 1) victims s1))
      else Inr (kld, victims, s))"
  by pat_completeness auto
termination
  by (relation "measure (\<lambda>(name, caller, i, kld, victims, s). nat (qsize (running_list s) - i))")
    (auto dest!: take_ready_running dest: remove_size)

declare kill_loop.simps [simp del]

definition kill_proc_by_name :: "sched_t \<Rightarrow> string \<Rightarrow> pcb_ptr \<Rightarrow> (int \<times> pcb_ptr list \<times> sched_t) res" where
  "kill_proc_by_name s name caller = kill_loop name caller 0 0 [] s"

subsection \<open>The multi-level queue policy\<close>

function mlq_scan :: "int \<Rightarrow> sched_t \<Rightarrow> (pcb_ptr option \<times> sched_t) res" where
  "mlq_scan i s =
     (if i < MAX_PRIO then
        rbind (arr_get (mlq_ready_queue s) i) (\<lambda>q.
        rbind (arr_get (slot_used s) i) (\<lambda>u.
        rbind (arr_get (slot s) i) (\<lambda>l.
        if \<not> empty q \<and> u < l then
          rbind (dequeue q) (\<lambda>(p, q1).
          rbind (arr_set (mlq_ready_queue s) i q1) (\<lambda>qs.
          rbind (arr_set (slot_used s) i (u + 1)) (\<lambda>us.
            Inr (p, s\<lparr>mlq_ready_queue := qs, slot_used := us\<rparr>))))
        else mlq_scan (i + 1) s)))
      else Inr (None, s))"
  by pat_completeness auto
termination
  by (relation "measure (\<lambda>(i, s). nat (MAX_PRIO - i))") auto

declare mlq_scan.simps [simp del]

definition reset_slots :: "sched_t \<Rightarrow> sched_t" where
  "reset_slots s = s\<lparr>slot_used := map (\<lambda>i. 0) [0..MAX_PRIO - 1]\<rparr>"

function get_mlq_loop :: "int \<Rightarrow> sched_t \<Rightarrow> (pcb_ptr option \<times> sched_t) res" where
  "get_mlq_loop round s =
     (if round < 2 then
        rbind (mlq_scan 0 s) (\<lambda>(p, s1).
        case p of
          Some _ \<Rightarrow> Inr (p, s1)
        | None \<Rightarrow> get_mlq_loop (round + 1) (reset_slots s1))
      else Inr (None, s))"
  by pat_completeness auto
termination
  by (relation "measure (\<lambda>(r, s). nat (2 - r))") auto

declare get_mlq_loop.simps [simp del]

definition get_mlq_proc :: "sched_t \<Rightarrow> (pcb_ptr option \<times> sched_t) res" where
  "get_mlq_proc s = get_mlq_loop 0 s"

definition put_mlq_proc :: "sched_t \<Rightarrow> pcb_ptr \<Rightarrow> sched_t res" where
  "put_mlq_proc s p =
     (let i = uint (prio (pcbs s p)) in
      rbind (arr_get (mlq_ready_queue s) i) (\<lambda>q.
      rbind (enqueue q (Some p)) (\<lambda>q1.
      rbind (arr_set (mlq_ready_queue s) i q1) (\<lambda>qs.
        Inr (s\<lparr>mlq_ready_queue := qs\<rparr>)))))"

definition add_mlq_proc :: "sched_t \<Rightarrow> pcb_ptr \<Rightarrow> sched_t res" where
  "add_mlq_proc s p =
     rbind (enqueue (running_list s) (Some p)) (\<lambda>rl. put_mlq_proc (s\<lparr>running_list := rl\<rparr>) p)"

definition get_proc :: "sched_t \<Rightarrow> (pcb_ptr option \<times> sched_t) res" where
  "get_proc s = get_mlq_proc s"

definition put_proc :: "sched_t \<Rightarrow> pcb_ptr \<Rightarrow> sched_t res" where
  "put_proc s p = put_mlq_proc s p"

definition add_proc :: "sched_t \<Rightarrow> pcb_ptr \<Rightarrow> sched_t res" where
  "add_proc s p =
     (let s1 = (if uint (prio (pcbs s p)) \<ge> MAX_PRIO
                then s\<lparr>pcbs := (pcbs s)(p := (pcbs s p)\<lparr>prio := word_of_int (MAX_PRIO - 1)\<rparr>)\<rparr> else s)
      in add_mlq_proc s1 p)"

subsection \<open>The single-queue policy\<close>

text \<open>The branch of the file that is compiled without \<open>MLQ_SCHED\<close>.\<close>

definition get_proc_fifo :: "sched_t \<Rightarrow> (pcb_ptr option \<times> sched_t) res" where
  "get_proc_fifo s =
     (if \<not> empty (ready_queue s) then
        rbind (dequeue (ready_queue s)) (\<lambda>(p, q). Inr (p, s\<lparr>ready_queue := q\<rparr>))
      else if \<not> empty (run_queue s) then
        rbind (dequeue (run_queue s)) (\<lambda>(p, q). Inr (p, s\<lparr>run_queue := q\<rparr>))
      else Inr (None, s))"

definition put_proc_fifo :: "sched_t \<Rightarrow> pcb_ptr \<Rightarrow> sched_t res" where
  "put_proc_fifo s p = rbind (enqueue (run_queue s) (Some p)) (\<lambda>q. Inr (s\<lparr>run_queue := q\<rparr>))"

definition add_proc_fifo :: "sched_t \<Rightarrow> pcb_ptr \<Rightarrow> sched_t res" where
  "add_proc_fifo s p =
     rbind (enqueue (running_list s) (Some p)) (\<lambda>rl.
     rbind (enqueue (ready_queue s) (Some p)) (\<lambda>rq.
       Inr (s\<lparr>running_list := rl, ready_queue := rq\<rparr>)))"

subsection \<open>The abstraction and the invariant\<close>

abbreviation lev :: "sched_t \<Rightarrow> nat \<Rightarrow> pcb_ptr list" where
  "lev s i \<equiv> waiting (mlq_ready_queue s ! i)"

abbreviation used :: "sched_t \<Rightarrow> nat \<Rightarrow> int" where
  "used s i \<equiv> slot_used s ! i"

abbreviation running :: "sched_t \<Rightarrow> pcb_ptr list" where
  "running s \<equiv> waiting (running_list s)"

definition sched_ok :: "sched_t \<Rightarrow> bool" where
  "sched_ok s \<longleftrightarrow> length (mlq_ready_queue s) = 140 \<and> (\<forall>i < 140. q_ok (mlq_ready_queue s ! i)) \<and>
     q_ok (ready_queue s) \<and> waiting (ready_queue s) = [] \<and>
     q_ok (run_queue s) \<and> waiting (run_queue s) = [] \<and> q_ok (running_list s) \<and>
     slot s = map (\<lambda>i. 140 - i) [0..139] \<and> length (slot_used s) = 140 \<and>
     (\<forall>i < 140. 0 \<le> used s i \<and> used s i \<le> 140 - int i)"

lemma sched_okD:
  assumes "sched_ok s"
  shows "length (mlq_ready_queue s) = 140" "i < 140 \<Longrightarrow> q_ok (mlq_ready_queue s ! i)"
    "q_ok (ready_queue s)" "waiting (ready_queue s) = []" "q_ok (run_queue s)" "waiting (run_queue s) = []"
    "q_ok (running_list s)" "length (slot s) = 140" "i < 140 \<Longrightarrow> slot s ! i = 140 - int i"
    "length (slot_used s) = 140" "i < 140 \<Longrightarrow> 0 \<le> used s i" "i < 140 \<Longrightarrow> used s i \<le> 140 - int i"
  using assms by (auto simp: sched_ok_def)

text \<open>A priority that has a process to run and dispatches left in the current round.\<close>

definition eligible :: "sched_t \<Rightarrow> nat \<Rightarrow> bool" where
  "eligible s i \<longleftrightarrow> i < 140 \<and> lev s i \<noteq> [] \<and> used s i < 140 - int i"

definition least :: "(nat \<Rightarrow> bool) \<Rightarrow> nat \<Rightarrow> bool" where
  "least P k \<longleftrightarrow> P k \<and> (\<forall>j < k. \<not> P j)"

lemma least_exists: "P k \<Longrightarrow> \<exists>k. least P k"
  using exists_least_iff [of P] by (auto simp: least_def)

text \<open>\<open>dispatched s k u s'\<close>: the first process of priority \<open>k\<close> has left its queue, and \<open>u\<close> is the
  number of dispatches of each priority, this one included.\<close>

definition dispatched :: "sched_t \<Rightarrow> nat \<Rightarrow> (nat \<Rightarrow> int) \<Rightarrow> sched_t \<Rightarrow> bool" where
  "dispatched s k u s' \<longleftrightarrow> sched_ok s' \<and> (\<forall>j. lev s' j = (if j = k then tl (lev s k) else lev s j)) \<and>
     (\<forall>j < 140. used s' j = u j) \<and> pcbs s' = pcbs s \<and> running_list s' = running_list s"

lemma scan_here:
  assumes ok: "sched_ok s" and e: "eligible s k"
  shows "\<exists>s'. mlq_scan (int k) s = Inr (Some (hd (lev s k)), s') \<and>
    dispatched s k ((\<lambda>j. used s j)(k := used s k + 1)) s'"
proof -
  have k: "k < 140" "lev s k \<noteq> []" "used s k < 140 - int k"
    using e by (simp_all add: eligible_def)
  note D = sched_okD [OF ok]
  obtain q' where q': "dequeue (mlq_ready_queue s ! k) = Inr (Some (hd (lev s k)), q')" "q_ok q'"
      "waiting q' = tl (lev s k)"
    using pq.deq [OF D(2) [OF k(1)]] k(2) by auto
  let ?s' = "s\<lparr>mlq_ready_queue := (mlq_ready_queue s)[k := q'], slot_used := (slot_used s)[k := used s k + 1]\<rparr>"
  have "mlq_scan (int k) s = Inr (Some (hd (lev s k)), ?s')"
    using k D q' empty_iff [OF D(2) [OF k(1)]]
    by (subst mlq_scan.simps) (simp add: MAX_PRIO_def)
  moreover have "sched_ok ?s'"
    using ok k D(11) [OF k(1)] q'(2) by (auto simp: sched_ok_def nth_list_update)
  ultimately show ?thesis
    using q'(3) k(1) D(1,10) by (auto simp: dispatched_def nth_list_update)
qed

lemma scan_skip:
  assumes ok: "sched_ok s" and i: "i < 140" and e: "\<not> eligible s i"
  shows "mlq_scan (int i) s = mlq_scan (int (Suc i)) s"
  using i e sched_okD [OF ok] empty_iff [OF sched_okD(2) [OF ok i]]
  by (subst mlq_scan.simps) (auto simp: MAX_PRIO_def eligible_def add.commute)

lemma scan_to:
  assumes ok: "sched_ok s" and "i \<le> k" and "k \<le> 140" and "\<forall>j. i \<le> j \<and> j < k \<longrightarrow> \<not> eligible s j"
  shows "mlq_scan (int i) s = mlq_scan (int k) s"
  using assms(2-4)
proof (induction "k - i" arbitrary: i)
  case (Suc n)
  then have "mlq_scan (int (Suc i)) s = mlq_scan (int k) s"
    by (intro Suc.hyps(1)) auto
  moreover have "mlq_scan (int i) s = mlq_scan (int (Suc i)) s"
    using Suc by (intro scan_skip [OF ok]) auto
  ultimately show ?case by simp
qed simp

lemma scan_spec:
  assumes "sched_ok s"
  shows "least (eligible s) k \<Longrightarrow> \<exists>s'. mlq_scan 0 s = Inr (Some (hd (lev s k)), s') \<and>
      dispatched s k ((\<lambda>j. used s j)(k := used s k + 1)) s'"
    and "\<forall>j. \<not> eligible s j \<Longrightarrow> mlq_scan 0 s = Inr (None, s)"
proof -
  show "\<exists>s'. mlq_scan 0 s = Inr (Some (hd (lev s k)), s') \<and>
      dispatched s k ((\<lambda>j. used s j)(k := used s k + 1)) s'" if "least (eligible s) k"
    using scan_to [OF assms, of 0 k] scan_here [OF assms, of k] that
    by (auto simp: least_def eligible_def)
  have "mlq_scan (int 140) s = Inr (None, s)"
    by (subst mlq_scan.simps) (simp add: MAX_PRIO_def)
  then show "mlq_scan 0 s = Inr (None, s)" if "\<forall>j. \<not> eligible s j"
    using scan_to [OF assms, of 0 140] that by simp
qed

lemma reset_slots_ok:
  assumes "sched_ok s"
  shows "sched_ok (reset_slots s)" "eligible (reset_slots s) i \<longleftrightarrow> i < 140 \<and> lev s i \<noteq> []"
    "i < 140 \<Longrightarrow> used (reset_slots s) i = 0"
  using assms by (auto simp: reset_slots_def sched_ok_def MAX_PRIO_def eligible_def)

lemma reset_slots_simps [simp]:
  "mlq_ready_queue (reset_slots s) = mlq_ready_queue s" "pcbs (reset_slots s) = pcbs s"
  "running_list (reset_slots s) = running_list s"
  by (simp_all add: reset_slots_def)

text \<open>
  The policy: the highest priority with a process and dispatches left; when there is none, a new
  round begins and the highest priority with a process is served.
\<close>

lemma get_mlq_cases:
  assumes ok: "sched_ok s"
  obtains (this_round) k s' where "least (eligible s) k" "get_mlq_proc s = Inr (Some (hd (lev s k)), s')"
      "dispatched s k ((\<lambda>j. used s j)(k := used s k + 1)) s'"
  | (new_round) k s' where "\<forall>j. \<not> eligible s j" "least (\<lambda>j. j < 140 \<and> lev s j \<noteq> []) k"
      "get_mlq_proc s = Inr (Some (hd (lev s k)), s')" "dispatched s k ((\<lambda>j. 0)(k := 1)) s'"
  | (idle) s' where "\<forall>j < 140. lev s j = []" "get_mlq_proc s = Inr (None, s')" "sched_ok s'"
      "\<forall>j. lev s' j = lev s j" "pcbs s' = pcbs s" "running_list s' = running_list s"
proof -
  let ?r = "reset_slots s"
  note R = reset_slots_ok [OF ok]
  have step: "get_mlq_proc s = rbind (mlq_scan 0 s) (\<lambda>(p, s1). case p of
      Some _ \<Rightarrow> Inr (p, s1) | None \<Rightarrow> get_mlq_loop 1 (reset_slots s1))" for s
    unfolding get_mlq_proc_def
    by (subst get_mlq_loop.simps, cases "mlq_scan 0 s") (auto split: option.split)
  have step1: "get_mlq_loop 1 s = rbind (mlq_scan 0 s) (\<lambda>(p, s1). case p of
      Some _ \<Rightarrow> Inr (p, s1) | None \<Rightarrow> Inr (None, reset_slots s1))" for s
    by (subst get_mlq_loop.simps, cases "mlq_scan 0 s")
      (auto simp: get_mlq_loop.simps [of 2] split: option.split)
  consider (a) k where "least (eligible s) k"
    | (b) k where "\<forall>j. \<not> eligible s j" "least (\<lambda>j. j < 140 \<and> lev s j \<noteq> []) k"
    | (c) "\<forall>j. \<not> eligible s j" "\<forall>j < 140. lev s j = []"
    using least_exists [of "eligible s"] least_exists [of "\<lambda>j. j < 140 \<and> lev s j \<noteq> []"] by blast
  then show ?thesis
  proof cases
    case a
    with scan_spec(1) [OF ok a] step show ?thesis
      by (auto intro: this_round)
  next
    case b
    have "least (eligible ?r) k"
      using b(2) by (simp add: least_def R(2))
    then obtain s' where "mlq_scan 0 ?r = Inr (Some (hd (lev ?r k)), s')"
        "dispatched ?r k ((\<lambda>j. used ?r j)(k := used ?r k + 1)) s'"
      using scan_spec(1) [OF R(1)] by blast
    moreover have "k < 140"
      using b(2) by (simp add: least_def)
    ultimately have "get_mlq_proc s = Inr (Some (hd (lev s k)), s')" "dispatched s k ((\<lambda>j. 0)(k := 1)) s'"
      using scan_spec(2) [OF ok b(1)] R(3) by (auto simp: step step1 dispatched_def)
    with b show ?thesis
      by (intro new_round)
  next
    case c
    have "mlq_scan 0 ?r = Inr (None, ?r)"
      using c(2) R(2) by (intro scan_spec(2) [OF R(1)]) auto
    then have "get_mlq_proc s = Inr (None, reset_slots ?r)"
      using scan_spec(2) [OF ok c(1)] by (simp add: step step1)
    with c reset_slots_ok(1) [OF R(1)] show ?thesis
      by (intro idle [of "reset_slots ?r"]) simp_all
  qed
qed

subsection \<open>The other operations\<close>

abbreviation prio_of :: "sched_t \<Rightarrow> pcb_ptr \<Rightarrow> nat" where
  "prio_of s p \<equiv> unat (prio (pcbs s p))"

lemma put_mlq_spec:
  assumes ok: "sched_ok s" and p: "prio_of s p < 140"
  obtains s' where "put_mlq_proc s p = Inr s'" "sched_ok s'"
    "\<And>j. lev s' j = (if j = prio_of s p \<and> length (lev s j) < 100 then lev s j @ [p] else lev s j)"
    "slot_used s' = slot_used s" "pcbs s' = pcbs s" "running_list s' = running_list s"
proof -
  let ?i = "prio_of s p"
  note D = sched_okD [OF ok]
  obtain q' where q': "enqueue (mlq_ready_queue s ! ?i) (Some p) = Inr q'" "q_ok q'"
      "waiting q' = (if length (lev s ?i) < 100 then lev s ?i @ [p] else lev s ?i)"
    using pq.enq [OF D(2) [OF p], of p] by auto
  let ?s' = "s\<lparr>mlq_ready_queue := (mlq_ready_queue s)[?i := q']\<rparr>"
  have "put_mlq_proc s p = Inr ?s'"
    using D(1) p q'(1) arr_get_in [of ?i "mlq_ready_queue s"] arr_set_in [of ?i "mlq_ready_queue s" q']
    by (simp add: put_mlq_proc_def)
  moreover have "sched_ok ?s'"
    using ok q'(2) p by (auto simp: sched_ok_def nth_list_update)
  ultimately show ?thesis
    using q'(3) D(1) p by (intro that [of ?s']) (auto simp: nth_list_update)
qed

lemma add_proc_spec:
  fixes p
  assumes ok: "sched_ok s"
  defines "i \<equiv> min (prio_of s p) 139"
  obtains s' where "add_proc s p = Inr s'" "sched_ok s'" "prio_of s' p = i"
    "\<And>j. lev s' j = (if j = i \<and> length (lev s j) < 100 then lev s j @ [p] else lev s j)"
    "running s' = (if length (running s) < 100 then running s @ [p] else running s)"
    "slot_used s' = slot_used s" "\<And>q. q \<noteq> p \<Longrightarrow> pcbs s' q = pcbs s q"
    "\<And>q. path (pcbs s' q) = path (pcbs s q)"
proof -
  let ?f = "(pcbs s)(p := if 140 \<le> prio_of s p then (pcbs s p)\<lparr>prio := 139\<rparr> else pcbs s p)"
  obtain rl where rl: "enqueue (running_list s) (Some p) = Inr rl" "q_ok rl"
      "waiting rl = (if length (running s) < 100 then running s @ [p] else running s)"
    using pq.enq [OF sched_okD(7) [OF ok], of p] by auto
  let ?s2 = "s\<lparr>pcbs := ?f, running_list := rl\<rparr>"
  have ok2: "sched_ok ?s2"
    using ok rl(2) by (simp add: sched_ok_def)
  have i: "prio_of ?s2 p = i"
    by (simp add: i_def)
  then have i': "prio_of ?s2 p < 140"
    by (simp add: i_def)
  have "MAX_PRIO \<le> uint (prio (pcbs s p)) \<longleftrightarrow> 140 \<le> prio_of s p"
    using of_nat_le_iff [of 140 "prio_of s p", where ?'a = int] by (simp add: MAX_PRIO_def)
  then have run: "add_proc s p = put_mlq_proc ?s2 p"
    using rl(1) by (simp add: add_proc_def add_mlq_proc_def MAX_PRIO_def)
  show ?thesis
  proof (rule put_mlq_spec [OF ok2 i'])
    fix s'
    assume "put_mlq_proc ?s2 p = Inr s'" "sched_ok s'"
      "\<And>j. lev s' j = (if j = prio_of ?s2 p \<and> length (lev ?s2 j) < 100 then lev ?s2 j @ [p] else lev ?s2 j)"
      "slot_used s' = slot_used ?s2" "pcbs s' = pcbs ?s2" "running_list s' = running_list ?s2"
    then show ?thesis
      using run rl(3) unfolding i by (intro that [of s']) (auto simp: i_def)
  qed
qed

lemma finish_proc_spec:
  assumes ok: "sched_ok s"
  obtains s' where "finish_proc s p = Inr s'" "sched_ok s'" "running s' = remove1 p (running s)"
    "mlq_ready_queue s' = mlq_ready_queue s" "slot_used s' = slot_used s" "pcbs s' = pcbs s"
proof -
  obtain q' where "remove_from_queue (running_list s) (Some p) =
      Inr (if p \<in> set (running s) then 1 else 0, q')" "q_ok q'" "waiting q' = remove1 p (running s)"
    using pq.rmv [OF sched_okD(7) [OF ok]] by blast
  then show ?thesis
    using ok by (intro that [of "s\<lparr>running_list := q'\<rparr>"]) (simp_all add: finish_proc_def sched_ok_def)
qed

subsection \<open>Killing by name\<close>

definition queued :: "sched_t \<Rightarrow> pcb_ptr \<Rightarrow> bool" where
  "queued s p \<longleftrightarrow> prio_of s p < 140 \<and> p \<in> set (lev s (prio_of s p))"

text \<open>Every waiting process waits once, in the queue of its priority, and is in the running list.\<close>

definition tracked :: "sched_t \<Rightarrow> bool" where
  "tracked s \<longleftrightarrow> distinct (running s) \<and>
     (\<forall>i < 140. distinct (lev s i) \<and> (\<forall>p \<in> set (lev s i). p \<in> set (running s) \<and> prio_of s p = i))"

text \<open>The processes \<open>kill_proc_by_name\<close> is after.\<close>

definition targets :: "sched_t \<Rightarrow> string \<Rightarrow> pcb_ptr \<Rightarrow> pcb_ptr \<Rightarrow> bool" where
  "targets s name caller p \<longleftrightarrow> p \<noteq> caller \<and> proc_name (path (pcbs s p)) = name"

definition killed_set :: "pcb_ptr set \<Rightarrow> (pcb_ptr \<Rightarrow> pcb_t) \<Rightarrow> pcb_ptr \<Rightarrow> pcb_t" where
  "killed_set K f p = (if p \<in> K then (f p)\<lparr>killed := 1\<rparr> else f p)"

lemma killed_set_simps [simp]:
  "prio (killed_set K f p) = prio (f p)" "path (killed_set K f p) = path (f p)"
  "killed_set {} f = f" "killed_set K (killed_set L f) = killed_set (K \<union> L) f"
  by (auto simp: killed_set_def fun_eq_iff)



lemma take_ready_spec:
  assumes ok: "sched_ok s"
  obtains s' where "take_ready s p = Inr (queued s p, s')" "sched_ok s'"
    "\<And>j. lev s' j = (if j = prio_of s p \<and> j < 140 then remove1 p (lev s j) else lev s j)"
    "slot_used s' = slot_used s" "pcbs s' = pcbs s" "running_list s' = running_list s"
proof -
  note D = sched_okD [OF ok]
  let ?i = "prio_of s p"
  obtain q1 q2 where q: "remove_from_queue (ready_queue s) (Some p) = Inr (0, q1)" "q_ok q1" "waiting q1 = []"
      "remove_from_queue (run_queue s) (Some p) = Inr (0, q2)" "q_ok q2" "waiting q2 = []"
    using pq.rmv [OF D(3), of p] pq.rmv [OF D(5), of p] D(4,6) by auto
  let ?s2 = "s\<lparr>ready_queue := q1, run_queue := q2\<rparr>"
  have ok2: "sched_ok ?s2"
    using ok q by (simp add: sched_ok_def)
  have lt: "uint (prio (pcbs s p)) < MAX_PRIO \<longleftrightarrow> ?i < 140"
    using of_nat_less_iff [of ?i 140, where ?'a = int] by (simp add: MAX_PRIO_def)
  show ?thesis
  proof (cases "?i < 140")
    case False
    with q lt show ?thesis
      by (intro that [OF _ ok2]) (auto simp: take_ready_def queued_def)
  next
    case True
    obtain q3 where q3: "remove_from_queue (mlq_ready_queue s ! ?i) (Some p) =
        Inr (if p \<in> set (lev s ?i) then 1 else 0, q3)" "q_ok q3" "waiting q3 = remove1 p (lev s ?i)"
      using pq.rmv [OF D(2) [OF True], of p] by blast
    let ?s3 = "?s2\<lparr>mlq_ready_queue := (mlq_ready_queue s)[?i := q3]\<rparr>"
    have "take_ready s p = Inr (queued s p, ?s3)"
      using q lt True q3(1) D(1) arr_get_in [of ?i "mlq_ready_queue s"] arr_set_in [of ?i "mlq_ready_queue s" q3]
      by (auto simp: take_ready_def queued_def)
    moreover have "sched_ok ?s3"
      using ok2 q3(2) True by (auto simp: sched_ok_def nth_list_update)
    ultimately show ?thesis
      using q3(3) True D(1) by (intro that [of ?s3]) (auto simp: nth_list_update)
  qed
qed

text \<open>The outcome of the loop from index \<open>i\<close> on: \<open>V\<close> is the set of processes to kill.\<close>

definition kill_outcome :: "pcb_ptr set \<Rightarrow> nat \<Rightarrow> sched_t \<Rightarrow> sched_t \<Rightarrow> bool" where
  "kill_outcome V i s s' \<longleftrightarrow> sched_ok s' \<and> tracked s' \<and> slot_used s' = slot_used s \<and>
     running s' = take i (running s) @ filter (\<lambda>p. \<not> (p \<in> V \<and> queued s p)) (drop i (running s)) \<and>
     (\<forall>j < 140. lev s' j = filter (\<lambda>p. \<not> (p \<in> V \<and> p \<in> set (drop i (running s)))) (lev s j)) \<and>
     pcbs s' = killed_set (V \<inter> set (drop i (running s))) (pcbs s)"

lemma kill_outcome_skip:
  assumes tr: "tracked s" and i: "i < length (running s)" and p: "running s ! i = p" "\<not> (p \<in> V \<and> queued s p)"
    and s2: "running s2 = running s" "slot_used s2 = slot_used s" "\<And>j. j < 140 \<Longrightarrow> lev s2 j = lev s j"
      "pcbs s2 = killed_set (V \<inter> {p}) (pcbs s)"
    and out: "kill_outcome V (Suc i) s2 s'"
  shows "kill_outcome V i s s'"
proof -
  have dr: "drop i (running s) = p # drop (Suc i) (running s)"
    using i p(1) Cons_nth_drop_Suc by metis
  have tk: "take (Suc i) (running s) = take i (running s) @ [p]"
    using i p(1) by (simp add: take_Suc_conv_app_nth)
  have qs: "queued s2 = queued s"
    using s2(3) by (auto simp: queued_def fun_eq_iff s2(4))
  have nl: "p \<notin> V \<or> p \<notin> set (lev s j)" if "j < 140" for j
    using tr that p(2) by (auto simp: tracked_def queued_def)
  have "filter (\<lambda>q. \<not> (q \<in> V \<and> q \<in> set (drop (Suc i) (running s)))) (lev s j) =
      filter (\<lambda>q. \<not> (q \<in> V \<and> q \<in> set (drop i (running s)))) (lev s j)" if "j < 140" for j
    using nl [OF that] by (intro filter_cong) (auto simp: dr)
  moreover have "V \<inter> set (drop (Suc i) (running s)) \<union> V \<inter> {p} = V \<inter> set (drop i (running s))"
    by (auto simp: dr)
  ultimately show ?thesis
    using out p(2) by (simp add: kill_outcome_def qs dr tk s2)
qed

lemma reap_shape:
  assumes tr: "tracked s" and i: "i < length (running s)" and p: "running s ! i = p"
    and s2: "running s2 = remove1 p (running s)"
      "\<And>j. lev s2 j = (if j = prio_of s p \<and> j < 140 then remove1 p (lev s j) else lev s j)"
      "pcbs s2 = killed_set {p} (pcbs s)"
  shows "drop i (running s) = p # drop (Suc i) (running s)" "p \<notin> set (drop (Suc i) (running s))"
    "take i (running s2) = take i (running s)" "drop i (running s2) = drop (Suc i) (running s)"
    "q \<noteq> p \<Longrightarrow> queued s2 q = queued s q"
proof -
  show dr: "drop i (running s) = p # drop (Suc i) (running s)"
    using i p Cons_nth_drop_Suc by metis
  have sp: "running s = take i (running s) @ p # drop (Suc i) (running s)"
    using i p id_take_nth_drop by blast
  have "distinct (take i (running s) @ p # drop (Suc i) (running s))"
    using tr sp by (simp add: tracked_def)
  then have np: "p \<notin> set (take i (running s))" and "p \<notin> set (drop (Suc i) (running s))"
    by simp_all
  then show "p \<notin> set (drop (Suc i) (running s))"
    by simp
  have "running s2 = take i (running s) @ drop (Suc i) (running s)"
    using take_drop_remove1 [OF i p np] by (simp add: s2(1))
  then show "take i (running s2) = take i (running s)" "drop i (running s2) = drop (Suc i) (running s)"
    using i by simp_all
  show "q \<noteq> p \<Longrightarrow> queued s2 q = queued s q"
    by (auto simp: queued_def s2(2,3))
qed

lemma kill_outcome_reap:
  assumes tr: "tracked s" and i: "i < length (running s)" and p: "running s ! i = p"
    and s2: "running s2 = remove1 p (running s)"
      "\<And>j. lev s2 j = (if j = prio_of s p \<and> j < 140 then remove1 p (lev s j) else lev s j)"
      "pcbs s2 = killed_set {p} (pcbs s)" "slot_used s2 = slot_used s"
    and V: "p \<in> V" "queued s p" and out: "kill_outcome V i s2 s'"
  shows "kill_outcome V i s s'"
proof -
  note S = reap_shape [OF tr i p s2(1-3)]
  have f1: "filter (\<lambda>q. \<not> (q \<in> V \<and> queued s2 q)) (drop (Suc i) (running s)) =
      filter (\<lambda>q. \<not> (q \<in> V \<and> queued s q)) (drop (Suc i) (running s))"
    using S(2,5) by (intro filter_cong) (auto, metis+)
  have rm: "lev s2 j = filter (\<lambda>q. q \<noteq> p) (lev s j)" if "j < 140" for j
  proof (cases "j = prio_of s p")
    case True
    then show ?thesis
      using tr that unfolding s2(2) tracked_def
      by (auto simp: distinct_remove1_removeAll removeAll_filter_not_eq intro: filter_cong)
  next
    case False
    then have "\<forall>q \<in> set (lev s j). q \<noteq> p"
      using tr that by (auto simp: tracked_def)
    with False show ?thesis
      by (simp add: s2(2) filter_id_conv)
  qed
  have "filter (\<lambda>q. \<not> (q \<in> V \<and> q \<in> set (drop (Suc i) (running s)))) (lev s2 j) =
      filter (\<lambda>q. \<not> (q \<in> V \<and> q \<in> set (drop i (running s)))) (lev s j)" if "j < 140" for j
    using V(1) unfolding rm [OF that] filter_filter by (intro filter_cong) (auto simp: S(1))
  moreover have "V \<inter> set (drop (Suc i) (running s)) \<union> {p} = V \<inter> set (drop i (running s))"
    using V(1) by (auto simp: S(1))
  ultimately show ?thesis
    using out V by (simp add: kill_outcome_def S(1,3,4) f1 [simplified] s2(3,4))
qed

text \<open>
  One iteration: the process at index \<open>i\<close> is left alone, marked, or marked and reaped. A victim is
  taken out of both lists when it waits.
\<close>

lemma running_length: "sched_ok s \<Longrightarrow> length (running s) \<le> 100"
  using length_waiting [OF sched_okD(7)] sched_okD(7) [of s] by (auto simp: q_ok_def)

lemma running_get:
  assumes ok: "sched_ok s" and i: "i < length (running s)"
  shows "proc_get (running_list s) (int i) = Inr (running s ! i)" "int i < qsize (running_list s)"
  using i length_waiting [OF sched_okD(7) [OF ok]] waiting_nth [of i "running_list s"] sched_okD(7) [OF ok]
  by (auto simp: proc_get_def q_ok_def)

lemma kill_hit:
  assumes ok: "sched_ok s" and get: "proc_get (running_list s) (int i) = Inr p" "int i < qsize (running_list s)"
    and V: "p \<noteq> caller" "proc_name (path (pcbs s p)) = name" and room: "length vs < 100"
  obtains s2 rl where "sched_ok s2" "q_ok rl" "waiting rl = remove1 p (running s)" "slot_used s2 = slot_used s"
    "\<And>j. lev s2 j = (if j = prio_of s p \<and> j < 140 then remove1 p (lev s j) else lev s j)"
    "pcbs s2 = killed_set {p} (pcbs s)" "running_list s2 = running_list s"
    "kill_loop name caller (int i) kld vs s =
      (if queued s p then kill_loop name caller (int i) (kld + 1) (vs @ [p]) (s2\<lparr>running_list := rl\<rparr>)
       else kill_loop name caller (int (Suc i)) (kld + 1) vs s2)"
proof -
  let ?s1 = "s\<lparr>pcbs := killed_set {p} (pcbs s)\<rparr>"
  have ok1: "sched_ok ?s1"
    using ok by (simp add: sched_ok_def)
  have q1: "queued ?s1 = queued s"
    by (simp add: queued_def fun_eq_iff)
  have upd: "(pcbs s)(p := (pcbs s p)\<lparr>killed := 1\<rparr>) = killed_set {p} (pcbs s)"
    by (simp add: fun_eq_iff killed_set_def)
  obtain s2 where s2: "take_ready ?s1 p = Inr (queued s p, s2)" "sched_ok s2"
      "\<And>j. lev s2 j = (if j = prio_of s p \<and> j < 140 then remove1 p (lev s j) else lev s j)"
      "slot_used s2 = slot_used s" "pcbs s2 = killed_set {p} (pcbs s)" "running_list s2 = running_list s"
    by (rule take_ready_spec [OF ok1, of p]) (auto simp: q1)
  obtain rl where rl: "remove_from_queue (running_list s) (Some p) =
      Inr (if p \<in> set (running s) then 1 else 0, rl)" "q_ok rl" "waiting rl = remove1 p (running s)"
    using pq.rmv [OF sched_okD(7) [OF ok], of p] by blast
  have "kill_loop name caller (int i) kld vs s =
      (if queued s p then kill_loop name caller (int i) (kld + 1) (vs @ [p]) (s2\<lparr>running_list := rl\<rparr>)
       else kill_loop name caller (int (Suc i)) (kld + 1) vs s2)"
    using V get s2(1,6) rl(1) room by (subst kill_loop.simps) (auto simp: upd add.commute MAX_QUEUE_SIZE_def)
  with s2 rl show ?thesis
    by (intro that [of s2 rl]) simp_all
qed

lemma kill_step:
  assumes ok: "sched_ok s" and tr: "tracked s" and i: "i < length (running s)" and p: "p = running s ! i"
    and V: "\<forall>p. p \<in> V \<longleftrightarrow> p \<noteq> caller \<and> proc_name (path (pcbs s p)) = name" and room: "length vs < 100"
  obtains (skip) s2 where "\<not> (p \<in> V \<and> queued s p)"
      "kill_loop name caller (int i) kld vs s =
        kill_loop name caller (int (Suc i)) (if p \<in> V then kld + 1 else kld) vs s2"
      "sched_ok s2" "tracked s2" "running s2 = running s" "slot_used s2 = slot_used s"
      "\<And>j. j < 140 \<Longrightarrow> lev s2 j = lev s j" "pcbs s2 = killed_set (V \<inter> {p}) (pcbs s)"
  | (reap) s2 where "p \<in> V" "queued s p"
      "kill_loop name caller (int i) kld vs s = kill_loop name caller (int i) (kld + 1) (vs @ [p]) s2"
      "sched_ok s2" "tracked s2" "running s2 = remove1 p (running s)" "slot_used s2 = slot_used s"
      "\<And>j. lev s2 j = (if j = prio_of s p \<and> j < 140 then remove1 p (lev s j) else lev s j)"
      "pcbs s2 = killed_set {p} (pcbs s)"
proof -
  have get: "proc_get (running_list s) (int i) = Inr p" and sz: "int i < qsize (running_list s)"
    using running_get [OF ok i] p by simp_all
  show ?thesis
  proof (cases "p \<in> V")
    case False
    then have "kill_loop name caller (int i) kld vs s = kill_loop name caller (int (Suc i)) kld vs s"
      using V get sz by (subst kill_loop.simps) (auto simp: add.commute)
    with False ok tr show ?thesis
      by (intro skip [of s]) simp_all
  next
    case True
    then have V': "p \<noteq> caller" "proc_name (path (pcbs s p)) = name"
      using V by simp_all
    obtain s2 rl where s2: "sched_ok s2" "slot_used s2 = slot_used s"
        "\<And>j. lev s2 j = (if j = prio_of s p \<and> j < 140 then remove1 p (lev s j) else lev s j)"
        "pcbs s2 = killed_set {p} (pcbs s)" "running_list s2 = running_list s" and rl: "q_ok rl" "waiting rl = remove1 p (running s)"
        and run: "kill_loop name caller (int i) kld vs s =
          (if queued s p then kill_loop name caller (int i) (kld + 1) (vs @ [p]) (s2\<lparr>running_list := rl\<rparr>)
           else kill_loop name caller (int (Suc i)) (kld + 1) vs s2)"
      by (rule kill_hit [OF ok get sz V' room, of kld]) blast
    show ?thesis
    proof (cases "queued s p")
      case False
      have lv: "lev s2 j = lev s j" if "j < 140" for j
        using False that by (auto simp: s2(3) queued_def remove1_idem)
      then have "tracked s2"
        using tr by (simp add: tracked_def s2(4,5))
      then show ?thesis
        using False True run s2 lv by (intro skip [of s2]) simp_all
    next
      case q: True
      have "tracked (s2\<lparr>running_list := rl\<rparr>)"
        using tr by (auto simp: tracked_def s2(3,4) rl(2) in_set_remove1)
      moreover have "sched_ok (s2\<lparr>running_list := rl\<rparr>)"
        using s2(1) rl(1) by (simp add: sched_ok_def)
      ultimately show ?thesis
        using True q run s2 rl(2) by (intro reap [of "s2\<lparr>running_list := rl\<rparr>"]) simp_all
    qed
  qed
qed

lemma kill_loop_spec:
  assumes "sched_ok s" and "tracked s" and "i \<le> length (running s)"
    and "\<forall>p. p \<in> V \<longleftrightarrow> p \<noteq> caller \<and> proc_name (path (pcbs s p)) = name" and "length vs + (length (running s) - i) \<le> 100"
  shows "\<exists>s'. kill_loop name caller (int i) kld vs s =
      Inr (kld + int (length (filter (\<lambda>p. p \<in> V) (drop i (running s)))),
        vs @ filter (\<lambda>p. p \<in> V \<and> queued s p) (drop i (running s)), s') \<and> kill_outcome V i s s'"
  using assms
proof (induction "length (running s) - i" arbitrary: i s kld vs)
  case 0
  then have "kill_loop name caller (int i) kld vs s = Inr (kld, vs, s)"
    using length_waiting [OF sched_okD(7) [OF 0(2)]] by (subst kill_loop.simps) simp
  with 0 show ?case
    by (simp add: kill_outcome_def)
next
  case (Suc n)
  let ?p = "running s ! i" and ?r = "running s"
  have i: "i < length ?r" and n: "n = length ?r - Suc i"
    using Suc.hyps(2) by simp_all
  have dr: "drop i ?r = ?p # drop (Suc i) ?r"
    using i by (simp add: Cons_nth_drop_Suc)
  have room: "length vs < 100"
    using Suc.prems(5) i by simp
  from Suc.prems(1,2) i refl Suc.prems(4) room show ?case
  proof (cases rule: kill_step [where kld = kld])
    case (skip s2)
    have V2: "\<forall>p. p \<in> V \<longleftrightarrow> p \<noteq> caller \<and> proc_name (path (pcbs s2 p)) = name"
      using Suc.prems(4) by (simp add: skip(8))
    have q2: "queued s2 = queued s"
      using skip(7) by (auto simp: queued_def fun_eq_iff skip(8))
    have "length vs + (length (running s2) - Suc i) \<le> 100"
      using Suc.prems(5) by (simp add: skip(5))
    from Suc.hyps(1) [of s2 "Suc i", OF _ skip(3,4) _ V2 this] obtain s' where
      "kill_loop name caller (int (Suc i)) (if ?p \<in> V then kld + 1 else kld) vs s2 =
        Inr ((if ?p \<in> V then kld + 1 else kld) + int (length (filter (\<lambda>p. p \<in> V) (drop (Suc i) ?r))),
          vs @ filter (\<lambda>p. p \<in> V \<and> queued s p) (drop (Suc i) ?r), s')" "kill_outcome V (Suc i) s2 s'"
      using i n by (auto simp: skip(5) q2)
    moreover from this(2) have "kill_outcome V i s s'"
      using skip by (intro kill_outcome_skip [OF Suc.prems(2) i refl]) simp_all
    ultimately show ?thesis
      using skip(1,2) by (auto simp: dr)
  next
    case (reap s2)
    note S = reap_shape [OF Suc.prems(2) i refl reap(6,8,9)]
    have V2: "\<forall>p. p \<in> V \<longleftrightarrow> p \<noteq> caller \<and> proc_name (path (pcbs s2 p)) = name"
      using Suc.prems(4) by (simp add: reap(9))
    have len: "length (running s2) = length ?r - 1"
      using i by (simp add: reap(6) length_remove1)
    have f: "filter (\<lambda>p. p \<in> V \<and> queued s2 p) (drop (Suc i) ?r) =
        filter (\<lambda>p. p \<in> V \<and> queued s p) (drop (Suc i) ?r)"
      using S(2,5) by (intro filter_cong) (auto, metis+)
    have hyp: "n = length (running s2) - i" "i \<le> length (running s2)"
      using i n len by simp_all
    have "length (vs @ [?p]) + (length (running s2) - i) \<le> 100"
      using Suc.prems(5) i by (simp add: len)
    from Suc.hyps(1) [OF hyp(1) reap(4,5) hyp(2) V2 this, of "kld + 1"] obtain s' where
      "kill_loop name caller (int i) (kld + 1) (vs @ [?p]) s2 =
        Inr (kld + 1 + int (length (filter (\<lambda>p. p \<in> V) (drop (Suc i) ?r))),
          (vs @ [?p]) @ filter (\<lambda>p. p \<in> V \<and> queued s p) (drop (Suc i) ?r), s')" "kill_outcome V i s2 s'"
      by (auto simp: S(4) f)
    moreover from this(2) have "kill_outcome V i s s'"
      using kill_outcome_reap [OF Suc.prems(2) i refl reap(6,8,9,7) reap(1,2)] by simp
    ultimately show ?thesis
      using reap(1-3) by (auto simp: dr)
  qed
qed

lemma kill_proc_by_name_spec:
  assumes "sched_ok s" and "tracked s"
  shows "\<exists>s'. kill_proc_by_name s name caller =
      Inr (int (length (filter (targets s name caller) (running s))), filter (\<lambda>p. targets s name caller p \<and> queued s p) (running s), s') \<and>
    sched_ok s' \<and> tracked s' \<and>
    running s' = filter (\<lambda>p. \<not> (targets s name caller p \<and> queued s p)) (running s) \<and>
    (\<forall>i < 140. lev s' i = filter (\<lambda>p. \<not> targets s name caller p) (lev s i)) \<and>
    (\<forall>p. pcbs s' p = (if targets s name caller p \<and> p \<in> set (running s) then (pcbs s p)\<lparr>killed := 1\<rparr> else pcbs s p))"
proof -
  have V: "\<forall>p. p \<in> Collect (targets s name caller) \<longleftrightarrow> p \<noteq> caller \<and> proc_name (path (pcbs s p)) = name"
    by (simp add: targets_def)
  obtain s' where s': "kill_loop name caller 0 0 [] s =
      Inr (int (length (filter (targets s name caller) (running s))), filter (\<lambda>p. targets s name caller p \<and> queued s p) (running s), s')"
      "kill_outcome (Collect (targets s name caller)) 0 s s'"
    using kill_loop_spec [OF assms(1,2) le0 V, of "[]" 0] running_length [OF assms(1)] by auto
  have "filter (\<lambda>p. \<not> (targets s name caller p \<and> p \<in> set (running s))) (lev s i) = filter (\<lambda>p. \<not> targets s name caller p) (lev s i)" if "i < 140" for i
    using assms(2) that by (intro filter_cong) (auto simp: tracked_def)
  with s' show ?thesis
    by (auto simp: kill_proc_by_name_def kill_outcome_def killed_set_def)
qed

subsection \<open>No starvation\<close>

text \<open>
  A run of the scheduler is a sequence of calls. \<open>Get\<close> is a CPU asking for work, \<open>Put\<close> a CPU
  returning a process at the end of its time slice, \<open>Add\<close> the loader handing in a new process and
  \<open>Finish\<close> a CPU reporting the end of a process; \<open>Kill\<close> is the system call \<open>killall\<close> of a process,
  with the name of its victims.
\<close>

datatype sched_op = Get | Put pcb_ptr | Add pcb_ptr | Finish pcb_ptr | Kill string pcb_ptr

fun run_op :: "sched_t \<Rightarrow> sched_op \<Rightarrow> (pcb_ptr option \<times> sched_t) res" where
  "run_op s Get = get_proc s"
| "run_op s (Put p) = rbind (put_proc s p) (\<lambda>s'. Inr (None, s'))"
| "run_op s (Add p) = rbind (add_proc s p) (\<lambda>s'. Inr (None, s'))"
| "run_op s (Finish p) = rbind (finish_proc s p) (\<lambda>s'. Inr (None, s'))"
| "run_op s (Kill name p) = rbind (kill_proc_by_name s name p) (\<lambda>(_, _, s'). Inr (None, s'))"

fun run_ops :: "sched_t \<Rightarrow> sched_op list \<Rightarrow> (pcb_ptr option list \<times> sched_t) res" where
  "run_ops s [] = Inr ([], s)"
| "run_ops s (x # xs) =
     rbind (run_op s x) (\<lambda>(p, s1). rbind (run_ops s1 xs) (\<lambda>(ps, s2). Inr (p # ps, s2)))"

definition prios_ok :: "sched_t \<Rightarrow> sched_op list \<Rightarrow> bool" where
  "prios_ok s xs \<longleftrightarrow> (\<forall>p. Put p \<in> set xs \<longrightarrow> prio_of s p < 140)"

text \<open>No call of the sequence kills \<open>p\<close>.\<close>

definition spared :: "sched_t \<Rightarrow> pcb_ptr \<Rightarrow> sched_op list \<Rightarrow> bool" where
  "spared s p xs \<longleftrightarrow> (\<forall>name caller. Kill name caller \<in> set xs \<longrightarrow> \<not> targets s name caller p)"

definition waits_at :: "sched_t \<Rightarrow> pcb_ptr \<Rightarrow> nat \<Rightarrow> nat \<Rightarrow> bool" where
  "waits_at s p i n \<longleftrightarrow> i < 140 \<and> n < length (lev s i) \<and> lev s i ! n = p"

text \<open>
  The dispatches left in the current round, and from it a bound on the number of dispatches before
  the process at position \<open>n\<close> of priority \<open>i\<close> is served: a round has 9870 dispatches in all, and
  at least one process of priority \<open>i\<close> leaves its queue between two resets.
\<close>

definition budget :: "sched_t \<Rightarrow> int" where
  "budget s = (\<Sum>j<140. 140 - int j - used s j)"

definition wait_bound :: "sched_t \<Rightarrow> nat \<Rightarrow> nat \<Rightarrow> int" where
  "wait_bound s i n = budget s + 9870 * (int n + (if used s i = 140 - int i then 1 else 0))"

lemma total_slots: "(\<Sum>j<140. 140 - int j) = 9870"
  by code_simp

lemma budget_eq: "budget s = 9870 - (\<Sum>j<140. used s j)"
  using total_slots by (simp add: budget_def sum_subtractf)

lemma budget_range:
  assumes "sched_ok s"
  shows "0 \<le> budget s" "budget s \<le> 9870"
proof -
  show "0 \<le> budget s"
    unfolding budget_def using sched_okD(12) [OF assms] by (intro sum_nonneg) auto
  have "0 \<le> (\<Sum>j<140. used s j)"
    using sched_okD(11) [OF assms] by (intro sum_nonneg) auto
  then show "budget s \<le> 9870"
    by (simp add: budget_eq)
qed

lemma wait_bound_less:
  assumes ok: "sched_ok s" and i: "i < 140"
  shows "wait_bound s i n < 9870 * (int n + 2)"
proof (cases "used s i = 140 - int i")
  case True
  have "used s i \<le> (\<Sum>j<140. used s j)"
    using sched_okD(11) [OF ok] i by (intro member_le_sum) auto
  with True i show ?thesis
    by (simp add: wait_bound_def budget_eq)
next
  case False
  with budget_range(2) [OF ok] show ?thesis
    by (simp add: wait_bound_def)
qed

lemma budget_dispatched:
  assumes "dispatched s k u s'" and "k < 140"
  shows "budget s' = 9870 - (\<Sum>j<140. u j)"
  using assms by (simp add: budget_eq dispatched_def)

lemma sum_upd:
  assumes "k < (140 :: nat)"
  shows "(\<Sum>j<140. if j = k then x else f j) = (\<Sum>j<140. f j) - f k + (x :: int)"
proof -
  have "(\<Sum>j<140. if j = k then x else f j) = x + (\<Sum>j\<in>{..<140} - {k}. f j)"
    using assms by (subst sum.remove [of _ k]) (auto intro: sum.cong)
  moreover have "(\<Sum>j<140. f j) = f k + (\<Sum>j\<in>{..<140} - {k}. f j)"
    using assms by (intro sum.remove) auto
  ultimately show ?thesis by simp
qed

lemma get_progress:
  assumes ok: "sched_ok s" and w: "waits_at s p i n"
  shows "\<exists>q s'. get_proc s = Inr (Some q, s') \<and> sched_ok s' \<and> pcbs s' = pcbs s \<and>
    (q = p \<or> (\<exists>m. waits_at s' p i m \<and> wait_bound s' i m < wait_bound s i n))"
proof -
  have i: "i < 140" "lev s i \<noteq> []"
    using w by (auto simp: waits_at_def)
  have pos: "hd (lev s i) = p \<or> (\<exists>m. n = Suc m \<and> waits_at s' p i m)"
    if "\<forall>j. lev s' j = (if j = i then tl (lev s i) else lev s j)" for s'
    using w that by (cases n; cases "lev s i") (auto simp: waits_at_def)
  have other: "waits_at s' p i n" if "\<forall>j. lev s' j = (if j = k then tl (lev s k) else lev s j)" "k \<noteq> i" for s' k
    using w that by (simp add: waits_at_def)
  from ok show ?thesis
  proof (cases rule: get_mlq_cases)
    case (this_round k s')
    then have k: "k < 140"
      by (simp add: least_def eligible_def)
    have b: "budget s' = budget s - 1"
      using budget_dispatched [OF this_round(3) k] k by (simp add: sum_upd budget_eq)
    have u: "used s' i = (if i = k then used s i + 1 else used s i)"
      using this_round(3) i by (simp add: dispatched_def)
    have lv: "\<forall>j. lev s' j = (if j = k then tl (lev s k) else lev s j)"
      using this_round(3) by (simp add: dispatched_def)
    show ?thesis
    proof (cases "k = i")
      case True
      with pos [of s'] lv b this_round show ?thesis
        by (force simp: get_proc_def dispatched_def wait_bound_def)
    next
      case False
      with other [OF lv] b u this_round show ?thesis
        by (force simp: get_proc_def dispatched_def wait_bound_def)
    qed
  next
    case (new_round k s')
    then have k: "k < 140"
      by (simp add: least_def)
    have full: "used s i = 140 - int i"
      using new_round(1) i sched_okD(12) [OF ok i(1)] by (auto simp: eligible_def)
    have b: "budget s' < 9870 + budget s"
      using budget_dispatched [OF new_round(4) k] k budget_range(1) [OF ok] by (simp add: sum_upd)
    have u: "used s' i = (if i = k then 1 else 0)"
      using new_round(4) i by (simp add: dispatched_def)
    have lv: "\<forall>j. lev s' j = (if j = k then tl (lev s k) else lev s j)"
      using new_round(4) by (simp add: dispatched_def)
    show ?thesis
    proof (cases "k = i")
      case True
      with pos [of s'] lv b full new_round show ?thesis
        by (force simp: get_proc_def dispatched_def wait_bound_def)
    next
      case False
      with other [OF lv] b u full i new_round show ?thesis
        by (force simp: get_proc_def dispatched_def wait_bound_def)
    qed
  next
    case (idle s')
    with i show ?thesis by simp
  qed
qed

text \<open>A kill that does not aim at \<open>p\<close> can only move it forward in its queue.\<close>

lemma remove1_moves_up:
  assumes "n < length xs" and "xs ! n = p" and "p \<noteq> q"
  shows "\<exists>m \<le> n. m < length (remove1 q xs) \<and> remove1 q xs ! m = p"
  using assms
proof (induction xs arbitrary: n)
  case (Cons x xs)
  show ?case
  proof (cases n)
    case 0
    with Cons.prems show ?thesis by auto
  next
    case (Suc k)
    with Cons.prems Cons.IH [of k] obtain m where "m \<le> k" "m < length (remove1 q xs)" "remove1 q xs ! m = p"
      by auto
    with Suc Cons.prems show ?thesis
      by (cases "x = q") (auto intro: exI [of _ k] exI [of _ "Suc m"])
  qed
qed simp

definition moves_up :: "pcb_ptr \<Rightarrow> sched_t \<Rightarrow> sched_t \<Rightarrow> bool" where
  "moves_up p s s' \<longleftrightarrow> (\<forall>i n. waits_at s p i n \<longrightarrow> (\<exists>m \<le> n. waits_at s' p i m))"

lemma moves_up_trans [trans]: "moves_up p s s1 \<Longrightarrow> moves_up p s1 s2 \<Longrightarrow> moves_up p s s2"
  unfolding moves_up_def by (meson order_trans)

lemma moves_upI: "(\<And>i n. waits_at s p i n \<Longrightarrow> waits_at s' p i n) \<Longrightarrow> moves_up p s s'"
  unfolding moves_up_def by blast

text \<open>What every call but \<open>Get\<close> keeps.\<close>

definition keeps_sched :: "sched_t \<Rightarrow> sched_t \<Rightarrow> bool" where
  "keeps_sched s s' \<longleftrightarrow> sched_ok s' \<and> slot_used s' = slot_used s \<and> (\<forall>q. path (pcbs s' q) = path (pcbs s q)) \<and>
     (\<forall>q. prio_of s q < 140 \<longrightarrow> prio_of s' q < 140)"

lemma keeps_sched_trans: "keeps_sched s s1 \<Longrightarrow> keeps_sched s1 s2 \<Longrightarrow> keeps_sched s s2"
  by (simp add: keeps_sched_def)

lemma keeps_sched_ops: "keeps_sched s s' \<Longrightarrow> prios_ok s (x # xs) \<Longrightarrow> prios_ok s' xs"
    "keeps_sched s s' \<Longrightarrow> spared s p (x # xs) \<Longrightarrow> spared s' p xs"
  by (simp_all add: keeps_sched_def prios_ok_def spared_def targets_def)

lemma kill_loop_keeps:
  assumes "sched_ok s" and "i \<le> length (running s)" and "length vs + (length (running s) - i) \<le> 100"
  shows "\<exists>n vs' s'. kill_loop name caller (int i) kld vs s = Inr (n, vs', s') \<and> keeps_sched s s' \<and>
    (\<forall>p. \<not> targets s name caller p \<longrightarrow> moves_up p s s')"
  using assms
proof (induction "length (running s) - i" arbitrary: i s kld vs)
  case 0
  then have "kill_loop name caller (int i) kld vs s = Inr (kld, vs, s)"
    using length_waiting [OF sched_okD(7) [OF 0(2)]] by (subst kill_loop.simps) simp
  with 0(2) show ?case
    by (auto simp: keeps_sched_def intro: moves_upI)
next
  case (Suc k)
  let ?p = "running s ! i"
  have i: "i < length (running s)" and room: "length vs < 100"
    using Suc.hyps(2) Suc.prems(3) by simp_all
  note get = running_get [OF Suc.prems(1) i]
  show ?case
  proof (cases "targets s name caller ?p")
    case False
    then have "kill_loop name caller (int i) kld vs s = kill_loop name caller (int (Suc i)) kld vs s"
      using get by (subst kill_loop.simps) (auto simp: add.commute targets_def)
    with Suc.hyps(1) [of s "Suc i" vs kld] Suc.hyps(2) Suc.prems i show ?thesis by simp
  next
    case True
    then have V: "?p \<noteq> caller" "proc_name (path (pcbs s ?p)) = name"
      by (simp_all add: targets_def)
    obtain s2 rl where s2: "sched_ok s2" "slot_used s2 = slot_used s"
        "\<And>j. lev s2 j = (if j = prio_of s ?p \<and> j < 140 then remove1 ?p (lev s j) else lev s j)"
        "pcbs s2 = killed_set {?p} (pcbs s)" "running_list s2 = running_list s" and rl: "q_ok rl" "waiting rl = remove1 ?p (running s)"
        and run: "kill_loop name caller (int i) kld vs s =
          (if queued s ?p then kill_loop name caller (int i) (kld + 1) (vs @ [?p]) (s2\<lparr>running_list := rl\<rparr>)
           else kill_loop name caller (int (Suc i)) (kld + 1) vs s2)"
      by (rule kill_hit [OF Suc.prems(1) get V room, of kld]) blast
    define s3 where "s3 = (if queued s ?p then s2\<lparr>running_list := rl\<rparr> else s2)"
    have s3: "keeps_sched s s3" "sched_ok s3" "targets s3 name caller = targets s name caller"
      using s2 rl(1) by (auto simp: s3_def keeps_sched_def sched_ok_def targets_def fun_eq_iff)
    have up: "moves_up p s s3" if "\<not> targets s name caller p" for p
    proof -
      have "p \<noteq> ?p"
        using that True by auto
      with remove1_moves_up [of _ "lev s _" p ?p] show ?thesis
        by (auto simp: moves_up_def waits_at_def s3_def s2(3))
    qed
    have "\<exists>n vs' s'. kill_loop name caller (int i) kld vs s = Inr (n, vs', s') \<and> keeps_sched s3 s' \<and>
        (\<forall>p. \<not> targets s3 name caller p \<longrightarrow> moves_up p s3 s')"
    proof (cases "queued s ?p")
      case True
      then have "length (running s3) = length (running s) - 1"
        using i rl(2) by (simp add: s3_def length_remove1)
      with Suc.hyps(1) [of s3 i "vs @ [?p]" "kld + 1"] Suc.hyps(2) Suc.prems(3) s3(2) i run True show ?thesis
        by (simp add: s3_def)
    next
      case False
      with Suc.hyps(1) [of s3 "Suc i" vs "kld + 1"] Suc.hyps(2) Suc.prems(3) s3(2) i run s2(5) show ?thesis
        by (simp add: s3_def)
    qed
    with s3 up show ?thesis
      by (metis keeps_sched_trans moves_up_trans)
  qed
qed

lemma run_op_other:
  assumes ok: "sched_ok s" and x: "x \<noteq> Get" and pr: "prios_ok s (x # xs)"
  shows "\<exists>s'. run_op s x = Inr (None, s') \<and> keeps_sched s s' \<and> (\<forall>p. spared s p (x # xs) \<longrightarrow> moves_up p s s')"
proof (cases x)
  case Get
  with x show ?thesis by simp
next
  case (Put p)
  with pr have "prio_of s p < 140"
    by (simp add: prios_ok_def)
  from put_mlq_spec [OF ok this] obtain s' where "put_mlq_proc s p = Inr s'" "sched_ok s'"
      "\<forall>j. lev s' j = (if j = prio_of s p \<and> length (lev s j) < 100 then lev s j @ [p] else lev s j)"
      "slot_used s' = slot_used s" "pcbs s' = pcbs s"
    by metis
  with Put show ?thesis
    by (auto simp: put_proc_def keeps_sched_def waits_at_def nth_append intro!: moves_upI)
next
  case (Add p)
  obtain s' where s': "add_proc s p = Inr s'" "sched_ok s'"
      "prio_of s' p = min (prio_of s p) 139"
      "\<forall>j. lev s' j = (if j = min (prio_of s p) 139 \<and> length (lev s j) < 100 then lev s j @ [p] else lev s j)"
      "slot_used s' = slot_used s" "\<forall>q. q \<noteq> p \<longrightarrow> pcbs s' q = pcbs s q" "\<forall>q. path (pcbs s' q) = path (pcbs s q)"
    by (rule add_proc_spec [OF ok, of p]) blast
  have "prio_of s' q < 140" if "prio_of s q < 140" for q
    using that s'(3,6) by (cases "q = p") auto
  with Add s' show ?thesis
    by (auto simp: keeps_sched_def waits_at_def nth_append intro!: moves_upI)
next
  case (Finish p)
  from finish_proc_spec [OF ok, of p] obtain s' where "finish_proc s p = Inr s'" "sched_ok s'"
      "mlq_ready_queue s' = mlq_ready_queue s" "slot_used s' = slot_used s" "pcbs s' = pcbs s"
    by metis
  with Finish show ?thesis
    by (auto simp: keeps_sched_def waits_at_def intro!: moves_upI)
next
  case (Kill name caller)
  obtain n vs s' where "kill_loop name caller 0 0 [] s = Inr (n, vs, s')" "keeps_sched s s'"
      "\<forall>p. \<not> targets s name caller p \<longrightarrow> moves_up p s s'"
    using kill_loop_keeps [OF ok, of 0 "[]" name caller 0] running_length [OF ok] by auto
  with Kill show ?thesis
    by (auto simp: kill_proc_by_name_def spared_def)
qed

lemma run_op_ok:
  assumes ok: "sched_ok s" and pr: "prios_ok s (x # xs)"
  shows "\<exists>r s'. run_op s x = Inr (r, s') \<and> sched_ok s' \<and> prios_ok s' xs"
proof (cases "x = Get")
  case True
  have keep: "prios_ok s' xs" if "pcbs s' = pcbs s" for s'
    using pr that by (simp add: prios_ok_def)
  from ok show ?thesis
    by (cases rule: get_mlq_cases) (use True keep in \<open>auto simp: get_proc_def dispatched_def\<close>)
next
  case False
  with run_op_other [OF ok False pr] pr keeps_sched_ops(1) show ?thesis
    by (metis keeps_sched_def)
qed

lemma run_ops_ok: "sched_ok s \<Longrightarrow> prios_ok s xs \<Longrightarrow> \<exists>ps s'. run_ops s xs = Inr (ps, s') \<and> sched_ok s'"
proof (induction xs arbitrary: s)
  case (Cons x xs)
  then obtain r s1 where "run_op s x = Inr (r, s1)" "sched_ok s1" "prios_ok s1 xs"
    using run_op_ok by blast
  with Cons.IH [of s1] show ?case
    by auto
qed simp

lemma served_within:
  assumes "sched_ok s" and "waits_at s p i n" and "prios_ok s xs" and "wait_bound s i n < int (count_list xs Get)" and "spared s p xs"
  shows "\<exists>ps s'. run_ops s xs = Inr (ps, s') \<and> Some p \<in> set ps"
  using assms
proof (induction xs arbitrary: s n)
  case Nil
  then show ?case
    using budget_range(1) [OF Nil(1)] by (simp add: wait_bound_def split: if_splits)
next
  case (Cons x xs)
  show ?case
  proof (cases "x = Get")
    case False
    obtain s1 where s1: "run_op s x = Inr (None, s1)" "keeps_sched s s1" "moves_up p s s1"
      using run_op_other [OF Cons.prems(1) False Cons.prems(3)] Cons.prems(5) by blast
    obtain m where m: "m \<le> n" "waits_at s1 p i m"
      using s1(3) Cons.prems(2) by (auto simp: moves_up_def)
    have "wait_bound s1 i m \<le> wait_bound s i n"
      using s1(2) m(1) by (simp add: wait_bound_def budget_def keeps_sched_def)
    with Cons.prems(4) False have "wait_bound s1 i m < int (count_list xs Get)"
      by simp
    from Cons.IH [OF _ m(2) keeps_sched_ops(1) [OF s1(2) Cons.prems(3)] this keeps_sched_ops(2) [OF s1(2) Cons.prems(5)]]
    have "\<exists>ps s'. run_ops s1 xs = Inr (ps, s') \<and> Some p \<in> set ps"
      using s1(2) by (simp add: keeps_sched_def)
    with s1(1) show ?thesis
      by auto
  next
    case True
    obtain q s1 where s1: "get_proc s = Inr (Some q, s1)" "sched_ok s1" "pcbs s1 = pcbs s"
        "q = p \<or> (\<exists>m. waits_at s1 p i m \<and> wait_bound s1 i m < wait_bound s i n)"
      using get_progress [OF Cons.prems(1,2)] by blast
    have pr: "prios_ok s1 xs" "spared s1 p xs"
      using Cons.prems(3,5) s1(3) by (simp_all add: prios_ok_def spared_def targets_def)
    show ?thesis
    proof (cases "q = p")
      case True
      obtain ps s' where "run_ops s1 xs = Inr (ps, s')"
        using run_ops_ok [OF s1(2) pr(1)] by blast
      with True s1(1) \<open>x = Get\<close> show ?thesis
        by simp
    next
      case False
      then obtain m where "waits_at s1 p i m" "wait_bound s1 i m < wait_bound s i n"
        using s1(4) by blast
      then have "\<exists>ps s'. run_ops s1 xs = Inr (ps, s') \<and> Some p \<in> set ps"
        using Cons.prems(4) True by (intro Cons.IH [OF s1(2) _ pr(1) _ pr(2), of m]) auto
      with s1(1) True show ?thesis
        by auto
    qed
  qed
qed

subsection \<open>The scheduler at the start\<close>

lemma init_scheduler_ok:
  assumes "length (mlq_ready_queue s) = 140" and "\<forall>i < 140. length (proc (mlq_ready_queue s ! i)) = 100"
    and "length (proc (ready_queue s)) = 100" and "length (proc (run_queue s)) = 100"
    and "length (proc (running_list s)) = 100"
  shows "sched_ok (init_scheduler s)" "tracked (init_scheduler s)"
    "i < 140 \<Longrightarrow> lev (init_scheduler s) i = []" "running (init_scheduler s) = []"
  using assms by (auto simp: sched_ok_def tracked_def init_scheduler_def q_ok_def waiting_def MAX_PRIO_def)

lemma mlq_all_empty_iff: "mlq_all_empty qs \<longleftrightarrow> (\<forall>q \<in> set qs. empty q)"
  by (induction qs) auto

lemma queue_empty_iff:
  assumes "sched_ok s"
  shows "queue_empty s \<longleftrightarrow> (\<forall>i < 140. lev s i = [])"
  using sched_okD [OF assms] empty_iff
  by (auto simp: queue_empty_def mlq_all_empty_iff all_set_conv_all_nth)

text \<open>A concrete state: process 7 waits at priority 5, process 3 is on a CPU.\<close>

definition pcb0 :: pcb_t where
  "pcb0 = \<lparr>pid = 1, priority = 5, path = ''input/proc/p0s'', code = \<lparr>code_text = [], code_size = 0\<rparr>,
     regs = replicate 10 0, pc = 0, prio = 5, pmm = init_mm, bp = 1024, killed = 0\<rparr>"

definition sched7 :: sched_t where
  "sched7 =
     (let z = \<lparr>proc = replicate 100 0, qsize = 0\<rparr> in
      \<lparr>ready_queue = z, run_queue = z, running_list = \<lparr>proc = [7, 3] @ replicate 98 0, qsize = 2\<rparr>,
       mlq_ready_queue = (replicate 140 z)[5 := \<lparr>proc = 7 # replicate 99 0, qsize = 1\<rparr>],
       slot = map (\<lambda>i. 140 - i) [0..139], slot_used = replicate 140 0, pcbs = (\<lambda>_. pcb0)\<rparr>)"

lemma sched7_lev: "i < 140 \<Longrightarrow> lev sched7 i = (if i = 5 then [7] else [])"
  by (simp add: sched7_def Let_def waiting_def nth_list_update)

lemma sched7_running: "running sched7 = [7, 3]" "prio_of sched7 p = 5"
    "proc_name (path (pcbs sched7 p)) = ''p0s''"
  by (simp_all add: sched7_def Let_def waiting_def pcb0_def proc_name_def)

lemma sched7_ok: "sched_ok sched7" "tracked sched7"
proof -
  show "sched_ok sched7"
    by (auto simp: sched_ok_def q_ok_def sched7_def Let_def waiting_def nth_list_update)
  show "tracked sched7"
    unfolding tracked_def using sched7_lev sched7_running by auto
qed

subsection \<open>Properties\<close>

text \<open>
  C20. The dispatch policy: \<open>get_proc\<close> never leaves its arrays and keeps the scheduler consistent. It
  returns no process exactly when every queue is empty. Otherwise it takes the first process of one
  queue and leaves the others alone: the queue of the highest priority that has a process and
  dispatches left in this round, which is charged one dispatch; or, when there is none, the highest
  priority that has a process, after all counters were reset.
\<close>

theorem get_proc_policy:
  assumes "sched_ok s"
  shows "\<exists>r s'. get_proc s = Inr (r, s') \<and> sched_ok s' \<and> (r = None \<longleftrightarrow> queue_empty s) \<and>
    (\<forall>p. r = Some p \<longrightarrow> (\<exists>k. lev s k \<noteq> [] \<and> p = hd (lev s k) \<and>
       (\<forall>j. lev s' j = (if j = k then tl (lev s k) else lev s j)) \<and>
       (if \<exists>j. eligible s j
        then least (eligible s) k \<and> (\<forall>j < 140. used s' j = (if j = k then used s k + 1 else used s j))
        else least (\<lambda>j. j < 140 \<and> lev s j \<noteq> []) k \<and> (\<forall>j < 140. used s' j = (if j = k then 1 else 0)))))"
  using assms
proof (cases rule: get_mlq_cases)
  case (this_round k s')
  then have "lev s k \<noteq> []" "k < 140" "\<exists>j. eligible s j"
    by (auto simp: least_def eligible_def)
  with this_round assms show ?thesis
    by (auto simp: get_proc_def dispatched_def queue_empty_iff)
next
  case (new_round k s')
  then have "lev s k \<noteq> []" "k < 140" "\<not> (\<exists>j. eligible s j)"
    by (auto simp: least_def)
  with new_round assms show ?thesis
    by (auto simp: get_proc_def dispatched_def queue_empty_iff)
next
  case (idle s')
  with assms show ?thesis
    by (auto simp: get_proc_def queue_empty_iff)
qed

theorem get_proc_policy_witness:
  "\<exists>r s'. get_proc sched7 = Inr (r, s') \<and> r \<noteq> None"
proof -
  have "\<not> queue_empty sched7"
    using sched7_lev [of 5] by (simp add: queue_empty_iff [OF sched7_ok(1)]) (metis numeral_less_iff semiring_norm list.discI)
  then show ?thesis
    using get_proc_policy [OF sched7_ok(1)] by blast
qed

text \<open>
  C7. No process starves. Whatever calls follow, of any CPU, of the loader and of \<open>killall\<close>, a process
  that waits behind \<open>n\<close> others in its queue, and that none of the calls kills, is among the first
  \<open>9870 * (n + 2)\<close> dispatches that are asked for: a round has 9870 dispatches, and between two resets
  at least one process leaves each queue that is not empty. All calls are defined: no array is accessed
  out of bounds.
\<close>

theorem no_starvation:
  assumes "sched_ok s" and "waits_at s p i n" and "prios_ok s xs" and "spared s p xs"
    and "9870 * (n + 2) \<le> count_list xs Get"
  shows "\<exists>ps s'. run_ops s xs = Inr (ps, s') \<and> Some p \<in> set ps"
proof -
  have "wait_bound s i n < 9870 * (int n + 2)"
    using wait_bound_less [OF assms(1)] assms(2) by (simp add: waits_at_def)
  also have "\<dots> \<le> int (count_list xs Get)"
    using assms(5) by simp
  finally show ?thesis
    using served_within [OF assms(1-3) _ assms(4)] by blast
qed

lemma count_list_replicate: "count_list (replicate n x) x = n"
  by (induction n) simp_all

theorem no_starvation_witness:
  "\<exists>ps s'. run_ops sched7 (Add 9 # Kill ''p0s'' 7 # replicate 19740 Get) = Inr (ps, s') \<and> Some 7 \<in> set ps"
proof -
  let ?xs = "Add 9 # Kill ''p0s'' 7 # replicate 19740 Get"
  have "waits_at sched7 7 5 0"
    using sched7_lev [of 5] by (simp add: waits_at_def)
  moreover have "prios_ok sched7 ?xs" "spared sched7 7 ?xs"
    by (simp_all add: prios_ok_def spared_def targets_def)
  moreover have "9870 * (0 + 2) \<le> count_list ?xs Get"
    by (simp only: count_list.simps count_list_replicate sched_op.distinct if_False) simp
  ultimately show ?thesis
    using no_starvation [OF sched7_ok(1)] by blast
qed

text \<open>
  From the initialised scheduler on, no sequence of calls reads or writes outside an array or
  breaks the invariant, provided the processes the CPUs return have a priority below 140, which
  \<open>add_proc\<close> establishes.
\<close>

lemma scheduler_safe:
  assumes "length (mlq_ready_queue s) = 140" and "\<forall>i < 140. length (proc (mlq_ready_queue s ! i)) = 100"
    and "length (proc (ready_queue s)) = 100" and "length (proc (run_queue s)) = 100"
    and "length (proc (running_list s)) = 100" and "prios_ok (init_scheduler s) xs"
  shows "\<exists>ps s'. run_ops (init_scheduler s) xs = Inr (ps, s') \<and> sched_ok s'"
  using init_scheduler_ok(1) [OF assms(1-5)] assms(6) by (rule run_ops_ok)

text \<open>
  C21. \<open>kill_proc_by_name\<close> kills exactly the processes of that name other than the caller: it returns
  their number and marks each of them; those that wait leave their queue and the running list and are
  returned as victims, each once; a process on a CPU stays in the running list for its CPU to reap;
  every other process keeps its place.
\<close>

theorem kill_by_name:
  assumes "sched_ok s" and "tracked s"
  shows "\<exists>s'. kill_proc_by_name s name caller =
      Inr (int (length (filter (targets s name caller) (running s))), filter (\<lambda>p. targets s name caller p \<and> queued s p) (running s), s') \<and>
    sched_ok s' \<and> tracked s' \<and>
    running s' = filter (\<lambda>p. \<not> (targets s name caller p \<and> queued s p)) (running s) \<and>
    (\<forall>i < 140. lev s' i = filter (\<lambda>p. \<not> targets s name caller p) (lev s i)) \<and>
    (\<forall>p. pcbs s' p = (if targets s name caller p \<and> p \<in> set (running s) then (pcbs s p)\<lparr>killed := 1\<rparr> else pcbs s p))"
  using assms by (rule kill_proc_by_name_spec)

theorem kill_by_name_witness:
  "\<exists>s'. kill_proc_by_name sched7 ''p0s'' 9 = Inr (2, [7], s') \<and> running s' = [3] \<and> lev s' 5 = []"
proof -
  have q: "queued sched7 7" "\<not> queued sched7 3"
    by (simp_all add: queued_def sched7_running sched7_lev)
  show ?thesis
    using kill_by_name [OF sched7_ok, of "''p0s''" 9] q sched7_lev [of 5]
    by (auto simp: sched7_running targets_def)
qed

end
