(* ===== verification/Syscall.thy ===== *)
theory Syscall
  imports Isolation Sched
begin

text \<open>
  The kernel as the processes see it: the system call table of \<open>src/syscall.c\<close>, its wrapper in
  \<open>src/libstd.c\<close>, the handlers of \<open>src/sys_listsyscall.c\<close> and \<open>src/sys_killall.c\<close>, and
  \<open>free_pcb\<close> of \<open>src/libmem.c\<close>. The handler of call 17 is in theory \<open>Libmem\<close>.

  The record \<open>kernel\<close> is everything the threads of the simulator share: the scheduler with the process
  control blocks, the devices, and the set \<open>kheap\<close> of the process control blocks that are
  allocated. Reading or releasing a block outside \<open>kheap\<close> is \<open>Dangling\<close>. \<open>ld_routine\<close> gives every
  process the same devices and swap device 0 as its active one; \<open>proc_ctx\<close> is the view of the memory
  library of theory \<open>Libmem\<close> that results. Messages are not modelled, except the listing of the
  system call table.
\<close>

record kernel =
  ksched :: sched_t
  kram :: memphy_struct
  kswaps :: "memphy_struct list"
  kheap :: "pcb_ptr set"

abbreviation kpcb :: "kernel \<Rightarrow> pcb_ptr \<Rightarrow> pcb_t" where
  "kpcb k p \<equiv> pcbs (ksched k) p"

definition deref :: "kernel \<Rightarrow> pcb_ptr \<Rightarrow> pcb_t res" where
  "deref k p = (if p \<in> kheap k then Inr (kpcb k p) else Inl Dangling)"

definition set_pcb :: "kernel \<Rightarrow> pcb_ptr \<Rightarrow> pcb_t \<Rightarrow> kernel" where
  "set_pcb k p b = k\<lparr>ksched := (ksched k)\<lparr>pcbs := (pcbs (ksched k))(p := b)\<rparr>\<rparr>"

definition proc_ctx :: "kernel \<Rightarrow> pcb_ptr \<Rightarrow> vmctx" where
  "proc_ctx k p =
     \<lparr>mm = pmm (kpcb k p), mram = kram k, mswp = kswaps k, active_mswp = 0, active_mswp_id = 0\<rparr>"

definition put_proc_ctx :: "kernel \<Rightarrow> pcb_ptr \<Rightarrow> vmctx \<Rightarrow> kernel" where
  "put_proc_ctx k p c =
     (set_pcb k p ((kpcb k p)\<lparr>pmm := mm c\<rparr>))\<lparr>kram := mram c, kswaps := mswp c\<rparr>"

text \<open>A call of the memory library on behalf of process \<open>p\<close>.\<close>

definition lib_call :: "kernel \<Rightarrow> pcb_ptr \<Rightarrow> (vmctx \<Rightarrow> ('a \<times> vmctx) res) \<Rightarrow> ('a \<times> kernel) res" where
  "lib_call k p f =
     rbind (deref k p) (\<lambda>_. rbind (f (proc_ctx k p)) (\<lambda>(r, c). Inr (r, put_proc_ctx k p c)))"

subsection \<open>Releasing a process\<close>

text \<open>
  \<open>free_pcb\<close> gives the frames back and releases the block with everything it points to; the contents
  of the released objects are out of reach from then on.
\<close>

definition free_pcb :: "kernel \<Rightarrow> pcb_ptr option \<Rightarrow> kernel res" where
  "free_pcb k pr =
     (case pr of
        None \<Rightarrow> Inr k
      | Some p \<Rightarrow>
          rbind (deref k p) (\<lambda>_.
          rbind (free_pcb_memph (proc_ctx k p)) (\<lambda>c.
            Inr (k\<lparr>kram := mram c, kswaps := mswp c, kheap := kheap k - {p}\<rparr>))))"

fun free_victims :: "kernel \<Rightarrow> pcb_ptr list \<Rightarrow> kernel res" where
  "free_victims k [] = Inr k"
| "free_victims k (v # vs) = rbind (free_pcb k (Some v)) (\<lambda>k1. free_victims k1 vs)"

subsection \<open>System call 101\<close>

definition PROC_NAME_MAX :: int where
  "PROC_NAME_MAX = 100"

text \<open>The name is read byte by byte; \<open>acc\<close> is what was read so far.\<close>

function name_loop :: "int \<Rightarrow> u32 \<Rightarrow> string \<Rightarrow> vmctx \<Rightarrow> (string \<times> vmctx) res" where
  "name_loop i memrg acc c =
     (if i < PROC_NAME_MAX - 1 then
        rbind (u_read c 0 (sint memrg) i) (\<lambda>(rc, d, c1).
        if rc \<noteq> 0 then Inr (acc, c1)
        else
          rbind (out d) (\<lambda>data.
          if data = 0 \<or> data = - 1 then Inr (acc, c1)
          else name_loop (i + 1) memrg (acc @ [char_of (unat data)]) c1))
      else Inr (acc, c))"
  by pat_completeness auto
termination
  by (relation "measure (\<lambda>(i, _). nat (PROC_NAME_MAX - i))") auto

declare name_loop.simps [simp del]

text \<open>\<open>kill_proc_by_name\<close> reads the block of every process of the running list.\<close>

definition kill_named :: "kernel \<Rightarrow> string \<Rightarrow> pcb_ptr \<Rightarrow> (int \<times> pcb_ptr list \<times> kernel) res" where
  "kill_named k name caller =
     (if set (running (ksched k)) \<subseteq> kheap k then
        rbind (kill_proc_by_name (ksched k) name caller) (\<lambda>(n, vs, s). Inr (n, vs, k\<lparr>ksched := s\<rparr>))
      else Inl Dangling)"

definition sys_killall :: "kernel \<Rightarrow> pcb_ptr \<Rightarrow> sc_regs \<Rightarrow> (int \<times> kernel) res" where
  "sys_killall k caller r =
     rbind (lib_call k caller (name_loop 0 (a1 r) [])) (\<lambda>(name, k1).
     rbind (kill_named k1 name caller) (\<lambda>(terminated_count, victims, k2).
     rbind (free_victims k2 victims) (\<lambda>k3. Inr (terminated_count, k3))))"

subsection \<open>The system call table\<close>

definition sys_call_table :: "string list" where
  "sys_call_table = [''0-sys_listsyscall'', ''17-sys_memmap'', ''101-sys_killall'']"

definition sys_listsyscall :: "int \<times> string list" where
  "sys_listsyscall = (0, sys_call_table)"

definition sys_ni_syscall :: int where
  "sys_ni_syscall = 0"

definition syscall :: "kernel \<Rightarrow> pcb_ptr \<Rightarrow> u32 \<Rightarrow> sc_regs \<Rightarrow> (int \<times> kernel) res" where
  "syscall k caller nr r =
     (if nr = 0 then Inr (fst sys_listsyscall, k)
      else if nr = 17 then
        lib_call k caller (\<lambda>c. rbind (u_sys_memmap c r) (\<lambda>(rc, _, c1). Inr (rc, c1)))
      else if nr = 101 then sys_killall k caller r
      else Inr (sys_ni_syscall, k))"

definition libsyscall :: "kernel \<Rightarrow> pcb_ptr \<Rightarrow> u32 \<Rightarrow> u32 \<Rightarrow> u32 \<Rightarrow> u32 \<Rightarrow> (int \<times> kernel) res" where
  "libsyscall k caller syscall_idx x1 x2 x3 = syscall k caller syscall_idx \<lparr>a1 = x1, a2 = x2, a3 = x3\<rparr>"

subsection \<open>The name of the victims\<close>

text \<open>The string in a region: its bytes up to the first 0 or -1, the end of the region or \<open>n\<close> bytes.\<close>

primrec name_from :: "vmctx \<Rightarrow> int \<Rightarrow> nat \<Rightarrow> int \<Rightarrow> string" where
  "name_from c rg 0 i = []"
| "name_from c rg (Suc n) i =
     (case region_mem c (rg, i) of
        None \<Rightarrow> []
      | Some b \<Rightarrow> if b = 0 \<or> b = - 1 then [] else char_of (unat b) # name_from c rg n (i + 1))"

definition region_name :: "vmctx \<Rightarrow> u32 \<Rightarrow> string" where
  "region_name c memrg = name_from c (sint memrg) 99 0"

lemma name_from_cong: "region_mem c' = region_mem c \<Longrightarrow> name_from c' rg n i = name_from c rg n i"
  by (induction n arbitrary: i) (auto split: option.split)

text \<open>
  A read can fail for want of a frame; then the name is cut short. As long as a frame can be had this
  does not happen: bringing a page in never uses up the last one, since it gives its swap frame back.
\<close>

lemma pool_count:
  assumes "pool_ok n fl A own X"
  shows "int (length fl) + int (card A) + int (card X) = int (card {0..<n})"
proof -
  have un: "{0..<n} = set fl \<union> (own ` A \<union> X)" and dis: "set fl \<inter> (own ` A \<union> X) = {}" "own ` A \<inter> X = {}"
    using assms by (auto simp: pool_ok_def)
  then have fin: "finite (set fl \<union> (own ` A \<union> X))"
    by (metis finite_atLeastLessThan_int)
  have "card (set fl) = length fl" "card (own ` A) = card A"
    using assms by (simp_all add: pool_ok_def distinct_card card_image)
  with un dis fin show ?thesis
    by (simp only: card_Un_disjoint finite_Un of_nat_add)
qed

lemma avail_keeps:
  assumes ok: "paging_ok R S c" "paging_ok R S c'" and k: "keeps R S c c'" and res: "resident c' p"
    and av: "0 < avail c"
  shows "0 < avail c'"
proof -
  note D = paging_okD [OF ok(1)] and D' = paging_okD [OF ok(2)]
  have env: "env_same c c'" and m: "mapped c' = mapped c"
    using k by (simp_all add: keeps_def pages_same_def)
  note N = env_same_nframes [OF env]
  have fin: "finite {p. mapped x p}" for x
    by (rule finite_subset [of _ "{0..<PAGING_MAX_PGN}"]) (auto simp: mapped_def)
  have split: "card {p. mapped x p} = card {p. resident x p} + card {p. swapped x p}" for x
  proof -
    have "{p. mapped x p} = {p. resident x p} \<union> {p. swapped x p}" "{p. resident x p} \<inter> {p. swapped x p} = {}"
      using resident_not_swapped by (auto simp: mapped_iff)
    with fin [of x] show ?thesis
      by (simp add: card_Un_disjoint)
  qed
  have fifo: "length (fifo_pgn (mm x)) = card {p. resident x p}" if "paging_ok R S x" for x
    using that distinct_card [of "fifo_pgn (mm x)"] by (simp add: paging_ok_def)
  have r': "0 < length (fifo_pgn (mm c'))"
    using ok(2) res by (auto simp: paging_ok_def)
  have "0 < length (free_fp_list (mram c)) \<or> 0 < length (free_fp_list (act c))"
    using av by (auto simp: avail_def)
  then have "0 < length (free_fp_list (mram c')) \<or> 0 < length (free_fp_list (act c'))"
    using split [of c] split [of c', unfolded m] pool_count [OF D(4)] pool_count [OF D'(4), unfolded N]
      pool_count [OF D(5)] pool_count [OF D'(5), unfolded N] by linarith
  with r' show ?thesis
    by (auto simp: avail_def)
qed

definition reads_as :: "vmctx \<Rightarrow> string \<Rightarrow> string \<Rightarrow> bool" where
  "reads_as c str name \<longleftrightarrow> (\<exists>m. name = take m str) \<and> (0 < avail c \<longrightarrow> name = str)"

lemma reads_as_simps:
  "reads_as c str str" "avail c = 0 \<Longrightarrow> reads_as c str []"
  "reads_as c1 str name \<Longrightarrow> (0 < avail c \<Longrightarrow> 0 < avail c1) \<Longrightarrow> reads_as c (x # str) (x # name)"
proof -
  show "reads_as c str str" "avail c = 0 \<Longrightarrow> reads_as c str []"
    by (auto simp: reads_as_def intro: exI [of _ 0] exI [of _ "length str"])
  assume "reads_as c1 str name" "0 < avail c \<Longrightarrow> 0 < avail c1"
  moreover from this(1) obtain m where "x # name = take (Suc m) (x # str)"
    by (auto simp: reads_as_def)
  ultimately show "reads_as c (x # str) (x # name)"
    unfolding reads_as_def by (intro conjI exI [of _ "Suc m"]) auto
qed

lemma name_loop_spec:
  assumes "vm_ok R S c" and "nat (99 - i) = n" and "0 \<le> i"
  shows "\<exists>name c'. name_loop i memrg acc c = Inr (acc @ name, c') \<and> vm_ok R S c' \<and> keeps R S c c' \<and>
    reads_as c (name_from c (sint memrg) n i) name"
  using assms
proof (induction n arbitrary: i acc c)
  case 0
  then show ?case
    by (subst name_loop.simps) (auto simp: PROC_NAME_MAX_def reads_as_simps)
next
  case (Suc n)
  let ?k = "(sint memrg, i)"
  have lt: "i < PROC_NAME_MAX - 1" and k: "offset_ok ?k"
    using Suc.prems by (auto simp: PROC_NAME_MAX_def INT_MIN_def INT_MAX_def)
  have run: "name_loop i memrg acc c = rbind (rd_region c ?k) (\<lambda>(rc, d, c1).
      if rc \<noteq> 0 then Inr (acc, c1)
      else rbind (out d) (\<lambda>data. if data = 0 \<or> data = - 1 then Inr (acc, c1)
        else name_loop (i + 1) memrg (acc @ [char_of (unat data)]) c1))"
    using lt by (subst name_loop.simps) (simp add: rd_region_def)
  from Suc.prems(1) k show ?case
  proof (cases rule: rd_region_spec)
    case outside
    then show ?thesis
      using Suc.prems(1) by (simp add: run region_mem_def reads_as_simps)
  next
    case (fail c')
    have "mapped c (region_addr c ?k div 256)"
      using Suc.prems(1) region_addr_range(1,2) [OF _ fail(2)] by (auto simp: vm_ok_def map_okD(8))
    then have "avail c = 0"
      using fail(3) by (simp add: can_fault_def)
    with fail show ?thesis
      unfolding run by (auto simp: reads_as_simps)
  next
    case (byte b c1)
    show ?thesis
    proof (cases "b = 0 \<or> b = - 1")
      case True
      with byte show ?thesis
        by (auto simp: run reads_as_simps)
    next
      case False
      let ?ch = "char_of (unat b) :: char" and ?nf = "name_from c1 (sint memrg) n (i + 1)"
      have "nat (99 - (i + 1)) = n" "0 \<le> i + 1"
        using Suc.prems(2,3) by auto
      from Suc.IH [OF byte(5) this, of "acc @ [?ch]"] obtain name c' where
        IH: "name_loop (i + 1) memrg (acc @ [?ch]) c1 = Inr ((acc @ [?ch]) @ name, c')" "vm_ok R S c'"
          "keeps R S c1 c'" and nm: "reads_as c1 ?nf name"
        by blast
      have nf: "name_from c (sint memrg) (Suc n) i = ?ch # ?nf"
        using byte(4) False name_from_cong [OF byte(7)] by simp
      have "reads_as c (name_from c (sint memrg) (Suc n) i) (?ch # name)"
        unfolding nf using avail_keeps [OF _ _ byte(6,8)] Suc.prems(1) byte(5)
        by (intro reads_as_simps(3) [OF nm]) (simp add: vm_ok_def)
      moreover have "name_loop i memrg acc c = Inr (acc @ (?ch # name), c')"
        using byte(1) False IH(1) by (simp add: run)
      ultimately show ?thesis
        using IH(2) keeps_trans [OF byte(6) IH(3)] by blast
    qed
  qed
qed

subsection \<open>The invariant of the kernel\<close>

text \<open>
  \<open>memsys_of\<close> is the memory of theory \<open>Isolation\<close> inside the kernel. A process is sound (\<open>proc_ok\<close>)
  when its program counter is inside its code, the code makes no direct use of system call 17, and
  the allocations that are still to come fit into the 4 MB of the address space; the last two are
  conditions on the program text alone when the process is loaded.
\<close>

definition memsys_of :: "kernel \<Rightarrow> memsys" where
  "memsys_of k = \<lparr>live = kheap k, mms = (\<lambda>p. pmm (kpcb k p)), ram = kram k, swaps = kswaps k\<rparr>"

definition ins_ok :: "inst_t \<Rightarrow> bool" where
  "ins_ok ins \<longleftrightarrow> (opcode ins = SYSCALL \<longrightarrow> arg_0 ins \<noteq> 17)"

definition demand :: "inst_t \<Rightarrow> int" where
  "demand ins = (if opcode ins = ALLOC \<and> 0 < sint (arg_0 ins) then page_align (sint (arg_0 ins)) else 0)"

definition demand_left :: "pcb_t \<Rightarrow> int" where
  "demand_left b = sum_list (map demand (drop (unat (pc b)) (code_text (code b))))"

definition code_ok :: "pcb_t \<Rightarrow> bool" where
  "code_ok b \<longleftrightarrow> unat (code_size (code b)) = length (code_text (code b)) \<and> pc b \<le> code_size (code b) \<and>
     length (regs b) = 10 \<and> list_all ins_ok (code_text (code b))"

definition proc_ok :: "kernel \<Rightarrow> pcb_ptr \<Rightarrow> bool" where
  "proc_ok k p \<longleftrightarrow> code_ok (kpcb k p) \<and> limit (proc_ctx k p) + demand_left (kpcb k p) \<le> 4194304"

definition kernel_ok :: "kernel \<Rightarrow> bool" where
  "kernel_ok k \<longleftrightarrow> sys_ok (memsys_of k) \<and> sched_ok (ksched k) \<and> tracked (ksched k) \<and>
     set (running (ksched k)) \<subseteq> kheap k \<and> (\<forall>p \<in> set (running (ksched k)). prio_of (ksched k) p < 140) \<and>
     (\<forall>p \<in> kheap k. proc_ok k p)"

text \<open>
  What an action on behalf of process \<open>p\<close> may do to the rest of the system: end processes that
  wait, which then disappear from all queues, and set \<open>killed\<close> flags.
\<close>

definition effect :: "kernel \<Rightarrow> pcb_ptr \<Rightarrow> kernel \<Rightarrow> bool" where
  "effect k p k' \<longleftrightarrow> kheap k' \<subseteq> kheap k \<and> p \<in> kheap k' \<and> (\<forall>q \<in> kheap k - kheap k'. queued (ksched k) q) \<and>
     running (ksched k') = filter (\<lambda>q. q \<in> kheap k') (running (ksched k)) \<and>
     (\<forall>i < 140. lev (ksched k') i = filter (\<lambda>q. q \<in> kheap k') (lev (ksched k) i)) \<and>
     (\<forall>q. q \<noteq> p \<longrightarrow> (\<exists>x. kpcb k' q = (kpcb k q)\<lparr>killed := x\<rparr>)) \<and>
     (\<exists>rg i m. kpcb k' p = (kpcb k p)\<lparr>regs := rg, pc := i, pmm := m\<rparr>) \<and>
     (\<forall>q \<in> kheap k'. q \<noteq> p \<longrightarrow> vmem (proc_ctx k' q) = vmem (proc_ctx k q))"

lemma kernel_okD:
  assumes "kernel_ok k"
  shows "sys_ok (memsys_of k)" "sched_ok (ksched k)" "tracked (ksched k)" "set (running (ksched k)) \<subseteq> kheap k"
    "p \<in> set (running (ksched k)) \<Longrightarrow> prio_of (ksched k) p < 140" "p \<in> kheap k \<Longrightarrow> proc_ok k p"
    "i < 140 \<Longrightarrow> set (lev (ksched k) i) \<subseteq> kheap k"
  using assms by (auto simp: kernel_ok_def tracked_def)

lemma memsys_of_simps [simp]:
  "live (memsys_of k) = kheap k" "mms (memsys_of k) p = pmm (kpcb k p)" "ram (memsys_of k) = kram k"
  "swaps (memsys_of k) = kswaps k" "ctx (memsys_of k) p = proc_ctx k p"
  by (simp_all add: memsys_of_def ctx_def proc_ctx_def)

lemma proc_ctx_simps [simp]:
  "mm (proc_ctx k p) = pmm (kpcb k p)" "mram (proc_ctx k p) = kram k" "mswp (proc_ctx k p) = kswaps k"
  "active_mswp (proc_ctx k p) = 0" "active_mswp_id (proc_ctx k p) = 0"
  by (simp_all add: proc_ctx_def)

lemma set_pcb_simps [simp]:
  "kram (set_pcb k p b) = kram k" "kswaps (set_pcb k p b) = kswaps k" "kheap (set_pcb k p b) = kheap k"
  "pcbs (ksched (set_pcb k p b)) = (pcbs (ksched k))(p := b)"
  "mlq_ready_queue (ksched (set_pcb k p b)) = mlq_ready_queue (ksched k)"
  "running_list (ksched (set_pcb k p b)) = running_list (ksched k)"
  by (simp_all add: set_pcb_def)

lemma put_proc_ctx_simps [simp]:
  "kram (put_proc_ctx k p c) = mram c" "kswaps (put_proc_ctx k p c) = mswp c" "kheap (put_proc_ctx k p c) = kheap k"
  "pcbs (ksched (put_proc_ctx k p c)) = (pcbs (ksched k))(p := (kpcb k p)\<lparr>pmm := mm c\<rparr>)"
  "mlq_ready_queue (ksched (put_proc_ctx k p c)) = mlq_ready_queue (ksched k)"
  "running_list (ksched (put_proc_ctx k p c)) = running_list (ksched k)"
  by (simp_all add: put_proc_ctx_def)

lemma memsys_of_upd:
  "pmm b = pmm (kpcb k p) \<Longrightarrow> memsys_of (set_pcb k p b) = memsys_of k"
  "memsys_of (put_proc_ctx k p c) = put_ctx (memsys_of k) p c"
  "memsys_of (k\<lparr>kram := mram c, kswaps := mswp c, kheap := kheap k - {p}\<rparr>) = end_proc (memsys_of k) p c"
  by (auto simp: memsys_of_def set_pcb_def put_proc_ctx_def put_ctx_def end_proc_def fun_eq_iff)

lemma ctx_cong:
  "kram k' = kram k \<Longrightarrow> kswaps k' = kswaps k \<Longrightarrow> pmm (kpcb k' q) = pmm (kpcb k q) \<Longrightarrow> proc_ctx k' q = proc_ctx k q"
  by (simp add: proc_ctx_def)

lemma sched_pcbs:
  "sched_ok (s\<lparr>pcbs := f\<rparr>) = sched_ok s"
  "(\<And>p. prio (f p) = prio (pcbs s p)) \<Longrightarrow> tracked (s\<lparr>pcbs := f\<rparr>) = tracked s"
  by (simp_all add: sched_ok_def tracked_def)

lemma filter_members: "set xs \<subseteq> A \<Longrightarrow> filter (\<lambda>q. q \<in> A) xs = xs"
  by (auto simp: filter_id_conv)

lemma effect_refl:
  assumes "kernel_ok k" and "p \<in> kheap k"
  shows "effect k p k"
proof -
  have "\<exists>rg i m. kpcb k p = (kpcb k p)\<lparr>regs := rg, pc := i, pmm := m\<rparr>"
    by (intro exI [of _ "regs (kpcb k p)"] exI [of _ "pc (kpcb k p)"] exI [of _ "pmm (kpcb k p)"]) simp
  moreover have "\<exists>x. kpcb k q = (kpcb k q)\<lparr>killed := x\<rparr>" for q
    by (rule exI [of _ "killed (kpcb k q)"]) simp
  ultimately show ?thesis
    using kernel_okD(4,7) [OF assms(1)] assms(2) by (simp add: effect_def filter_members)
qed

lemma effectD:
  assumes "effect k p k'"
  shows "kheap k' \<subseteq> kheap k" "p \<in> kheap k'" "q \<in> kheap k \<Longrightarrow> q \<notin> kheap k' \<Longrightarrow> queued (ksched k) q"
    "running (ksched k') = filter (\<lambda>q. q \<in> kheap k') (running (ksched k))"
    "i < 140 \<Longrightarrow> lev (ksched k') i = filter (\<lambda>q. q \<in> kheap k') (lev (ksched k) i)"
    "q \<noteq> p \<Longrightarrow> \<exists>x. kpcb k' q = (kpcb k q)\<lparr>killed := x\<rparr>"
    "\<exists>rg i m. kpcb k' p = (kpcb k p)\<lparr>regs := rg, pc := i, pmm := m\<rparr>"
    "q \<in> kheap k' \<Longrightarrow> q \<noteq> p \<Longrightarrow> vmem (proc_ctx k' q) = vmem (proc_ctx k q)"
  using assms unfolding effect_def by simp_all

lemma effect_fields:
  assumes e: "effect k p k'"
  shows "prio (kpcb k' q) = prio (kpcb k q)" "path (kpcb k' q) = path (kpcb k q)" "code (kpcb k' q) = code (kpcb k q)"
    "q \<noteq> p \<Longrightarrow> pmm (kpcb k' q) = pmm (kpcb k q)" "q \<noteq> p \<Longrightarrow> pc (kpcb k' q) = pc (kpcb k q)"
    "q \<noteq> p \<Longrightarrow> regs (kpcb k' q) = regs (kpcb k q)" "killed (kpcb k' p) = killed (kpcb k p)"
  using effectD(6) [OF e, of q] effectD(7) [OF e] by (cases "q = p"; auto)+

lemma effect_queued:
  assumes "effect k p k'"
  shows "queued (ksched k') q \<longleftrightarrow> queued (ksched k) q \<and> q \<in> kheap k'"
  using effectD(5) [OF assms] effect_fields(1) [OF assms, of q] by (auto simp: queued_def)

lemma effect_trans:
  assumes 1: "effect k p k1" and 2: "effect k1 p k2"
  shows "effect k p k2"
proof -
  have "\<exists>x. kpcb k2 q = (kpcb k q)\<lparr>killed := x\<rparr>" if q: "q \<noteq> p" for q
  proof -
    obtain x y where "kpcb k1 q = (kpcb k q)\<lparr>killed := x\<rparr>" "kpcb k2 q = (kpcb k1 q)\<lparr>killed := y\<rparr>"
      using effectD(6) [OF 1 q] effectD(6) [OF 2 q] by blast
    then show ?thesis by auto
  qed
  moreover have "\<exists>rg i m. kpcb k2 p = (kpcb k p)\<lparr>regs := rg, pc := i, pmm := m\<rparr>"
  proof -
    obtain r i m r' i' m' where "kpcb k1 p = (kpcb k p)\<lparr>regs := r, pc := i, pmm := m\<rparr>"
        "kpcb k2 p = (kpcb k1 p)\<lparr>regs := r', pc := i', pmm := m'\<rparr>"
      using effectD(7) [OF 1] effectD(7) [OF 2] by blast
    then show ?thesis by auto
  qed
  moreover have "queued (ksched k) q" if "q \<in> kheap k - kheap k2" for q
    using that effectD(3) [OF 1] effectD(3) [OF 2] effect_queued [OF 1, of q] by blast
  moreover note sub = effectD(1) [OF 1] effectD(1) [OF 2]
  then have "filter (\<lambda>q. q \<in> kheap k2) (filter (\<lambda>q. q \<in> kheap k1) xs) = filter (\<lambda>q. q \<in> kheap k2) xs" for xs
    by (auto intro: filter_cong)
  ultimately show ?thesis
    using effectD(2,4,5,8) [OF 1] effectD(2,4,5,8) [OF 2] sub by (auto simp: effect_def)
qed

subsection \<open>Actions of one process\<close>

lemma set_pcb_ok:
  assumes ok: "kernel_ok k" and p: "p \<in> kheap k" and b: "b = (kpcb k p)\<lparr>regs := rg, pc := i\<rparr>"
    and new: "code_ok b" "demand_left b \<le> demand_left (kpcb k p)"
  shows "kernel_ok (set_pcb k p b)" and "effect k p (set_pcb k p b)"
proof -
  let ?k = "set_pcb k p b"
  note K = kernel_okD [OF ok]
  have pm: "pmm b = pmm (kpcb k p)" and pr: "prio b = prio (kpcb k p)"
    using b by simp_all
  then have ctx: "proc_ctx ?k q = proc_ctx k q" for q
    by (intro ctx_cong) simp_all
  have "proc_ok ?k q" if "q \<in> kheap k" for q
    using K(6) [OF that] new by (auto simp: proc_ok_def ctx)
  moreover have "sched_ok (ksched ?k)" "tracked (ksched ?k)"
    using K(2,3) pr unfolding set_pcb_def by (simp_all add: sched_pcbs fun_upd_def)
  ultimately show "kernel_ok ?k"
    using K(1,4,5) pr by (auto simp: kernel_ok_def memsys_of_upd(1) [of b, OF pm])
  have "\<exists>rg i m. b = (kpcb k p)\<lparr>regs := rg, pc := i, pmm := m\<rparr>"
    using b by (intro exI [of _ rg] exI [of _ i] exI [of _ "pmm (kpcb k p)"]) simp
  moreover have "\<exists>x. kpcb k q = (kpcb k q)\<lparr>killed := x\<rparr>" for q
    by (rule exI [of _ "killed (kpcb k q)"]) simp
  ultimately show "effect k p ?k"
    using K(4,7) p by (auto simp: effect_def ctx filter_members)
qed

abbreviation foreign_ram :: "kernel \<Rightarrow> pcb_ptr \<Rightarrow> int set" where
  "foreign_ram k p \<equiv> ram_of (memsys_of k) (kheap k - {p})"

abbreviation foreign_swp :: "kernel \<Rightarrow> pcb_ptr \<Rightarrow> int set" where
  "foreign_swp k p \<equiv> swp_of_procs (memsys_of k) (kheap k - {p})"

lemma kernel_vm_ok: "kernel_ok k \<Longrightarrow> p \<in> kheap k \<Longrightarrow> vm_ok (foreign_ram k p) (foreign_swp k p) (proc_ctx k p)"
  using sys_okD(8) [OF kernel_okD(1)] by fastforce

lemma put_proc_ctx_self: "env_same (proc_ctx k p) c \<Longrightarrow> proc_ctx (put_proc_ctx k p c) p = c"
  by (simp add: proc_ctx_def env_same_def)

lemma put_proc_ctx_ok:
  assumes ok: "kernel_ok k" and p: "p \<in> kheap k"
    and c: "vm_ok (foreign_ram k p) (foreign_swp k p) c" "confined (foreign_ram k p) (foreign_swp k p) (proc_ctx k p) c"
    and lim: "limit c + demand_left (kpcb k p) \<le> 4194304"
  shows "kernel_ok (put_proc_ctx k p c)" and "effect k p (put_proc_ctx k p c)"
    and "proc_ctx (put_proc_ctx k p c) p = c"
proof -
  let ?k = "put_proc_ctx k p c" and ?m = "memsys_of k"
  note K = kernel_okD [OF ok]
  have m: "vm_ok (ram_of ?m (live ?m - {p})) (swp_of_procs ?m (live ?m - {p})) c"
      "confined (ram_of ?m (live ?m - {p})) (swp_of_procs ?m (live ?m - {p})) (ctx ?m p) c" "p \<in> live ?m"
    using c p by simp_all
  have env: "env_same (proc_ctx k p) c"
    using c(2) by (simp add: confined_def)
  then show self: "proc_ctx ?k p = c"
    by (rule put_proc_ctx_self)
  have lim': "limit (proc_ctx ?k q) = limit (proc_ctx k q)" if "q \<noteq> p" for q
    using that by (simp add: area0_def)
  have proc: "proc_ok ?k q" if "q \<in> kheap k" for q
  proof (cases "q = p")
    case True
    have "code_ok ((kpcb k p)\<lparr>pmm := mm c\<rparr>) = code_ok (kpcb k p)"
      "demand_left ((kpcb k p)\<lparr>pmm := mm c\<rparr>) = demand_left (kpcb k p)"
      by (simp_all add: code_ok_def demand_left_def)
    with True K(6) [OF that] lim self show ?thesis
      by (simp add: proc_ok_def)
  next
    case False
    with K(6) [OF that] lim' show ?thesis
      by (simp add: proc_ok_def)
  qed
  have "sched_ok (ksched ?k)" "tracked (ksched ?k)"
    using K(2,3) unfolding put_proc_ctx_def set_pcb_def by (simp_all add: sched_pcbs fun_upd_def)
  with proc put_ctx_ok [OF K(1) m(3) m(1,2)] show "kernel_ok ?k"
    using K(4,5) by (auto simp: kernel_ok_def memsys_of_upd(2))
  have "vmem (proc_ctx ?k q) = vmem (proc_ctx k q)" if "q \<in> kheap k" "q \<noteq> p" for q
    using other_process(2) [OF K(1) m(3) _ that(2) m(1,2)] that(1)
    unfolding memsys_of_upd(2) [symmetric] by simp
  moreover have "\<exists>rg i mm'. (kpcb k p)\<lparr>pmm := mm c\<rparr> = (kpcb k p)\<lparr>regs := rg, pc := i, pmm := mm'\<rparr>"
    by (intro exI [of _ "regs (kpcb k p)"] exI [of _ "pc (kpcb k p)"] exI [of _ "mm c"]) simp
  moreover have "\<exists>x. kpcb k q = (kpcb k q)\<lparr>killed := x\<rparr>" for q
    by (rule exI [of _ "killed (kpcb k q)"]) simp
  ultimately show "effect k p ?k"
    using K(4,7) p by (auto simp: effect_def filter_members)
qed

lemma lib_call_ok:
  assumes "kernel_ok k" and "p \<in> kheap k" and "f (proc_ctx k p) = Inr (r, c)"
    and "vm_ok (foreign_ram k p) (foreign_swp k p) c" "confined (foreign_ram k p) (foreign_swp k p) (proc_ctx k p) c"
    and "limit c + demand_left (kpcb k p) \<le> 4194304"
  shows "lib_call k p f = Inr (r, put_proc_ctx k p c)" "kernel_ok (put_proc_ctx k p c)" "effect k p (put_proc_ctx k p c)"
  using assms put_proc_ctx_ok [OF assms(1,2,4-6)] by (simp_all add: lib_call_def deref_def)

lemma free_pcb_ok:
  assumes ok: "kernel_ok k" and p: "p \<in> kheap k" "p \<notin> set (running (ksched k))"
  obtains k' where "free_pcb k (Some p) = Inr k'" "kernel_ok k'" "ksched k' = ksched k" "kheap k' = kheap k - {p}"
    "\<And>q. q \<in> kheap k' \<Longrightarrow> vmem (proc_ctx k' q) = vmem (proc_ctx k q)"
    "set (free_fp_list (kram k')) = {0..<nframes (kram k)} - foreign_ram k p"
    "set (free_fp_list (kswaps k' ! 0)) = {0..<nframes (kswaps k ! 0)} - foreign_swp k p"
proof -
  note K = kernel_okD [OF ok]
  have "paging_ok (foreign_ram k p) (foreign_swp k p) (proc_ctx k p)"
    using kernel_vm_ok [OF ok p(1)] by (simp add: vm_ok_def)
  then obtain c where c: "free_pcb_memph (proc_ctx k p) = Inr c" and
      F: "cells_same (proc_ctx k p) c" "set (free_fp_list (mram c)) = {0..<nframes (kram k)} - foreign_ram k p"
      "set (free_fp_list (act c)) = {0..<nframes (kswaps k ! 0)} - foreign_swp k p"
    by (rule free_pcb_memph_spec) auto
  let ?k = "k\<lparr>kram := mram c, kswaps := mswp c, kheap := kheap k - {p}\<rparr>"
  have m: "p \<in> live (memsys_of k)" "free_pcb_memph (ctx (memsys_of k) p) = Inr c"
    using p c by simp_all
  have "proc_ok ?k q" if "q \<in> kheap k" for q
    using K(6) [OF that] by (simp add: proc_ok_def area0_def)
  then have "kernel_ok ?k"
    using end_proc_ok(1) [OF K(1) m] K(2-5) p(2) by (auto simp: kernel_ok_def memsys_of_upd(3))
  moreover have "vmem (proc_ctx ?k q) = vmem (proc_ctx k q)" if "q \<in> kheap ?k" for q
    using end_proc_ok(2) [OF K(1) m, of q] that unfolding memsys_of_upd(3) [symmetric] by simp
  moreover have "active_mswp c = 0"
    using F(1) by (auto simp: cells_same_def env_same_def)
  ultimately show ?thesis
    using p c F by (intro that [of ?k]) (auto simp: free_pcb_def deref_def)
qed

subsection \<open>Killing by name\<close>

lemma free_victims_ok:
  assumes "kernel_ok k" and "distinct vs" and "set vs \<subseteq> kheap k" and "set vs \<inter> set (running (ksched k)) = {}"
  shows "\<exists>k'. free_victims k vs = Inr k' \<and> kernel_ok k' \<and> ksched k' = ksched k \<and> kheap k' = kheap k - set vs \<and>
    (\<forall>q \<in> kheap k'. vmem (proc_ctx k' q) = vmem (proc_ctx k q))"
  using assms
proof (induction vs arbitrary: k)
  case (Cons v vs)
  obtain k1 where k1: "free_pcb k (Some v) = Inr k1" "kernel_ok k1" "ksched k1 = ksched k" "kheap k1 = kheap k - {v}"
      "\<And>q. q \<in> kheap k1 \<Longrightarrow> vmem (proc_ctx k1 q) = vmem (proc_ctx k q)"
    using Cons.prems by (auto intro: free_pcb_ok [OF Cons.prems(1), of v])
  obtain k' where "free_victims k1 vs = Inr k'" "kernel_ok k'" "ksched k' = ksched k1" "kheap k' = kheap k1 - set vs"
      "\<forall>q \<in> kheap k'. vmem (proc_ctx k' q) = vmem (proc_ctx k1 q)"
  proof -
    have "distinct vs" "set vs \<subseteq> kheap k1" "set vs \<inter> set (running (ksched k1)) = {}"
      using Cons.prems k1(3,4) by auto
    with Cons.IH [OF k1(2)] that show thesis
      by blast
  qed
  with k1 show ?case
    by auto
qed simp

text \<open>The processes a call of \<open>killall\<close> ends at once: those of the name that wait.\<close>

abbreviation waiting_targets :: "kernel \<Rightarrow> string \<Rightarrow> pcb_ptr \<Rightarrow> pcb_ptr set" where
  "waiting_targets k name p \<equiv>
     {q \<in> set (running (ksched k)). targets (ksched k) name p q \<and> queued (ksched k) q}"

text \<open>Changing the lists of the scheduler and the flags of processes keeps the kernel consistent.\<close>

lemma kernel_ok_relisted:
  assumes ok: "kernel_ok k" and s': "sched_ok s'" "tracked s'" "set (running s') \<subseteq> set (running (ksched k))"
    and f: "\<And>q. pmm (pcbs s' q) = pmm (kpcb k q)" "\<And>q. prio (pcbs s' q) = prio (kpcb k q)" "\<And>q. code (pcbs s' q) = code (kpcb k q)"
      "\<And>q. pc (pcbs s' q) = pc (kpcb k q)" "\<And>q. regs (pcbs s' q) = regs (kpcb k q)"
  shows "kernel_ok (k\<lparr>ksched := s'\<rparr>)"
proof -
  have ctx: "proc_ctx (k\<lparr>ksched := s'\<rparr>) q = proc_ctx k q" for q
    by (rule ctx_cong) (simp_all add: f)
  have "memsys_of (k\<lparr>ksched := s'\<rparr>) = memsys_of k"
    by (simp add: memsys_of_def f)
  moreover have "proc_ok (k\<lparr>ksched := s'\<rparr>) q = proc_ok k q" for q
    by (simp add: proc_ok_def ctx code_ok_def demand_left_def f)
  ultimately show ?thesis
    using kernel_okD [OF ok] s' by (auto simp: kernel_ok_def f)
qed

lemma kill_named_ok:
  assumes ok: "kernel_ok k" and p: "p \<in> kheap k"
  obtains k2 vs k' where "kill_named k name p =
      Inr (int (length (filter (targets (ksched k) name p) (running (ksched k)))), vs, k2)"
    "free_victims k2 vs = Inr k'" "kernel_ok k'" "effect k p k'"
    "kheap k' = kheap k - waiting_targets k name p" "vmem (proc_ctx k' p) = vmem (proc_ctx k p)"
    "\<And>q. killed (kpcb k' q) =
      (if targets (ksched k) name p q \<and> q \<in> set (running (ksched k)) then 1 else killed (kpcb k q))"
    "kpcb k' p = kpcb k p"
proof -
  note K = kernel_okD [OF ok]
  let ?s = "ksched k" and ?T = "targets (ksched k) name p"
  let ?vs = "filter (\<lambda>q. ?T q \<and> queued ?s q) (running ?s)"
  obtain s' where kill: "kill_proc_by_name ?s name p = Inr (int (length (filter ?T (running ?s))), ?vs, s')" and
      S: "sched_ok s'" "tracked s'" "running s' = filter (\<lambda>q. \<not> (?T q \<and> queued ?s q)) (running ?s)"
      "\<forall>i < 140. lev s' i = filter (\<lambda>q. \<not> ?T q) (lev ?s i)"
      "\<forall>q. pcbs s' q = (if ?T q \<and> q \<in> set (running ?s) then (pcbs ?s q)\<lparr>killed := 1\<rparr> else pcbs ?s q)"
    using kill_proc_by_name_spec [OF K(2,3), of name p] by blast
  let ?k2 = "k\<lparr>ksched := s'\<rparr>"
  have f: "pmm (pcbs s' q) = pmm (kpcb k q)" "prio (pcbs s' q) = prio (kpcb k q)" "code (pcbs s' q) = code (kpcb k q)"
      "pc (pcbs s' q) = pc (kpcb k q)" "regs (pcbs s' q) = regs (kpcb k q)" for q
    using S(5) by simp_all
  have ctx: "proc_ctx ?k2 q = proc_ctx k q" for q
    by (rule ctx_cong) (simp_all add: f)
  have ok2: "kernel_ok ?k2"
    by (rule kernel_ok_relisted [OF ok S(1,2)]) (use S(3) f in auto)
  have vs: "distinct ?vs" "set ?vs \<subseteq> kheap ?k2" "set ?vs \<inter> set (running (ksched ?k2)) = {}"
    using K(3,4) S(3) by (auto simp: tracked_def)
  obtain k' where k': "free_victims ?k2 ?vs = Inr k'" "kernel_ok k'" "ksched k' = s'" "kheap k' = kheap k - set ?vs"
      "\<forall>q \<in> kheap k'. vmem (proc_ctx k' q) = vmem (proc_ctx k q)"
    using free_victims_ok [OF ok2 vs] ctx by auto
  have heap: "kheap k' = kheap k - waiting_targets k name p"
    using k'(4) by auto
  have self: "pcbs s' p = kpcb k p" and pin: "p \<in> kheap k'"
    using S(5) p heap by (simp_all add: targets_def)
  have q_lev: "q \<in> set (lev ?s i) \<Longrightarrow> i < 140 \<Longrightarrow> queued ?s q \<and> q \<in> set (running ?s)" for q i
    using K(3) by (auto simp: tracked_def queued_def)
  have lists: "running s' = filter (\<lambda>q. q \<in> kheap k') (running ?s)"
      "i < 140 \<Longrightarrow> lev s' i = filter (\<lambda>q. q \<in> kheap k') (lev ?s i)" for i
    using S(3,4) K(4,7) q_lev [of _ i] unfolding heap by (auto intro!: filter_cong)
  have kl: "\<exists>x. pcbs s' q = (kpcb k q)\<lparr>killed := x\<rparr>" for q
    using S(5) by (cases "?T q \<and> q \<in> set (running ?s)") (auto intro: exI [of _ "killed (kpcb k q)"])
  have "\<exists>rg i m. kpcb k p = (kpcb k p)\<lparr>regs := rg, pc := i, pmm := m\<rparr>"
    by (intro exI [of _ "regs (kpcb k p)"] exI [of _ "pc (kpcb k p)"] exI [of _ "pmm (kpcb k p)"]) simp
  then have "effect k p k'"
    using k'(3,5) heap pin lists kl by (simp add: effect_def self)
  moreover have "kill_named k name p = Inr (int (length (filter ?T (running ?s))), ?vs, ?k2)"
    using kill K(4) by (simp add: kill_named_def)
  moreover have "vmem (proc_ctx k' p) = vmem (proc_ctx k p)"
    using k'(5) pin by blast
  moreover have "killed (kpcb k' q) = (if ?T q \<and> q \<in> set (running ?s) then 1 else killed (kpcb k q))" for q
    using S(5) by (simp add: k'(3))
  ultimately show ?thesis
    using k'(1-3) heap self by (intro that [of ?vs ?k2 k']) simp_all
qed

lemma sys_killall_spec:
  assumes ok: "kernel_ok k" and p: "p \<in> kheap k"
  obtains name k' where "reads_as (proc_ctx k p) (region_name (proc_ctx k p) (a1 r)) name"
    "sys_killall k p r = Inr (int (length (filter (targets (ksched k) name p) (running (ksched k)))), k')"
    "kernel_ok k'" "effect k p k'" "kheap k' = kheap k - waiting_targets k name p"
    "vmem (proc_ctx k' p) = vmem (proc_ctx k p)"
    "\<And>q. killed (kpcb k' q) =
      (if targets (ksched k) name p q \<and> q \<in> set (running (ksched k)) then 1 else killed (kpcb k q))"
    "pc (kpcb k' p) = pc (kpcb k p)" "regs (kpcb k' p) = regs (kpcb k p)"
    "symrgtbl (pmm (kpcb k' p)) = symrgtbl (pmm (kpcb k p))"
proof -
  let ?R = "foreign_ram k p" and ?S = "foreign_swp k p" and ?c = "proc_ctx k p"
  obtain name c where nm: "name_loop 0 (a1 r) [] ?c = Inr (name, c)" "vm_ok ?R ?S c" "keeps ?R ?S ?c c"
      "reads_as (proc_ctx k p) (region_name (proc_ctx k p) (a1 r)) name"
    using name_loop_spec [OF kernel_vm_ok [OF ok p], of 0 99 "a1 r" "[]"]
    unfolding region_name_def by auto
  have "limit c = limit ?c"
    using nm(3) by (simp add: keeps_def map_same_def area0_def)
  then have lim: "limit c + demand_left (kpcb k p) \<le> 4194304"
    using kernel_okD(6) [OF ok p] by (simp add: proc_ok_def)
  let ?k1 = "put_proc_ctx k p c"
  note L = lib_call_ok [of k p "name_loop 0 (a1 r) []", OF ok p nm(1,2) confinedI(1) [OF nm(3)] lim]
  have same: "running (ksched ?k1) = running (ksched k)" "targets (ksched ?k1) = targets (ksched k)"
      "queued (ksched ?k1) = queued (ksched k)" "killed (kpcb ?k1 q) = killed (kpcb k q)" for q
    by (auto simp: fun_eq_iff targets_def queued_def)
  have v: "vmem (proc_ctx ?k1 p) = vmem ?c"
    using put_proc_ctx_ok(3) [OF ok p nm(2) confinedI(1) [OF nm(3)] lim] keeps_vmem [OF nm(3)] by simp
  have p1: "p \<in> kheap ?k1" and sym: "symrgtbl (pmm (kpcb ?k1 p)) = symrgtbl (pmm (kpcb k p))"
    using p nm(3) by (simp_all add: keeps_def map_same_def)
  show ?thesis
    by (rule kill_named_ok [OF L(2) p1, of name])
      (use L nm v sym in \<open>auto simp: same sys_killall_def intro!: that [of name] intro: effect_trans\<close>)
qed

subsection \<open>A small kernel\<close>

text \<open>
  Two processes: process 3 is on a CPU and has written the name \<open>p0s\<close> to its region 0, process 7
  runs the program \<open>p0s\<close> and waits at priority 5.
\<close>

definition m2 :: vmctx where
  "m2 = the (run_writes (\<lambda>c k b. u_write c 0 (fst k) (snd k) b) m1 [((0, 0), 112), ((0, 1), 48), ((0, 2), 115)])"

definition pcb3 :: pcb_t where
  "pcb3 = pcb0\<lparr>path := ''input/proc/sc2'', pmm := mm m2,
     code := \<lparr>code_text = [\<lparr>opcode = WRITE, arg_0 = 200, arg_1 = 0, arg_2 = 5, arg_3 = 0\<rparr>,
         \<lparr>opcode = WRITE, arg_0 = 7, arg_1 = 0, arg_2 = 6, arg_3 = 0\<rparr>,
         \<lparr>opcode = READ, arg_0 = 0, arg_1 = 5, arg_2 = 2, arg_3 = 0\<rparr>,
         \<lparr>opcode = SYSCALL, arg_0 = 101, arg_1 = 0, arg_2 = 0, arg_3 = 0\<rparr>,
         \<lparr>opcode = ALLOC, arg_0 = 100, arg_1 = 1, arg_2 = 0, arg_3 = 0\<rparr>], code_size = 5\<rparr>\<rparr>"

definition kern :: kernel where
  "kern = \<lparr>ksched = sched7\<lparr>pcbs := (\<lambda>p. if p = 3 then pcb3 else pcb0)\<rparr>, kram = mram m2, kswaps = mswp m2,
     kheap = {3, 7}\<rparr>"

lemma run_writes_confined:
  assumes "vm_ok R S c" and "\<forall>kb \<in> set kbs. offset_ok (fst kb)"
    and "run_writes (\<lambda>c k b. u_write c 0 (fst k) (snd k) b) c kbs = Some c'"
  shows "vm_ok R S c' \<and> confined R S c c'"
  using assms
proof (induction kbs arbitrary: c)
  case (Cons kb kbs)
  have k: "offset_ok (fst kb)"
    using Cons.prems(2) by simp
  obtain c1 where c1: "u_write c 0 (fst (fst kb)) (snd (fst kb)) (snd kb) = Inr (0, c1)"
      "run_writes (\<lambda>c k b. u_write c 0 (fst k) (snd k) b) c1 kbs = Some c'"
    using Cons.prems(3) by (auto split: sum.splits if_splits)
  from Cons.prems(1) k have "vm_ok R S c1 \<and> confined R S c c1"
    by (cases rule: wr_region_spec [where b = "snd kb"]) (use c1(1) in \<open>auto simp: wr_region_def intro: confinedI\<close>)
  with Cons.IH [of c1] Cons.prems(2) c1(2) show ?case
    by (auto simp: confined_def env_same_def frames_same_def)
qed (auto intro: confinedI)

lemma m2_ok: "vm_ok {} {} m2" "confined {} {} m0 m2"
proof -
  let ?w = "\<lambda>c k b. u_write c 0 (fst k) (snd k) b"
  let ?kbs = "[((0, 0), 112), ((0, 1), 48), ((0, 2), 115)] :: ((int \<times> int) \<times> byte) list"
  have "run_writes ?w m1 ?kbs \<noteq> None"
    by code_simp
  then have m2: "run_writes ?w m1 ?kbs = Some m2"
    by (auto simp: m2_def)
  have "vm_ok {} {} m2 \<and> confined {} {} m1 m2"
    by (rule run_writes_confined [OF m1_ok _ m2]) (simp add: INT_MIN_def INT_MAX_def)
  moreover have "confined {} {} m0 m1"
    using lib_step_ok [OF m0_step m0_ok] by simp
  ultimately show "vm_ok {} {} m2" "confined {} {} m0 m2"
    by (auto simp: confined_def env_same_def frames_same_def)
qed

lemma m2_facts: "region_name m2 0 = ''p0s''" "avail m2 = 2" "limit m2 = 512" "symrg m2 0 = \<lparr>rg_start = 0, rg_end = 512\<rparr>"
    "region_mem m2 (0, 1) = Some 48"
  by code_simp+

lemma kern_memory: "sys_ok (memsys_of kern)"
proof -
  let ?s = "load_proc (load_proc (boot (device 512) [device 1024]) 3) 7"
  have b: "sys_ok (boot (device 512) [device 1024])"
    using boot_ok [OF device_init device_init, of 512 1024 "[]"] by simp
  have ok: "sys_ok ?s"
    by (intro load_proc_ok b) (auto simp: boot_def load_proc_def)
  have own: "ram_of ?s (live ?s - {3}) = {}" "swp_of_procs ?s (live ?s - {3}) = {}" "ctx ?s 3 = m0" "3 \<in> live ?s"
    by (auto simp: ram_of_def swp_of_procs_def load_proc_def boot_def init_mm_frames ctx_def m0_def split: if_splits)
  have "sys_ok (put_ctx ?s 3 m2)"
    by (rule put_ctx_ok [OF ok own(4)]) (simp_all only: own m2_ok)
  moreover have "put_ctx ?s 3 m2 = memsys_of kern"
    by (auto simp: memsys_of_def kern_def put_ctx_def load_proc_def boot_def pcb3_def pcb0_def fun_eq_iff)
  ultimately show ?thesis
    by simp
qed

lemma kern_lists: "running (ksched kern) = [7, 3]" "i < 140 \<Longrightarrow> lev (ksched kern) i = (if i = 5 then [7] else [])"
    "prio_of (ksched kern) p = 5" "queued (ksched kern) p \<longleftrightarrow> p = 7" "kheap kern = {3, 7}"
proof -
  show l: "running (ksched kern) = [7, 3]" "i < 140 \<Longrightarrow> lev (ksched kern) i = (if i = 5 then [7] else [])" for i
    using sched7_running sched7_lev by (simp_all add: kern_def)
  show p: "prio_of (ksched kern) p = 5" "kheap kern = {3, 7}"
    by (simp_all add: kern_def pcb3_def pcb0_def)
  show "queued (ksched kern) p \<longleftrightarrow> p = 7"
    using l(2) by (simp add: queued_def p)
qed

lemma kern_ctx: "proc_ctx kern 3 = m2"
proof -
  have "active_mswp m2 = 0" "active_mswp_id m2 = 0"
    using m2_ok(2) by (simp_all add: confined_def env_same_def m0_def)
  then show ?thesis
    by (simp add: proc_ctx_def kern_def pcb3_def)
qed

lemma kern_ok: "kernel_ok kern"
proof -
  have "sched_ok (ksched kern)"
    using sched7_ok by (simp add: kern_def sched_pcbs)
  moreover have "tracked (ksched kern)"
    unfolding tracked_def using kern_lists by auto
  moreover have "proc_ok kern 3"
    by (simp add: proc_ok_def kern_ctx m2_facts) (simp add: kern_def code_ok_def demand_left_def demand_def pcb3_def pcb0_def ins_ok_def)
  moreover have "proc_ok kern 7"
    by (simp add: proc_ok_def kern_def code_ok_def demand_left_def pcb0_def area0_def init_mm_simps)
  ultimately show ?thesis
    using kern_memory by (simp add: kernel_ok_def kern_lists)
qed

subsection \<open>Properties\<close>

text \<open>
  C12. System call 101 in a consistent kernel: the call is defined and the kernel stays consistent. It
  returns the number of processes of the name other than the caller. Those that wait are released
  with all their memory and are in no queue afterwards; those on a CPU are marked as killed and stay
  for their CPU to reap; no other process is marked. The memory of every process that survives is
  unchanged. The name is the string in the region of the caller, at most 99 characters long, or a
  prefix of it when RAM and swap are full.
\<close>

theorem killall_releases:
  assumes "kernel_ok k" and "p \<in> kheap k"
  shows "\<exists>name k'. reads_as (proc_ctx k p) (region_name (proc_ctx k p) (a1 r)) name \<and> length name \<le> 99 \<and>
    sys_killall k p r = Inr (int (length (filter (targets (ksched k) name p) (running (ksched k)))), k') \<and>
    kernel_ok k' \<and> kheap k' = kheap k - waiting_targets k name p \<and>
    running (ksched k') = filter (\<lambda>q. q \<in> kheap k') (running (ksched k)) \<and>
    (\<forall>i < 140. lev (ksched k') i = filter (\<lambda>q. q \<in> kheap k') (lev (ksched k) i)) \<and>
    (\<forall>q. killed (kpcb k' q) =
      (if targets (ksched k) name p q \<and> q \<in> set (running (ksched k)) then 1 else killed (kpcb k q))) \<and>
    (\<forall>q \<in> kheap k'. vmem (proc_ctx k' q) = vmem (proc_ctx k q))"
proof -
  have len: "length (name_from c rg n i) \<le> n" for c rg n i
    by (induction n arbitrary: i) (auto split: option.split)
  show ?thesis
  proof (rule sys_killall_spec [OF assms, of r])
    fix name k'
    assume nm: "reads_as (proc_ctx k p) (region_name (proc_ctx k p) (a1 r)) name" and e: "effect k p k'" "vmem (proc_ctx k' p) = vmem (proc_ctx k p)"
      and rest: "sys_killall k p r = Inr (int (length (filter (targets (ksched k) name p) (running (ksched k)))), k')"
      "kernel_ok k'" "kheap k' = kheap k - waiting_targets k name p"
      "\<And>q. killed (kpcb k' q) =
        (if targets (ksched k) name p q \<and> q \<in> set (running (ksched k)) then 1 else killed (kpcb k q))"
    have "length name \<le> 99"
      using nm len [of "proc_ctx k p" "sint (a1 r)" 99 0] by (auto simp: reads_as_def region_name_def)
    moreover have "\<forall>q \<in> kheap k'. vmem (proc_ctx k' q) = vmem (proc_ctx k q)"
      using effectD(8) [OF e(1)] e(2) by metis
    ultimately show ?thesis
      using nm rest effectD(4,5) [OF e(1)] by blast
  qed
qed

theorem killall_releases_witness:
  "\<exists>k'. sys_killall kern 3 \<lparr>a1 = 0, a2 = 0, a3 = 0\<rparr> = Inr (1, k') \<and> kheap k' = {3} \<and> kernel_ok k' \<and>
    running (ksched k') = [3]"
proof -
  have t: "targets (ksched kern) ''p0s'' 3 7" "\<not> targets (ksched kern) ''p0s'' 3 3"
    by (simp_all add: targets_def kern_def pcb0_def proc_name_def)
  obtain name k' where "reads_as m2 ''p0s'' name"
      "sys_killall kern 3 \<lparr>a1 = 0, a2 = 0, a3 = 0\<rparr> =
        Inr (int (length (filter (targets (ksched kern) name 3) [7, 3])), k')" "kernel_ok k'"
      "kheap k' = {3, 7} - {q \<in> {7, 3}. targets (ksched kern) name 3 q \<and> queued (ksched kern) q}"
      "running (ksched k') = filter (\<lambda>q. q \<in> kheap k') [7, 3]"
    using killall_releases [OF kern_ok, of 3 "\<lparr>a1 = 0, a2 = 0, a3 = 0\<rparr>"]
    by (auto simp: kern_lists kern_ctx m2_facts)
  moreover from this(1) have "name = ''p0s''"
    by (simp add: reads_as_def m2_facts)
  ultimately have "sys_killall kern 3 \<lparr>a1 = 0, a2 = 0, a3 = 0\<rparr> = Inr (1, k')" "kheap k' = {3}" "kernel_ok k'"
      "running (ksched k') = [3]"
    using t by (auto simp: kern_lists)
  then show ?thesis
    by blast
qed

end
