(* ===== verification/Cpu.thy ===== *)
theory Cpu
  imports Syscall
begin

text \<open>
  The processor: \<open>run\<close> of \<open>src/cpu.c\<close> as it is built with \<open>MM_PAGING\<close>, which executes one
  instruction of a process. The lemmas show that an instruction keeps the kernel consistent, that it
  advances the program counter by one whatever its result, and what it can do to other processes.
\<close>

definition calc :: int where
  "calc = 0"

text \<open>The register file has \<open>sizeof(proc->regs) / sizeof(proc->regs[0])\<close> registers.\<close>

definition NUM_REGS :: nat where
  "NUM_REGS = 10"

definition exec_ins :: "kernel \<Rightarrow> pcb_ptr \<Rightarrow> inst_t \<Rightarrow> (int \<times> kernel) res" where
  "exec_ins k p ins =
     (case opcode ins of
        CALC \<Rightarrow> Inr (calc, k)
      | ALLOC \<Rightarrow> lib_call k p (\<lambda>c. liballoc c (arg_0 ins) (arg_1 ins))
      | FREE \<Rightarrow> lib_call k p (\<lambda>c. libfree c (arg_0 ins))
      | READ \<Rightarrow>
          rbind (lib_call k p (\<lambda>c. rbind (libread c (arg_0 ins) (arg_1 ins)) (\<lambda>(rc, v, c1). Inr ((rc, v), c1))))
            (\<lambda>((stat, v), k1).
               if stat = 0 \<and> unat (arg_2 ins) < NUM_REGS then
                 rbind (out v) (\<lambda>data.
                 rbind (arr_set (regs (kpcb k1 p)) (uint (arg_2 ins)) data) (\<lambda>rs.
                   Inr (stat, set_pcb k1 p ((kpcb k1 p)\<lparr>regs := rs\<rparr>))))
               else Inr (stat, k1))
      | WRITE \<Rightarrow> lib_call k p (\<lambda>c. libwrite c (ucast (arg_0 ins)) (arg_1 ins) (arg_2 ins))
      | SYSCALL \<Rightarrow> libsyscall k p (arg_0 ins) (arg_1 ins) (arg_2 ins) (arg_3 ins))"

definition run :: "kernel \<Rightarrow> pcb_ptr \<Rightarrow> (int \<times> kernel) res" where
  "run k p =
     rbind (deref k p) (\<lambda>b.
     if pc b \<ge> code_size (code b) then Inr (1, k)
     else
       rbind (arr_get (code_text (code b)) (uint (pc b))) (\<lambda>ins.
         exec_ins (set_pcb k p (b\<lparr>pc := pc b + 1\<rparr>)) p ins))"

subsection \<open>The size of the address space\<close>

lemma liballoc_limit:
  assumes ok: "vm_ok R S c" and fit: "fits c (sint sz) \<or> sint sz \<le> 0" and run: "liballoc c sz i = Inr (rc, c')"
  shows "limit c' \<le> limit c + (if 0 < sint sz then page_align (sint sz) else 0)"
proof (cases "0 \<le> sint i \<and> sint i < 30 \<and> 0 < sint sz")
  case True
  then have i: "0 \<le> sint i" "sint i < 30" "0 < sint sz" "sint sz \<le> 2147483647" "fits c (sint sz)"
    using fit sint_int_range(2) [of sz] by (auto simp: INT_MAX_def)
  have "0 < page_align (sint sz)"
    using page_align_props(2) [OF i(3)] .
  from ok i show ?thesis
  proof (cases rule: u_alloc_spec)
    case (alloc n c1)
    then show ?thesis
      using run i(3) \<open>0 < page_align (sint sz)\<close> by (simp add: liballoc_eq [OF ok fit])
  next
    case (fail c1)
    then have "area0 c' = area0 c"
      using run by (simp add: liballoc_eq [OF ok fit] keeps_def map_same_def area0_def)
    then show ?thesis
      using i(3) \<open>0 < page_align (sint sz)\<close> by simp
  qed
next
  case False
  then have "u_alloc c 0 (sint i) (sint sz) = Inr (- 1, None, c)"
    by (auto simp: u_alloc_def PAGING_MAX_SYMTBL_SZ_def)
  then show ?thesis
    using run page_align_props(2) [of "sint sz"] by (auto simp: liballoc_eq [OF ok fit])
qed

lemma libfree_limit:
  assumes ok: "vm_ok R S c" and run: "libfree c i = Inr (rc, c')"
  shows "limit c' = limit c"
proof -
  have m: "map_ok c"
    using ok by (simp add: vm_ok_def)
  consider (a) "\<not> (0 \<le> sint i \<and> sint i < 30)" | (b) "0 \<le> sint i" "sint i < 30" "symrg c (nat (sint i)) = null_rg"
    | (c) "0 \<le> sint i" "sint i < 30" "symrg c (nat (sint i)) \<noteq> null_rg"
    by auto
  then show ?thesis
  proof cases
    case a
    then have "u_free c 0 (sint i) = Inr (- 1, c)"
      by (auto simp: u_free_def PAGING_MAX_SYMTBL_SZ_def)
    then show ?thesis
      using run by (simp add: libfree_eq [OF ok])
  next
    case b
    then show ?thesis
      using run u_free_null [OF m b] by (simp add: libfree_eq [OF ok])
  next
    case c
    show ?thesis
      by (rule u_free_spec [OF ok c]) (use run in \<open>auto simp: libfree_eq [OF ok]\<close>)
  qed
qed

lemma libread_limit:
  assumes ok: "vm_ok R S c" and run: "libread c i off = Inr (rc, v, c')"
  shows "limit c' = limit c" and "rc = 0 \<Longrightarrow> v \<noteq> None"
proof -
  have k: "offset_ok (sint i, sint off)"
    using sint_int_range by simp
  from ok k have "limit c' = limit c \<and> (rc = 0 \<longrightarrow> v \<noteq> None)"
    by (cases rule: rd_region_spec)
      (use run in \<open>auto simp: libread_eq [OF ok] keeps_def map_same_def area0_def\<close>)
  then show "limit c' = limit c" "rc = 0 \<Longrightarrow> v \<noteq> None"
    by simp_all
qed

lemma libwrite_limit:
  assumes ok: "vm_ok R S c" and run: "libwrite c b i off = Inr (rc, c')"
  shows "limit c' = limit c"
proof -
  have k: "offset_ok (sint i, sint off)"
    using sint_int_range by simp
  from ok k show ?thesis
    by (cases rule: wr_region_spec [where b = b])
      (use run in \<open>auto simp: libwrite_eq [OF ok] keeps_def stores_def map_same_def area0_def\<close>)
qed

subsection \<open>One instruction\<close>

text \<open>\<open>advances k p k'\<close>: what every instruction of \<open>p\<close> does to the kernel, seen from outside.\<close>

definition advances :: "kernel \<Rightarrow> pcb_ptr \<Rightarrow> kernel \<Rightarrow> bool" where
  "advances k p k' \<longleftrightarrow> kernel_ok k' \<and> effect k p k' \<and> pc (kpcb k' p) = pc (kpcb k p)"

lemma lib_call_advances:
  assumes ok: "kernel_ok k" and p: "p \<in> kheap k"
    and call: "\<And>R S. vm_ok R S (proc_ctx k p) \<Longrightarrow>
      \<exists>r c. f (proc_ctx k p) = Inr (r, c) \<and> vm_ok R S c \<and> confined R S (proc_ctx k p) c"
    and lim: "\<And>r c. f (proc_ctx k p) = Inr (r, c) \<Longrightarrow> limit c + demand_left (kpcb k p) \<le> 4194304"
  obtains r c where "f (proc_ctx k p) = Inr (r, c)" "lib_call k p f = Inr (r, put_proc_ctx k p c)"
    "advances k p (put_proc_ctx k p c)"
proof -
  obtain r c where c: "f (proc_ctx k p) = Inr (r, c)" "vm_ok (foreign_ram k p) (foreign_swp k p) c"
      "confined (foreign_ram k p) (foreign_swp k p) (proc_ctx k p) c"
    using call [OF kernel_vm_ok [OF ok p]] by blast
  note L = lib_call_ok [of k p f, OF ok p c lim [OF c(1)]]
  show ?thesis
    by (rule that [OF c(1) L(1)]) (use L(2,3) in \<open>simp add: advances_def\<close>)
qed

lemma set_regs_advances:
  assumes "kernel_ok k" and "p \<in> kheap k" and "length rs = 10"
  shows "advances k p (set_pcb k p ((kpcb k p)\<lparr>regs := rs\<rparr>))"
proof -
  let ?b = "(kpcb k p)\<lparr>regs := rs\<rparr>"
  have b: "?b = (kpcb k p)\<lparr>regs := rs, pc := pc (kpcb k p)\<rparr>" "demand_left ?b \<le> demand_left (kpcb k p)"
    by (simp_all add: demand_left_def)
  have "code_ok ?b"
    using kernel_okD(6) [OF assms(1,2)] assms(3) by (simp add: proc_ok_def code_ok_def)
  note set_pcb_ok [OF assms(1,2) b(1) this b(2)]
  then show ?thesis
    by (simp add: advances_def)
qed

lemma advances_trans: "advances k p k1 \<Longrightarrow> advances k1 p k2 \<Longrightarrow> advances k p k2"
  unfolding advances_def using effect_trans by metis

lemma exec_read_ok:
  assumes ok: "kernel_ok k" and p: "p \<in> kheap k" and op: "opcode ins = READ"
    and now: "limit (proc_ctx k p) + demand_left (kpcb k p) \<le> 4194304"
  shows "\<exists>stat k'. exec_ins k p ins = Inr (stat, k') \<and> advances k p k'"
proof -
  let ?c = "proc_ctx k p"
  note V = kernel_vm_ok [OF ok p]
  let ?f = "\<lambda>c. rbind (libread c (arg_0 ins) (arg_1 ins)) (\<lambda>(rc, v, c1). Inr ((rc, v), c1))"
  have call: "\<exists>r c. ?f ?c = Inr (r, c) \<and> vm_ok R S c \<and> confined R S ?c c" if "vm_ok R S ?c" for R S
    using libread_ok [OF that, of "arg_0 ins" "arg_1 ins"] by auto
  have fl: "limit c + demand_left (kpcb k p) \<le> 4194304" if "?f ?c = Inr (r, c)" for r c
    using that libread_limit(1) [OF V] now by (auto simp: rbind_Inr_iff)
  show ?thesis
  proof (rule lib_call_advances [OF ok p, of ?f, OF call fl])
    fix r c
    assume r: "?f ?c = Inr (r, c)" "lib_call k p ?f = Inr (r, put_proc_ctx k p c)" "advances k p (put_proc_ctx k p c)"
    let ?k1 = "put_proc_ctx k p c"
    obtain stat v where sv: "r = (stat, v)" "libread ?c (arg_0 ins) (arg_1 ins) = Inr (stat, v, c)"
      using r(1) by (auto simp: rbind_Inr_iff)
    have run: "exec_ins k p ins = (if stat = 0 \<and> unat (arg_2 ins) < NUM_REGS then
          rbind (out v) (\<lambda>data. rbind (arr_set (regs (kpcb ?k1 p)) (uint (arg_2 ins)) data) (\<lambda>rs.
            Inr (stat, set_pcb ?k1 p ((kpcb ?k1 p)\<lparr>regs := rs\<rparr>))))
        else Inr (stat, ?k1))"
      using r(2) op sv(1) by (simp add: exec_ins_def)
    show ?thesis
    proof (cases "stat = 0 \<and> unat (arg_2 ins) < NUM_REGS")
      case True
      then obtain d where d: "v = Some d"
        using libread_limit(2) [OF V sv(2)] by auto
      let ?rs = "(regs (kpcb ?k1 p))[unat (arg_2 ins) := d]"
      have len: "length (regs (kpcb ?k1 p)) = 10"
        using kernel_okD(6) [OF ok p] by (simp add: proc_ok_def code_ok_def)
      then have "exec_ins k p ins = Inr (stat, set_pcb ?k1 p ((kpcb ?k1 p)\<lparr>regs := ?rs\<rparr>))"
        using True d arr_set_in [of "unat (arg_2 ins)" "regs (kpcb ?k1 p)" d] by (simp add: run NUM_REGS_def)
      moreover have "advances ?k1 p (set_pcb ?k1 p ((kpcb ?k1 p)\<lparr>regs := ?rs\<rparr>))"
        using r(3) p len by (intro set_regs_advances) (simp_all add: advances_def)
      ultimately show ?thesis
        using advances_trans [OF r(3)] by blast
    next
      case False
      then show ?thesis
        using run r(3) by auto
    qed
  qed
qed

lemma exec_ins_ok:
  assumes ok: "kernel_ok k" and p: "p \<in> kheap k" and ins: "ins_ok ins"
    and lim: "limit (proc_ctx k p) + demand ins + demand_left (kpcb k p) \<le> 4194304"
  shows "\<exists>stat k'. exec_ins k p ins = Inr (stat, k') \<and> advances k p k'"
proof -
  let ?c = "proc_ctx k p"
  note V = kernel_vm_ok [OF ok p]
  have now: "limit ?c + demand_left (kpcb k p) \<le> 4194304"
    using kernel_okD(6) [OF ok p] by (simp add: proc_ok_def)
  have self: "advances k p k"
    using ok effect_refl [OF ok p] by (simp add: advances_def)
  show ?thesis
  proof (cases "opcode ins")
    case CALC
    with self show ?thesis
      by (simp add: exec_ins_def)
  next
    case ALLOC
    have "0 \<le> demand_left (kpcb k p)"
      unfolding demand_left_def by (rule sum_list_nonneg) (auto simp: demand_def)
    then have fit: "fits ?c (sint (arg_0 ins)) \<or> sint (arg_0 ins) \<le> 0"
      using lim ALLOC by (auto simp: demand_def fits_def)
    show ?thesis
      by (rule lib_call_advances [OF ok p, of "\<lambda>c. liballoc c (arg_0 ins) (arg_1 ins)"])
        (use liballoc_ok [OF _ fit] liballoc_limit [OF V fit] lim ALLOC in \<open>fastforce simp: exec_ins_def demand_def\<close>)+
  next
    case FREE
    show ?thesis
      by (rule lib_call_advances [OF ok p, of "\<lambda>c. libfree c (arg_0 ins)"])
        (use libfree_ok libfree_limit [OF V] now FREE in \<open>fastforce simp: exec_ins_def\<close>)+
  next
    case WRITE
    show ?thesis
      by (rule lib_call_advances [OF ok p, of "\<lambda>c. libwrite c (ucast (arg_0 ins)) (arg_1 ins) (arg_2 ins)"])
        (use libwrite_ok libwrite_limit [OF V] now WRITE in \<open>fastforce simp: exec_ins_def\<close>)+
  next
    case READ
    then show ?thesis
      using now by (rule exec_read_ok [OF ok p])
  next
    case SYSCALL
    then have n17: "arg_0 ins \<noteq> 17"
      using ins by (simp add: ins_ok_def)
    have "\<exists>stat k'. sys_killall k p r = Inr (stat, k') \<and> advances k p k'" for r
      by (rule sys_killall_spec [OF ok p, of r]) (auto simp: advances_def)
    with self n17 SYSCALL show ?thesis
      by (auto simp: exec_ins_def libsyscall_def syscall_def)
  qed
qed

lemma demand_nonneg: "0 \<le> demand ins"
  by (auto simp: demand_def)

text \<open>
  Before the instruction at the program counter is executed, the program counter is advanced: the kernel
  is consistent, and the address space has room for what the instruction and the rest of the program
  demand.
\<close>

lemma first_ins_ok:
  assumes ok: "kernel_ok k" and p: "p \<in> kheap k" and pc: "pc (kpcb k p) < code_size (code (kpcb k p))"
  defines "k1 \<equiv> set_pcb k p ((kpcb k p)\<lparr>pc := pc (kpcb k p) + 1\<rparr>)" and "ins \<equiv> code_text (code (kpcb k p)) ! unat (pc (kpcb k p))"
  shows "kernel_ok k1" "effect k p k1" "ins_ok ins" "limit (proc_ctx k1 p) + demand ins + demand_left (kpcb k1 p) \<le> 4194304"
    "unat (pc (kpcb k p)) < length (code_text (code (kpcb k p)))"
proof -
  let ?b = "kpcb k p"
  let ?b1 = "?b\<lparr>pc := pc ?b + 1\<rparr>" and ?i = "unat (pc ?b)" and ?t = "code_text (code ?b)"
  have co: "code_ok ?b" and lim: "limit (proc_ctx k p) + demand_left ?b \<le> 4194304"
    using kernel_okD(6) [OF ok p] by (simp_all add: proc_ok_def)
  have i: "?i < length ?t" "unat (pc ?b + 1) = Suc ?i"
    using pc co unsigned_less [where ?'a = nat, of "code_size (code ?b)"]
    by (auto simp: code_ok_def word_less_nat_alt unat_word_ariths)
  have dl: "demand_left ?b = demand (?t ! ?i) + demand_left ?b1"
    using i by (simp add: demand_left_def Cons_nth_drop_Suc [symmetric])
  have "pc ?b + 1 \<le> code_size (code ?b)"
    using pc by (rule inc_le)
  then have b1: "code_ok ?b1" "demand_left ?b1 \<le> demand_left ?b" "?b1 = ?b\<lparr>regs := regs ?b, pc := pc ?b + 1\<rparr>"
    using co dl demand_nonneg [of "?t ! ?i"] by (simp_all add: code_ok_def)
  note K1 = set_pcb_ok [OF ok p b1(3,1,2)]
  show "kernel_ok k1" "effect k p k1"
    using K1 by (simp_all add: k1_def)
  show "?i < length ?t" "ins_ok ins"
    using i co by (simp_all add: ins_def code_ok_def list_all_length)
  have ctx: "proc_ctx k1 p = proc_ctx k p"
    unfolding k1_def by (rule ctx_cong) simp_all
  show "limit (proc_ctx k1 p) + demand ins + demand_left (kpcb k1 p) \<le> 4194304"
    unfolding ctx using lim dl by (simp add: k1_def ins_def)
qed

lemma run_ok:
  assumes ok: "kernel_ok k" and p: "p \<in> kheap k"
  obtains (finished) "pc (kpcb k p) = code_size (code (kpcb k p))" "run k p = Inr (1, k)"
  | (executed) stat k' where "pc (kpcb k p) < code_size (code (kpcb k p))" "run k p = Inr (stat, k')"
      "exec_ins (set_pcb k p ((kpcb k p)\<lparr>pc := pc (kpcb k p) + 1\<rparr>)) p
         (code_text (code (kpcb k p)) ! unat (pc (kpcb k p))) = Inr (stat, k')"
      "kernel_ok k'" "effect k p k'" "pc (kpcb k' p) = pc (kpcb k p) + 1"
proof (cases "pc (kpcb k p) < code_size (code (kpcb k p))")
  case False
  with kernel_okD(6) [OF ok p] p show ?thesis
    by (intro finished) (simp_all add: proc_ok_def code_ok_def run_def deref_def)
next
  case True
  let ?b = "kpcb k p"
  let ?k1 = "set_pcb k p (?b\<lparr>pc := pc ?b + 1\<rparr>)" and ?i = "unat (pc ?b)" and ?t = "code_text (code ?b)"
  note K1 = first_ins_ok [OF ok p True]
  have p1: "p \<in> kheap ?k1"
    using p by simp
  obtain stat k' where k': "exec_ins ?k1 p (?t ! ?i) = Inr (stat, k')" "advances ?k1 p k'"
    using exec_ins_ok [OF K1(1) p1 K1(3,4)] by blast
  have "run k p = Inr (stat, k')"
    using True p k'(1) K1(5) arr_get_in [of ?i ?t] by (simp add: run_def deref_def linorder_not_le [symmetric])
  with True k' effect_trans [OF K1(2)] show ?thesis
    by (intro executed [of stat k']) (simp_all add: advances_def)
qed

subsection \<open>Whole programs\<close>

primrec runs :: "nat \<Rightarrow> kernel \<Rightarrow> pcb_ptr \<Rightarrow> kernel res" where
  "runs 0 k p = Inr k"
| "runs (Suc n) k p = rbind (run k p) (\<lambda>(_, k1). runs n k1 p)"

definition left_to_run :: "pcb_t \<Rightarrow> nat" where
  "left_to_run b = unat (code_size (code b)) - unat (pc b)"

lemma run_progress:
  assumes ok: "kernel_ok k" "p \<in> kheap k" and left: "left_to_run (kpcb k p) = Suc n"
  obtains stat k' where "run k p = Inr (stat, k')" "kernel_ok k'" "p \<in> kheap k'" "left_to_run (kpcb k' p) = n"
    "code (kpcb k' p) = code (kpcb k p)"
  using ok
proof (cases rule: run_ok)
  case finished
  then show ?thesis
    using left by (simp add: left_to_run_def)
next
  case (executed stat k')
  then have "unat (pc (kpcb k p) + 1) = Suc (unat (pc (kpcb k p)))"
    using unsigned_less [where ?'a = nat, of "code_size (code (kpcb k p))"] by (simp add: word_less_nat_alt unat_word_ariths)
  with executed left show ?thesis
    using effectD(2) [OF executed(5)] effect_fields(3) [OF executed(5), of p]
    by (intro that [of stat k']) (simp_all add: left_to_run_def)
qed

lemma runs_ok:
  assumes "kernel_ok k" "p \<in> kheap k" "n \<le> left_to_run (kpcb k p)"
  shows "\<exists>k'. runs n k p = Inr k' \<and> kernel_ok k' \<and> p \<in> kheap k' \<and>
    left_to_run (kpcb k' p) = left_to_run (kpcb k p) - n \<and> code (kpcb k' p) = code (kpcb k p)"
  using assms
proof (induction n arbitrary: k)
  case (Suc n)
  then obtain m where m: "left_to_run (kpcb k p) = Suc m" "n \<le> m"
    by (cases "left_to_run (kpcb k p)") auto
  show ?case
    by (rule run_progress [OF Suc.prems(1,2) m(1)]) (use Suc.IH m in fastforce)
qed simp

lemma left_zero:
  "kernel_ok k \<Longrightarrow> p \<in> kheap k \<Longrightarrow> left_to_run (kpcb k p) = 0 \<longleftrightarrow> pc (kpcb k p) = code_size (code (kpcb k p))"
  using kernel_okD(6) [of k p] by (auto simp: left_to_run_def proc_ok_def code_ok_def word_le_nat_alt word_unat_eq_iff)

lemma run_effect:
  assumes "kernel_ok k" "p \<in> kheap k" "run k p = Inr (stat, k')"
  shows "kernel_ok k'" "effect k p k'"
  using run_ok [OF assms(1,2)] effect_refl [OF assms(1,2)] assms(1,3) by (metis sum.inject(2) prod.inject)+

lemma write_run:
  assumes ok: "kernel_ok k" "p \<in> kheap k"
    and ins: "pc (kpcb k p) < code_size (code (kpcb k p))"
      "code_text (code (kpcb k p)) ! unat (pc (kpcb k p)) = \<lparr>opcode = WRITE, arg_0 = v, arg_1 = r, arg_2 = off, arg_3 = x\<rparr>"
    and run: "run k p = Inr (0, k1)"
  shows "region_mem (proc_ctx k1 p) (sint r, sint off) = Some (ucast v)"
  using ok
proof (cases rule: run_ok)
  case finished
  with ins(1) show ?thesis by simp
next
  case (executed stat k')
  let ?k0 = "set_pcb k p ((kpcb k p)\<lparr>pc := pc (kpcb k p) + 1\<rparr>)" and ?key = "(sint r, sint off)"
  have ctx: "proc_ctx ?k0 p = proc_ctx k p"
    by (rule ctx_cong) simp_all
  note V = kernel_vm_ok [OF ok]
  have "lib_call ?k0 p (\<lambda>c. libwrite c (ucast v) r off) = Inr (0, k1)"
    using executed(2,3) run ins(2) by (simp add: exec_ins_def)
  then obtain c where c: "wr_region (proc_ctx k p) ?key (ucast v) = Inr (0, c)" "k1 = put_proc_ctx ?k0 p c"
    using ok(2) by (auto simp: lib_call_def deref_def ctx libwrite_eq [OF V] rbind_Inr_iff)
  have "offset_ok ?key"
    using sint_int_range by simp
  from V this have "region_mem c ?key = Some (ucast v) \<and> env_same (proc_ctx k p) c"
    by (cases rule: wr_region_spec [where b = "ucast v"]) (use c(1) in \<open>auto simp: stores_def\<close>)
  moreover from this have "proc_ctx k1 p = c"
    unfolding c(2) ctx [symmetric] by (intro put_proc_ctx_self) simp
  ultimately show ?thesis by simp
qed

lemma read_run:
  assumes ok: "kernel_ok k" "p \<in> kheap k"
    and ins: "pc (kpcb k p) < code_size (code (kpcb k p))"
      "code_text (code (kpcb k p)) ! unat (pc (kpcb k p)) = \<lparr>opcode = READ, arg_0 = r, arg_1 = off, arg_2 = d, arg_3 = x\<rparr>"
      "d < 10"
    and byte: "region_mem (proc_ctx k p) (sint r, sint off) = Some b"
  shows "\<exists>k'. if resident (proc_ctx k p) (region_addr (proc_ctx k p) (sint r, sint off) div 256) \<or> 0 < avail (proc_ctx k p)
    then run k p = Inr (0, k') \<and> regs (kpcb k' p) ! unat d = scast b else run k p = Inr (- 1, k')"
  using ok
proof (cases rule: run_ok)
  case finished
  with ins(1) show ?thesis by simp
next
  case (executed stat k')
  let ?k0 = "set_pcb k p ((kpcb k p)\<lparr>pc := pc (kpcb k p) + 1\<rparr>)" and ?key = "(sint r, sint off)"
  have ctx: "proc_ctx ?k0 p = proc_ctx k p"
    by (rule ctx_cong) simp_all
  note V = kernel_vm_ok [OF ok] and R = libread_eq [OF kernel_vm_ok [OF ok]]
  have reg: "in_region (proc_ctx k p) ?key"
    using byte by (auto simp: region_mem_def split: if_splits)
  have map: "mapped (proc_ctx k p) (region_addr (proc_ctx k p) ?key div 256)"
    using V region_addr_range(1,2) [OF _ reg] by (auto simp: vm_ok_def map_okD(8))
  have "offset_ok ?key"
    using sint_int_range by simp
  from V this show ?thesis
  proof (cases rule: rd_region_spec)
    case (fail c)
    then have "run k p = Inr (- 1, put_proc_ctx ?k0 p c)"
      using executed(2,3) ins(2) ok(2) by (simp add: exec_ins_def lib_call_def deref_def ctx R)
    with fail(3) map show ?thesis
      by (simp add: can_fault_def)
  next
    case (byte b' c)
    let ?k1 = "put_proc_ctx ?k0 p c"
    have "b' = b"
      using byte(4) assms(6) by simp
    have len: "length (regs (kpcb k p)) = 10"
      using kernel_okD(6) [OF ok] by (simp add: proc_ok_def code_ok_def)
    have d: "unat d < 10"
      using ins(3) by (simp add: word_less_nat_alt)
    then have "k' = set_pcb ?k1 p ((kpcb ?k1 p)\<lparr>regs := (regs (kpcb k p))[unat d := scast b]\<rparr>) \<and> stat = 0"
      using executed(3) ins(2) ok(2) byte(1) len \<open>b' = b\<close> arr_set_in [of "unat d" "regs (kpcb k p)" "scast b :: u32"]
      by (simp add: exec_ins_def lib_call_def deref_def ctx R NUM_REGS_def)
    then show ?thesis
      using executed(2) len d byte(3) by (auto simp: can_fault_def)
  qed (use reg in simp)
qed

subsection \<open>Instructions that leave a byte alone\<close>

text \<open>
  The instructions that may change the byte at offset \<open>off\<close> of region \<open>r\<close>: a write to it, and an
  allocation or a release of the region.
\<close>

definition touches :: "inst_t \<Rightarrow> u32 \<Rightarrow> u32 \<Rightarrow> bool" where
  "touches ins r off \<longleftrightarrow>
     (case opcode ins of
        ALLOC \<Rightarrow> arg_1 ins = r
      | FREE \<Rightarrow> arg_0 ins = r
      | WRITE \<Rightarrow> arg_1 ins = r \<and> arg_2 ins = off
      | _ \<Rightarrow> False)"

lemma region_mem_mono:
  assumes "symrg c' (nat (fst key)) = symrg c (nat (fst key))" and "vmem c \<subseteq>\<^sub>m vmem c'" and "region_mem c key = Some b"
  shows "region_mem c' key = Some b"
  using assms by (auto simp: region_mem_def in_region_def region_addr_def map_le_def dom_def split: if_splits)

lemma liballoc_keeps_byte:
  assumes ok: "vm_ok R S c" and fit: "fits c (sint sz) \<or> sint sz \<le> 0" and run: "liballoc c sz i = Inr (rc, c')"
    and r: "i \<noteq> r" and b: "region_mem c (sint r, x) = Some b"
  shows "region_mem c' (sint r, x) = Some b"
proof (cases "0 \<le> sint i \<and> sint i < 30 \<and> 0 < sint sz")
  case True
  then have i: "0 \<le> sint i" "sint i < 30" "0 < sint sz" "sint sz \<le> 2147483647" "fits c (sint sz)"
    using fit sint_int_range(2) [of sz] by (auto simp: INT_MAX_def)
  have "0 \<le> sint r" "sint i \<noteq> sint r"
    using b r by (auto simp: region_mem_def in_region_def signed_word_eqI split: if_splits)
  then have ne: "nat (sint i) \<noteq> nat (sint r)"
    using i(1) by (simp add: nat_eq_iff)
  from ok i show ?thesis
  proof (cases rule: u_alloc_spec)
    case (alloc n c1)
    then have "c1 = c'"
      using run by (simp add: liballoc_eq [OF ok fit])
    with alloc(4,5) ne show ?thesis
      by (intro region_mem_mono [OF _ _ b]) (simp_all add: extends_def)
  next
    case (fail c1)
    then have "c1 = c'"
      using run by (simp add: liballoc_eq [OF ok fit])
    with vm_ok_keeps(2) [OF ok _ fail(4)] fail(3) b show ?thesis
      by (simp add: vm_ok_def)
  qed
next
  case False
  then have "u_alloc c 0 (sint i) (sint sz) = Inr (- 1, None, c)"
    by (auto simp: u_alloc_def PAGING_MAX_SYMTBL_SZ_def)
  then show ?thesis
    using run b by (simp add: liballoc_eq [OF ok fit])
qed

lemma libfree_keeps_byte:
  assumes ok: "vm_ok R S c" and run: "libfree c i = Inr (rc, c')" and r: "i \<noteq> r" and b: "region_mem c (sint r, x) = Some b"
  shows "region_mem c' (sint r, x) = Some b"
proof (cases "0 \<le> sint i \<and> sint i < 30 \<and> symrg c (nat (sint i)) \<noteq> null_rg")
  case True
  have "0 \<le> sint r" "sint i \<noteq> sint r"
    using b r by (auto simp: region_mem_def in_region_def signed_word_eqI split: if_splits)
  then have ne: "nat (sint i) \<noteq> nat (sint r)"
    using True by (simp add: nat_eq_iff)
  obtain c1 where "u_free c 0 (sint i) = Inr (0, c1)" "vmem c1 = vmem c" "symrgtbl (mm c1) = (symrgtbl (mm c))[nat (sint i) := null_rg]"
    by (rule u_free_spec [OF ok, of "sint i"]) (use True in simp_all)
  with run ne show ?thesis
    by (intro region_mem_mono [OF _ _ b]) (simp_all add: libfree_eq [OF ok])
next
  case False
  have "map_ok c"
    using ok by (simp add: vm_ok_def)
  with False have "u_free c 0 (sint i) = Inr (- 1, c)"
    using u_free_null [of c "sint i"] by (auto simp: u_free_def PAGING_MAX_SYMTBL_SZ_def)
  with run b show ?thesis
    by (simp add: libfree_eq [OF ok])
qed

lemma libread_keeps_byte:
  assumes ok: "vm_ok R S c" and run: "libread c i off = Inr (rc, v, c')"
  shows "region_mem c' = region_mem c"
proof -
  have "offset_ok (sint i, sint off)"
    using sint_int_range by simp
  from ok this show ?thesis
    by (cases rule: rd_region_spec) (use run in \<open>auto simp: libread_eq [OF ok]\<close>)
qed

lemma libwrite_keeps_byte:
  assumes ok: "vm_ok R S c" and run: "libwrite c v i off = Inr (rc, c')" and k: "(sint i, sint off) \<noteq> key"
  shows "region_mem c' key = region_mem c key"
proof -
  have "offset_ok (sint i, sint off)"
    using sint_int_range by simp
  from ok this show ?thesis
    by (cases rule: wr_region_spec [where b = v]) (use run k in \<open>auto simp: libwrite_eq [OF ok]\<close>)
qed

lemma lib_call_ctx:
  assumes "p \<in> kheap k" and "lib_call k p f = Inr (r, k')" and "f (proc_ctx k p) = Inr (r1, c1)" and "confined R S (proc_ctx k p) c1"
  shows "r = r1" "proc_ctx k' p = c1"
  using assms put_proc_ctx_self [of k p c1] by (auto simp: lib_call_def deref_def confined_def)

lemma exec_ins_keeps_byte:
  assumes ok: "kernel_ok k" and p: "p \<in> kheap k" and ins: "ins_ok ins"
    and lim: "limit (proc_ctx k p) + demand ins + demand_left (kpcb k p) \<le> 4194304"
    and run: "exec_ins k p ins = Inr (stat, k')" and nt: "\<not> touches ins r off"
    and b: "region_mem (proc_ctx k p) (sint r, sint off) = Some b"
  shows "region_mem (proc_ctx k' p) (sint r, sint off) = Some b"
proof -
  let ?c = "proc_ctx k p"
  note V = kernel_vm_ok [OF ok p]
  show ?thesis
  proof (cases "opcode ins")
    case CALC
    with run b show ?thesis by (simp add: exec_ins_def)
  next
    case ALLOC
    have "0 \<le> demand_left (kpcb k p)"
      unfolding demand_left_def by (rule sum_list_nonneg) (auto simp: demand_def)
    then have fit: "fits ?c (sint (arg_0 ins)) \<or> sint (arg_0 ins) \<le> 0"
      using lim ALLOC by (auto simp: demand_def fits_def)
    obtain rc c where c: "liballoc ?c (arg_0 ins) (arg_1 ins) = Inr (rc, c)" "confined (foreign_ram k p) (foreign_swp k p) ?c c"
      using liballoc_ok [OF V fit] by blast
    have "proc_ctx k' p = c"
      by (rule lib_call_ctx(2) [OF p, of "\<lambda>c. liballoc c (arg_0 ins) (arg_1 ins)", OF _ c]) (use run ALLOC in \<open>simp add: exec_ins_def\<close>)
    with liballoc_keeps_byte [OF V fit c(1) _ b] nt ALLOC show ?thesis
      by (simp add: touches_def)
  next
    case FREE
    obtain rc c where c: "libfree ?c (arg_0 ins) = Inr (rc, c)" "confined (foreign_ram k p) (foreign_swp k p) ?c c"
      using libfree_ok [OF V] by blast
    have "proc_ctx k' p = c"
      by (rule lib_call_ctx(2) [OF p, of "\<lambda>c. libfree c (arg_0 ins)", OF _ c]) (use run FREE in \<open>simp add: exec_ins_def\<close>)
    with libfree_keeps_byte [OF V c(1) _ b] nt FREE show ?thesis
      by (simp add: touches_def)
  next
    case WRITE
    obtain rc c where c: "libwrite ?c (ucast (arg_0 ins)) (arg_1 ins) (arg_2 ins) = Inr (rc, c)"
        "confined (foreign_ram k p) (foreign_swp k p) ?c c"
      using libwrite_ok [OF V] by blast
    have k: "proc_ctx k' p = c"
      by (rule lib_call_ctx(2) [OF p, of "\<lambda>c. libwrite c (ucast (arg_0 ins)) (arg_1 ins) (arg_2 ins)", OF _ c]) (use run WRITE in \<open>simp add: exec_ins_def\<close>)
    have "(sint (arg_1 ins), sint (arg_2 ins)) \<noteq> (sint r, sint off)"
      using nt WRITE by (auto simp: touches_def dest: signed_word_eqI)
    with libwrite_keeps_byte [OF V c(1)] b k show ?thesis
      by simp
  next
    case READ
    let ?f = "\<lambda>c. rbind (libread c (arg_0 ins) (arg_1 ins)) (\<lambda>(rc, v, c1). Inr ((rc, v), c1))"
    obtain rc v c where c: "libread ?c (arg_0 ins) (arg_1 ins) = Inr (rc, v, c)" "confined (foreign_ram k p) (foreign_swp k p) ?c c"
      using libread_ok [OF V] by blast
    then have f: "?f ?c = Inr ((rc, v), c)"
      by simp
    then have "lib_call k p ?f = Inr ((rc, v), put_proc_ctx k p c)"
      using p by (simp add: lib_call_def deref_def)
    then have "kram k' = kram (put_proc_ctx k p c) \<and> kswaps k' = kswaps (put_proc_ctx k p c) \<and>
        pmm (kpcb k' p) = pmm (kpcb (put_proc_ctx k p c) p)"
      using run READ by (auto simp: exec_ins_def rbind_Inr_iff split: if_splits)
    then have "proc_ctx k' p = proc_ctx (put_proc_ctx k p c) p"
      by (intro ctx_cong) simp_all
    also have "\<dots> = c"
      using c(2) by (intro put_proc_ctx_self) (simp add: confined_def)
    finally show ?thesis
      using libread_keeps_byte [OF V c(1)] b by simp
  next
    case SYSCALL
    then have n17: "arg_0 ins \<noteq> 17"
      using ins by (simp add: ins_ok_def)
    show ?thesis
    proof (cases "arg_0 ins = 101")
      case True
      then have kill: "sys_killall k p \<lparr>a1 = arg_1 ins, a2 = arg_2 ins, a3 = arg_3 ins\<rparr> = Inr (stat, k')"
        using run SYSCALL by (simp add: exec_ins_def libsyscall_def syscall_def)
      have "region_mem (proc_ctx k' p) = region_mem ?c"
        by (rule sys_killall_spec [OF ok p, of "\<lparr>a1 = arg_1 ins, a2 = arg_2 ins, a3 = arg_3 ins\<rparr>"])
          (use kill in \<open>auto intro!: region_mem_cong(3)\<close>)
      with b show ?thesis by simp
    next
      case False
      with n17 SYSCALL run b show ?thesis
        by (auto simp: exec_ins_def libsyscall_def syscall_def split: if_splits)
    qed
  qed
qed

lemma run_keeps_byte:
  assumes ok: "kernel_ok k" and p: "p \<in> kheap k" and run: "run k p = Inr (stat, k')"
    and nt: "pc (kpcb k p) < code_size (code (kpcb k p)) \<longrightarrow> \<not> touches (code_text (code (kpcb k p)) ! unat (pc (kpcb k p))) r off"
    and b: "region_mem (proc_ctx k p) (sint r, sint off) = Some b"
  shows "region_mem (proc_ctx k' p) (sint r, sint off) = Some b"
  using ok p
proof (cases rule: run_ok)
  case finished
  with run b show ?thesis by simp
next
  case (executed stat1 k1)
  let ?k0 = "set_pcb k p ((kpcb k p)\<lparr>pc := pc (kpcb k p) + 1\<rparr>)" and ?ins = "code_text (code (kpcb k p)) ! unat (pc (kpcb k p))"
  note K = first_ins_ok [OF ok p executed(1)]
  have ctx: "proc_ctx ?k0 p = proc_ctx k p"
    by (rule ctx_cong) simp_all
  from executed(2,3) run have "exec_ins ?k0 p ?ins = Inr (stat, k')"
    by simp
  moreover have "\<not> touches ?ins r off" "region_mem (proc_ctx ?k0 p) (sint r, sint off) = Some b" "p \<in> kheap ?k0"
    using nt executed(1) b p by (simp_all add: ctx)
  ultimately show ?thesis
    using exec_ins_keeps_byte [OF K(1) _ K(3,4)] by blast
qed

subsection \<open>Properties\<close>

text \<open>
  C10. One instruction, whatever it is and whatever it returns, is defined in a consistent kernel and
  leaves it consistent: no signed overflow, no access outside an array, no use of a released process,
  no frame with two owners. The program counter moves by exactly one and never leaves the code. The
  only processes the instruction can end are others that wait in a queue, and no byte, register or
  program counter of any other process changes. The programs are those \<open>proc_ok\<close> admits: no direct
  use of system call 17 and allocations of at most 4 MB altogether.
\<close>

theorem instruction_safe:
  assumes "kernel_ok k" and "p \<in> kheap k"
  shows "\<exists>stat k'. run k p = Inr (stat, k') \<and> kernel_ok k' \<and> p \<in> kheap k' \<and>
    pc (kpcb k' p) = (if pc (kpcb k p) < code_size (code (kpcb k p)) then pc (kpcb k p) + 1 else pc (kpcb k p)) \<and>
    kheap k' \<subseteq> kheap k \<and> (\<forall>q \<in> kheap k - kheap k'. q \<noteq> p \<and> queued (ksched k) q) \<and>
    (\<forall>q \<in> kheap k'. q \<noteq> p \<longrightarrow> vmem (proc_ctx k' q) = vmem (proc_ctx k q) \<and>
       pc (kpcb k' q) = pc (kpcb k q) \<and> regs (kpcb k' q) = regs (kpcb k q) \<and> code (kpcb k' q) = code (kpcb k q))"
  using assms
proof (cases rule: run_ok)
  case finished
  with assms show ?thesis by auto
next
  case (executed stat k')
  note E = executed(5)
  show ?thesis
    using executed effectD(1,2,3,8) [OF E] effect_fields(3,5,6) [OF E] by auto
qed

lemma kern_pcb3: "kpcb kern 3 = pcb3" "pc pcb3 = 0" "code_size (code pcb3) = 5"
    "code_text (code pcb3) ! 0 = \<lparr>opcode = WRITE, arg_0 = 200, arg_1 = 0, arg_2 = 5, arg_3 = 0\<rparr>"
    "code_text (code pcb3) ! Suc 0 = \<lparr>opcode = WRITE, arg_0 = 7, arg_1 = 0, arg_2 = 6, arg_3 = 0\<rparr>"
    "code_text (code pcb3) ! 2 = \<lparr>opcode = READ, arg_0 = 0, arg_1 = 5, arg_2 = 2, arg_3 = 0\<rparr>"
  by (simp_all add: kern_def pcb3_def pcb0_def)

theorem instruction_safe_witness:
  "\<exists>stat k'. run kern 3 = Inr (stat, k') \<and> kernel_ok k' \<and> pc (kpcb k' 3) = 1 \<and> 3 \<in> kheap k'"
  using instruction_safe [OF kern_ok, of 3] by (auto simp: kern_lists kern_pcb3)

text \<open>
  C11. Every program ends. A process with \<open>n\<close> instructions left has, after \<open>n\<close> calls of \<open>run\<close>, its
  program counter at the end of the code, and not before; from then on \<open>run\<close> returns 1 and changes
  nothing. No instruction can make the program longer, whatever it returns.
\<close>

theorem program_ends:
  assumes "kernel_ok k" and "p \<in> kheap k"
  shows "\<exists>k'. runs (left_to_run (kpcb k p)) k p = Inr k' \<and> kernel_ok k' \<and>
    pc (kpcb k' p) = code_size (code (kpcb k' p)) \<and> run k' p = Inr (1, k') \<and>
    (\<forall>m < left_to_run (kpcb k p). \<exists>k1. runs m k p = Inr k1 \<and> pc (kpcb k1 p) < code_size (code (kpcb k1 p)))"
proof -
  obtain k' where k': "runs (left_to_run (kpcb k p)) k p = Inr k'" "kernel_ok k'" "p \<in> kheap k'"
      "left_to_run (kpcb k' p) = 0"
    using runs_ok [OF assms order_refl] by auto
  then have e: "pc (kpcb k' p) = code_size (code (kpcb k' p))"
    using left_zero by blast
  have "run k' p = Inr (1, k')"
    using k'(2,3) by (cases rule: run_ok) (simp_all add: e)
  moreover have "\<exists>k1. runs m k p = Inr k1 \<and> pc (kpcb k1 p) < code_size (code (kpcb k1 p))"
    if m: "m < left_to_run (kpcb k p)" for m
  proof -
    obtain k1 where k1: "runs m k p = Inr k1" "kernel_ok k1" "p \<in> kheap k1" "left_to_run (kpcb k1 p) \<noteq> 0"
      using runs_ok [OF assms less_imp_le [OF m]] m by auto
    then have "pc (kpcb k1 p) \<noteq> code_size (code (kpcb k1 p))" "pc (kpcb k1 p) \<le> code_size (code (kpcb k1 p))"
      using left_zero kernel_okD(6) [OF k1(2,3)] by (auto simp: proc_ok_def code_ok_def)
    with k1(1) show ?thesis by auto
  qed
  ultimately show ?thesis
    using k' e by blast
qed

theorem program_ends_witness:
  "\<exists>k'. runs 5 kern 3 = Inr k' \<and> pc (kpcb k' 3) = code_size (code (kpcb k' 3)) \<and> run k' 3 = Inr (1, k')"
proof -
  have "left_to_run (kpcb kern 3) = 5"
    by (simp add: left_to_run_def kern_pcb3)
  then show ?thesis
    using program_ends [OF kern_ok, of 3] by (auto simp: kern_lists)
qed

text \<open>
  C38. System call 17 is not protected: a process that calls it directly with operation 5 writes to any
  byte of RAM, also when the frame belongs to another process, and the call returns 0. This is why the
  properties above ask for programs that do not use it.
\<close>

theorem syscall_17_unprotected:
  assumes "kernel_ok k" and "p \<in> kheap k" and "q \<in> kheap k" and "q \<noteq> p"
    and "resident (proc_ctx k q) pg" and "0 \<le> i" and "i < 256"
  shows "\<exists>k'. exec_ins k p \<lparr>opcode = SYSCALL, arg_0 = 17, arg_1 = 5,
      arg_2 = word_of_int (fpn_of (proc_ctx k q) pg * 256 + i), arg_3 = scast (b :: byte)\<rparr> = Inr (0, k') \<and>
    vmem (proc_ctx k' q) (pg * 256 + i) = Some b"
proof -
  let ?x = "fpn_of (proc_ctx k q) pg * 256 + i" and ?c = "proc_ctx k p"
  have pk: "paging_ok (foreign_ram k q) (foreign_swp k q) (proc_ctx k q)"
    using kernel_vm_ok [OF assms(1,3)] by (simp add: vm_ok_def)
  have x: "0 \<le> ?x" "?x < maxsz (mram ?c)" "?x \<le> 2147483647"
    using phyaddr_of_eq(2-4) [OF pk assms(5-7)] by simp_all
  let ?c' = "ram_cells ?c ?x ((storage (mram ?c))(?x := b))"
  let ?k' = "put_proc_ctx k p ?c'"
  have run: "exec_ins k p \<lparr>opcode = SYSCALL, arg_0 = 17, arg_1 = 5, arg_2 = word_of_int ?x, arg_3 = scast b\<rparr> = Inr (0, ?k')"
    using sys_memmap_write [OF x, of b] assms(2)
    by (simp add: exec_ins_def libsyscall_def syscall_def lib_call_def deref_def SYSMEM_IO_WRITE_def)
  have q: "proc_ctx ?k' q = ram_cells (proc_ctx k q) ?x ((storage (mram (proc_ctx k q)))(?x := b))"
    using assms(4) by (simp add: proc_ctx_def)
  have "vmem (proc_ctx ?k' q) (pg * 256 + i) = Some b"
    unfolding q using ram_cells_stores [OF pk, of "pg * 256 + i" b] assms(5-7) by (simp add: stores_def)
  with run show ?thesis by blast
qed

theorem syscall_17_unprotected_witness:
  "\<exists>k'. exec_ins kern 7 \<lparr>opcode = SYSCALL, arg_0 = 17, arg_1 = 5,
      arg_2 = word_of_int (fpn_of m2 0 * 256 + 1), arg_3 = scast (99 :: byte)\<rparr> = Inr (0, k') \<and>
    vmem (proc_ctx k' 3) 1 = Some 99 \<and> vmem (proc_ctx kern 3) 1 = Some 48"
proof -
  have "resident m2 0" "vmem m2 1 = Some 48"
    by code_simp+
  then show ?thesis
    using syscall_17_unprotected [OF kern_ok, of 7 3 0 1 99] by (simp add: kern_lists kern_ctx)
qed

end
