(* ===== verification/Loader.thy ===== *)
theory Loader
  imports Common
begin

text \<open>
  The loader \<open>src/loader.c\<close>: it reads a program description and builds the process control block.

  The file system is the argument \<open>fs\<close>: the contents of the files that can be opened. \<open>exit(1)\<close> is
  the result \<open>None\<close>. The instructions are stored in an array \<open>malloc\<close> returned, and a conversion of
  \<open>fscanf\<close> that fails leaves its target alone, so the contents of the fresh array are an argument
  too: \<open>junk i\<close> is what cell \<open>i\<close> held before.

  Of \<open>scanf\<close> the loader uses \<open>%u\<close>, \<open>%s\<close> with a width and white space. The files are text without NUL
  characters. A number is an
  optional sign and decimal digits; it is converted as \<open>strtoul\<close> does, which saturates at
  \<open>2 ^ 64 - 1\<close> and negates modulo \<open>2 ^ 64\<close>, and then cut to the type of the target. A function that
  scans returns what it read and the rest of the input; after a failed conversion that is what the
  library leaves unread.
\<close>

subsection \<open>Scanning\<close>

definition isspace :: "char \<Rightarrow> bool" where
  "isspace c \<longleftrightarrow> (let n = of_char c :: nat in n = 32 \<or> 9 \<le> n \<and> n \<le> 13)"

definition isdigit :: "char \<Rightarrow> bool" where
  "isdigit c \<longleftrightarrow> (let n = of_char c :: nat in 48 \<le> n \<and> n \<le> 57)"

definition skip_ws :: "string \<Rightarrow> string" where
  "skip_ws s = dropWhile isspace s"

definition dec_val :: "string \<Rightarrow> int" where
  "dec_val ds = foldl (\<lambda>a c. a * 10 + (of_char c - 48)) 0 ds"

text \<open>\<open>strtoul\<close> on a sign and digits; the result is an \<open>unsigned long\<close>.\<close>

definition strtoul :: "bool \<Rightarrow> string \<Rightarrow> int" where
  "strtoul neg ds =
     (let v = dec_val ds in
      if v \<ge> 2 ^ 64 then 2 ^ 64 - 1 else if neg then ul (- v) else v)"

text \<open>A conversion to a number; \<open>conv\<close> is the function that converts the sign and the digits.\<close>

definition scan_num :: "(bool \<Rightarrow> string \<Rightarrow> int) \<Rightarrow> string \<Rightarrow> int option \<times> string" where
  "scan_num conv s =
     (let s1 = skip_ws s;
          neg = (s1 \<noteq> [] \<and> hd s1 = CHR ''-'');
          s2 = (if s1 \<noteq> [] \<and> (hd s1 = CHR ''-'' \<or> hd s1 = CHR ''+'') then tl s1 else s1);
          ds = takeWhile isdigit s2
      in if ds = [] then (None, s2) else (Some (conv neg ds), dropWhile isdigit s2))"

text \<open>\<open>k\<close> conversions in a row, up to the first that fails.\<close>

primrec scan_nums :: "(bool \<Rightarrow> string \<Rightarrow> int) \<Rightarrow> nat \<Rightarrow> string \<Rightarrow> int list \<times> string" where
  "scan_nums conv 0 s = ([], s)"
| "scan_nums conv (Suc k) s =
     (case scan_num conv s of
        (None, s1) \<Rightarrow> ([], s1)
      | (Some v, s1) \<Rightarrow> (let (vs, s2) = scan_nums conv k s1 in (v # vs, s2)))"

abbreviation scan_ul :: "string \<Rightarrow> int option \<times> string" where
  "scan_ul \<equiv> scan_num strtoul"

abbreviation scan_uls :: "nat \<Rightarrow> string \<Rightarrow> int list \<times> string" where
  "scan_uls \<equiv> scan_nums strtoul"

text \<open>\<open>%<width>s\<close>\<close>

definition scan_word :: "nat \<Rightarrow> string \<Rightarrow> string option \<times> string" where
  "scan_word width s =
     (let s1 = skip_ws s; w = take width (takeWhile (\<lambda>c. \<not> isspace c) s1)
      in if w = [] then (None, s1) else (Some w, drop (length w) s1))"

text \<open>\<open>fgets\<close> with a buffer of \<open>n + 1\<close> characters; \<open>None\<close> at the end of the file.\<close>

definition fgets :: "nat \<Rightarrow> string \<Rightarrow> string option \<times> string" where
  "fgets n s =
     (if s = [] then (None, s)
      else
        let l = takeWhile (\<lambda>c. c \<noteq> CHR 0x0A) s;
            line = take n (if length l < length s then l @ [CHR 0x0A] else l)
        in (Some line, drop (length line) s))"

subsection \<open>The loader\<close>

definition get_opcode :: "string \<Rightarrow> ins_opcode_t option" where
  "get_opcode opt =
     (if opt = ''calc'' then Some CALC
      else if opt = ''alloc'' then Some ALLOC
      else if opt = ''free'' then Some FREE
      else if opt = ''read'' then Some READ
      else if opt = ''write'' then Some WRITE
      else if opt = ''syscall'' then Some SYSCALL
      else None)"

text \<open>The stores of the conversions that succeeded, in the order of the format.\<close>

definition store_args :: "int list \<Rightarrow> inst_t \<Rightarrow> inst_t" where
  "store_args vs ins =
     ins\<lparr>arg_0 := (if 0 < length vs then word_of_int (vs ! 0) else arg_0 ins),
         arg_1 := (if 1 < length vs then word_of_int (vs ! 1) else arg_1 ins),
         arg_2 := (if 2 < length vs then word_of_int (vs ! 2) else arg_2 ins),
         arg_3 := (if 3 < length vs then word_of_int (vs ! 3) else arg_3 ins)\<rparr>"

text \<open>A format of \<open>k\<close> numbers and a final white space, which is skipped when all of them matched.\<close>

definition scan_args :: "nat \<Rightarrow> inst_t \<Rightarrow> string \<Rightarrow> inst_t \<times> string" where
  "scan_args k ins s =
     (let (vs, s1) = scan_uls k s in (store_args vs ins, if length vs = k then skip_ws s1 else s1))"

definition read_args :: "ins_opcode_t \<Rightarrow> inst_t \<Rightarrow> string \<Rightarrow> inst_t \<times> string" where
  "read_args op cell s =
     (let ins = cell\<lparr>opcode := op\<rparr> in
      case op of
        CALC \<Rightarrow> (ins, s)
      | ALLOC \<Rightarrow> scan_args 2 ins s
      | FREE \<Rightarrow> scan_args 1 ins s
      | READ \<Rightarrow> scan_args 3 ins s
      | WRITE \<Rightarrow> scan_args 3 ins s
      | SYSCALL \<Rightarrow>
          let ins0 = ins\<lparr>arg_1 := 0, arg_2 := 0, arg_3 := 0\<rparr>;
              (line, s1) = fgets 199 s;
              buf = (case line of None \<Rightarrow> [] | Some l \<Rightarrow> l)
          in (store_args (fst (scan_uls 4 buf)) ins0, s1))"

fun load_loop :: "(nat \<Rightarrow> inst_t) \<Rightarrow> nat \<Rightarrow> nat \<Rightarrow> string \<Rightarrow> inst_t list option" where
  "load_loop junk i 0 s = Some []"
| "load_loop junk i (Suc n) s =
     (case scan_word 9 s of
        (None, _) \<Rightarrow> None
      | (Some opt, s1) \<Rightarrow>
          (case get_opcode opt of
             None \<Rightarrow> None
           | Some op \<Rightarrow>
               let (ins, s2) = read_args op (junk i) s1
               in map_option (\<lambda>rest. ins # rest) (load_loop junk (Suc i) n s2)))"

definition PAGE_SIZE :: u32 where
  "PAGE_SIZE = 1024"

text \<open>
  The result is the new block and the next process identifier. \<open>calloc\<close> clears the block; its memory
  map is installed by \<open>ld_routine\<close> before the scheduler sees the process.
\<close>

definition load :: "(string \<Rightarrow> string option) \<Rightarrow> u32 \<Rightarrow> (nat \<Rightarrow> inst_t) \<Rightarrow> string \<Rightarrow> (pcb_t \<times> u32) option" where
  "load fs avail_pid junk fpath =
     (case fs fpath of
        None \<Rightarrow> None
      | Some contents \<Rightarrow>
          let (hdr, s) = scan_uls 2 contents in
          if length hdr \<noteq> 2 then None
          else
            let prio0 = word_of_int (hdr ! 0); csize = word_of_int (hdr ! 1) :: u32 in
            map_option
              (\<lambda>txt. (\<lparr>pid = avail_pid, priority = prio0, path = take 99 fpath,
                  code = \<lparr>code_text = txt, code_size = csize\<rparr>, regs = replicate 10 0, pc = 0, prio = 0,
                  pmm = init_mm, bp = PAGE_SIZE, killed = 0\<rparr>, avail_pid + 1))
              (load_loop junk 0 (unat csize) s))"

subsection \<open>Printing\<close>

text \<open>The text of a program, one instruction per line.\<close>

fun show_nat :: "nat \<Rightarrow> string" where
  "show_nat n = (if n < 10 then [char_of (48 + n)] else show_nat (n div 10) @ [char_of (48 + n mod 10)])"

declare show_nat.simps [simp del]

definition show_u :: "u32 \<Rightarrow> string" where
  "show_u w = CHR '' '' # show_nat (unat w)"

definition opname :: "ins_opcode_t \<Rightarrow> string" where
  "opname op =
     (case op of CALC \<Rightarrow> ''calc'' | ALLOC \<Rightarrow> ''alloc'' | FREE \<Rightarrow> ''free'' | READ \<Rightarrow> ''read''
      | WRITE \<Rightarrow> ''write'' | SYSCALL \<Rightarrow> ''syscall'')"

definition num_args :: "ins_opcode_t \<Rightarrow> nat" where
  "num_args op = (case op of CALC \<Rightarrow> 0 | ALLOC \<Rightarrow> 2 | FREE \<Rightarrow> 1 | READ \<Rightarrow> 3 | WRITE \<Rightarrow> 3 | SYSCALL \<Rightarrow> 4)"

definition args_of :: "inst_t \<Rightarrow> u32 list" where
  "args_of ins = take (num_args (opcode ins)) [arg_0 ins, arg_1 ins, arg_2 ins, arg_3 ins]"

definition show_ins :: "inst_t \<Rightarrow> string" where
  "show_ins ins = opname (opcode ins) @ concat (map show_u (args_of ins)) @ [CHR 0x0A]"

definition show_prog :: "u32 \<Rightarrow> inst_t list \<Rightarrow> string" where
  "show_prog pr prog =
     show_nat (unat pr) @ show_u (of_nat (length prog)) @ [CHR 0x0A] @ concat (map show_ins prog)"

subsection \<open>Scanning what was printed\<close>

lemma of_char_digit: "d < 10 \<Longrightarrow> of_char (char_of (48 + d :: nat) :: char) = (48 + d :: nat)"
  by (simp add: of_char_of)

lemma of_char_digit_int: "d < 10 \<Longrightarrow> of_char (char_of (48 + d :: nat) :: char) = (48 + int d :: int)"
  using of_char_digit [of d] by (metis of_char_digit of_nat_add of_nat_numeral of_nat_of_char)

lemma isdigit_char: "d < 10 \<Longrightarrow> isdigit (char_of (48 + d :: nat))"
  by (simp add: isdigit_def Let_def of_char_digit)

lemma show_nat_digits: "list_all isdigit (show_nat n)"
proof (induction n rule: show_nat.induct)
  case (1 n)
  then show ?case
    using isdigit_char by (subst show_nat.simps) (simp add: isdigit_char)
qed

lemma show_nat_nonempty: "show_nat n \<noteq> []"
  by (subst show_nat.simps) simp

lemma dec_val_show: "dec_val (show_nat n) = int n"
proof (induction n rule: show_nat.induct)
  case (1 n)
  show ?case
  proof (cases "n < 10")
    case True
    then show ?thesis
      by (subst show_nat.simps) (simp add: dec_val_def of_char_digit_int)
  next
    case False
    then have "dec_val (show_nat n) = int (n div 10) * 10 + int (n mod 10)"
      using 1 by (subst show_nat.simps) (simp add: dec_val_def of_char_digit_int)
    also have "\<dots> = int n"
      by presburger
    finally show ?thesis .
  qed
qed

lemma length_show_nat: "n < 10 ^ Suc k \<Longrightarrow> length (show_nat n) \<le> Suc k"
proof (induction k arbitrary: n)
  case 0
  then show ?case by (subst show_nat.simps) simp
next
  case (Suc k)
  have "n div 10 < 10 ^ Suc k"
    using Suc.prems by (simp add: div_less_iff_less_mult mult.commute)
  with Suc.IH [of "n div 10"] show ?case
    by (subst show_nat.simps) simp
qed

definition ends_number :: "string \<Rightarrow> bool" where
  "ends_number s \<longleftrightarrow> s = [] \<or> \<not> isdigit (hd s)"

lemma take_digits:
  assumes "list_all isdigit ds" and "ends_number s"
  shows "takeWhile isdigit (ds @ s) = ds" "dropWhile isdigit (ds @ s) = s"
  using assms by (cases s; auto simp: list_all_iff ends_number_def takeWhile_append2 dropWhile_append2)+

lemma ends_number_list: "ends_number s \<Longrightarrow> ends_number (concat (map (\<lambda>n. CHR '' '' # show_nat n) ns) @ s)"
  by (cases ns) (auto simp: ends_number_def isdigit_def)

lemma digit_not_space: "isdigit c \<Longrightarrow> \<not> isspace c \<and> c \<noteq> CHR ''-'' \<and> c \<noteq> CHR ''+''"
  by (auto simp: isdigit_def isspace_def Let_def)

lemma scan_num_show:
  assumes "list_all isspace ws" and "ends_number s"
  shows "scan_num conv (ws @ show_nat n @ s) = (Some (conv False (show_nat n)), s)"
proof -
  obtain c cs where c: "show_nat n = c # cs" "isdigit c"
    using show_nat_nonempty [of n] show_nat_digits [of n] by (cases "show_nat n") auto
  have "skip_ws (ws @ show_nat n @ s) = show_nat n @ s"
    using assms(1) digit_not_space [OF c(2)] by (simp add: skip_ws_def c(1) dropWhile_append2 list_all_iff)
  then show ?thesis
    using take_digits [OF show_nat_digits assms(2), of n] digit_not_space [OF c(2)]
    by (simp add: scan_num_def Let_def c(1))
qed

text \<open>
  A conversion that reads back the numbers below \<open>bound\<close>: then a printed list of such numbers is read
  back as well.
\<close>

locale number_format =
  fixes conv :: "bool \<Rightarrow> string \<Rightarrow> int" and bound :: nat
  assumes conv_show: "n < bound \<Longrightarrow> conv False (show_nat n) = int n"
begin

lemma scan_back:
  "list_all isspace ws \<Longrightarrow> ends_number s \<Longrightarrow> n < bound \<Longrightarrow> scan_num conv (ws @ show_nat n @ s) = (Some (int n), s)"
  using scan_num_show [of ws s conv n] by (simp add: conv_show)

lemma scan_list_back:
  "ends_number s \<Longrightarrow> \<forall>n \<in> set ns. n < bound \<Longrightarrow>
    scan_nums conv (length ns) (concat (map (\<lambda>n. CHR '' '' # show_nat n) ns) @ s) = (map int ns, s)"
proof (induction ns)
  case (Cons n ns)
  then show ?case
    using scan_back [of "[CHR '' '']" "concat (map (\<lambda>n. CHR '' '' # show_nat n) ns) @ s" n]
    by (simp add: isspace_def ends_number_list)
qed simp

end

interpretation ul: number_format strtoul "2 ^ 64"
  by unfold_locales (simp add: strtoul_def dec_val_show)

lemma scan_uls_us:
  assumes "ends_number s"
  shows "scan_uls (length ws) (concat (map show_u ws) @ s) = (map uint ws, s)"
proof -
  have "unat w < 2 ^ 64" for w :: u32
    using unsigned_less [where ?'a = nat, of w] by simp
  then show ?thesis
    using ul.scan_list_back [OF assms, of "map unat ws"] by (simp add: comp_def show_u_def [abs_def])
qed

lemma scan_ul_u: "ends_number s \<Longrightarrow> scan_ul (show_u w @ s) = (Some (uint w), s)"
  using ul.scan_back [of "[CHR '' '']" s "unat w"] unsigned_less [where ?'a = nat, of w] by (simp add: show_u_def isspace_def)

lemma ends_newline: "ends_number (CHR 0x0A # s)"
  by (simp add: ends_number_def isdigit_def)

lemma skip_ws_simps [simp]:
  "skip_ws (CHR 0x0A # s) = skip_ws s" "skip_ws (skip_ws s) = skip_ws s"
  by (simp_all add: skip_ws_def isspace_def dropWhile_idem)

lemma scan_word_op: "scan_word 9 (opname op @ CHR 0x0A # s) = (Some (opname op), CHR 0x0A # s)"
    "scan_word 9 (opname op @ show_u w @ s) = (Some (opname op), show_u w @ s)"
  by (cases op; simp add: opname_def scan_word_def skip_ws_def isspace_def Let_def show_u_def)+

lemma get_opcode_iff: "get_opcode w = Some op \<longleftrightarrow> w = opname op"
  by (cases op) (auto simp: get_opcode_def opname_def)

subsection \<open>Reading back a program\<close>

text \<open>The cell of the code array after loading an instruction: arguments it does not have keep the old contents.\<close>

definition on_file :: "inst_t \<Rightarrow> inst_t \<Rightarrow> inst_t" where
  "on_file cell ins =
     \<lparr>opcode = opcode ins,
      arg_0 = (if 0 < num_args (opcode ins) then arg_0 ins else arg_0 cell),
      arg_1 = (if 1 < num_args (opcode ins) then arg_1 ins else arg_1 cell),
      arg_2 = (if 2 < num_args (opcode ins) then arg_2 ins else arg_2 cell),
      arg_3 = (if 3 < num_args (opcode ins) then arg_3 ins else arg_3 cell)\<rparr>"

lemma show_u_length: "length (show_u w) \<le> 11"
proof -
  have "unat w < 10 ^ Suc 9"
    using unsigned_less [where ?'a = nat, of w] by simp
  then show ?thesis
    using length_show_nat [of "unat w" 9] by (simp add: show_u_def)
qed

lemma no_newline: "CHR 0x0A \<notin> set (concat (map show_u ws))"
proof -
  have "CHR 0x0A \<notin> set (show_nat n)" for n
    using show_nat_digits [of n] by (auto simp: list_all_iff isdigit_def)
  then show ?thesis
    by (auto simp: show_u_def)
qed

lemma fgets_line:
  assumes "CHR 0x0A \<notin> set l" and "length l < n"
  shows "fgets n (l @ CHR 0x0A # s) = (Some (l @ [CHR 0x0A]), s)"
proof -
  have "takeWhile (\<lambda>c. c \<noteq> CHR 0x0A) (l @ CHR 0x0A # s) = l"
    using assms(1) by (induction l) auto
  with assms(2) show ?thesis
    by (simp add: fgets_def Let_def)
qed

lemma length_args: "length (args_of ins) = num_args (opcode ins)"
  by (cases "opcode ins") (simp_all add: args_of_def num_args_def)

lemma read_args_show:
  "\<exists>s2. read_args (opcode ins) cell (concat (map show_u (args_of ins)) @ CHR 0x0A # s) = (on_file cell ins, s2) \<and>
    skip_ws s2 = skip_ws s"
proof -
  note sc = scan_uls_us [of "CHR 0x0A # s" "args_of ins", OF ends_newline, unfolded length_args]
  show ?thesis
  proof (cases "opcode ins")
    case SYSCALL
    then have len: "length (args_of ins) = 4"
      by (simp add: length_args num_args_def)
    let ?l = "concat (map show_u (args_of ins))"
    have "length (concat (map show_u ws)) \<le> 11 * length ws" for ws
      by (induction ws) (use show_u_length in \<open>fastforce simp: add_le_mono\<close>)+
    from this [of "args_of ins"] have "length ?l < 199"
      using len by simp
    then have "fgets 199 (?l @ CHR 0x0A # s) = (Some (?l @ [CHR 0x0A]), s)"
      using no_newline by (intro fgets_line)
    moreover have "scan_uls 4 (?l @ [CHR 0x0A]) = (map uint (args_of ins), [CHR 0x0A])"
      using scan_uls_us [of "[CHR 0x0A]" "args_of ins", OF ends_newline] len by simp
    ultimately show ?thesis
      using SYSCALL by (simp add: read_args_def store_args_def on_file_def args_of_def num_args_def)
  qed (use sc in \<open>simp_all add: read_args_def scan_args_def store_args_def on_file_def args_of_def num_args_def\<close>)
qed

lemma load_loop_skip: "load_loop junk i n (skip_ws s) = load_loop junk i n s"
  by (cases n) (simp_all add: scan_word_def)

lemma load_loop_show:
  "load_loop junk i (length prog) (concat (map show_ins prog)) =
     Some (map (\<lambda>(j, ins). on_file (junk j) ins) (enumerate i prog))"
proof (induction prog arbitrary: i)
  case (Cons ins prog)
  let ?s = "concat (map show_ins prog)" and ?a = "concat (map show_u (args_of ins))"
  have w: "scan_word 9 (opname (opcode ins) @ ?a @ CHR 0x0A # ?s) = (Some (opname (opcode ins)), ?a @ CHR 0x0A # ?s)"
    by (cases "args_of ins") (simp_all add: scan_word_op)
  obtain s2 where s2: "read_args (opcode ins) (junk i) (?a @ CHR 0x0A # ?s) = (on_file (junk i) ins, s2)" "skip_ws s2 = skip_ws ?s"
    using read_args_show by blast
  have "load_loop junk (Suc i) (length prog) s2 = load_loop junk (Suc i) (length prog) ?s"
    by (metis load_loop_skip s2(2))
  moreover have "concat (map show_ins (ins # prog)) = opname (opcode ins) @ ?a @ CHR 0x0A # ?s"
    by (simp add: show_ins_def [of ins])
  ultimately show ?case
    using w s2(1) Cons.IH [of "Suc i"] get_opcode_iff [of "opname (opcode ins)" "opcode ins"] by simp
qed simp

lemma load_loop_length: "load_loop junk i n s = Some cs \<Longrightarrow> length cs = n"
  by (induction junk i n s arbitrary: cs rule: load_loop.induct) (auto split: prod.splits option.splits)

lemma load_header:
  assumes "length prog < 2 ^ 32"
  shows "scan_uls 2 (show_prog pr prog) = ([uint pr, int (length prog)], CHR 0x0A # concat (map show_ins prog))"
proof -
  let ?w = "of_nat (length prog) :: u32"
  have u: "uint ?w = int (length prog)"
    using assms by (simp add: unsigned_of_nat take_bit_eq_mod)
  have "ends_number (show_u ?w @ CHR 0x0A # concat (map show_ins prog))"
    by (simp add: ends_number_def show_u_def isdigit_def)
  then have "scan_ul (show_prog pr prog) = (Some (uint pr), show_u ?w @ CHR 0x0A # concat (map show_ins prog))"
    using ul.scan_back [of "[]" _ "unat pr"] unsigned_less [where ?'a = nat, of pr] by (simp add: show_prog_def)
  moreover have "scan_ul (show_u ?w @ CHR 0x0A # concat (map show_ins prog)) = (Some (uint ?w), CHR 0x0A # concat (map show_ins prog))"
    by (rule scan_ul_u [OF ends_newline])
  ultimately show ?thesis
    by (simp add: numeral_2_eq_2 u)
qed

lemma load_show:
  assumes "fs fpath = Some (show_prog pr prog)" and "length prog < 2 ^ 32"
  shows "\<exists>b. load fs avail_pid junk fpath = Some (b, avail_pid + 1) \<and> pid b = avail_pid \<and> priority b = pr \<and>
    code_text (code b) = map (\<lambda>(j, ins). on_file (junk j) ins) (enumerate 0 prog) \<and>
    code_size (code b) = of_nat (length prog) \<and> pc b = 0 \<and> killed b = 0 \<and> regs b = replicate 10 0 \<and>
    path b = take 99 fpath"
proof -
  have n: "unat (of_nat (length prog) :: u32) = length prog"
    using assms(2) by (simp add: unsigned_of_nat take_bit_eq_mod)
  have "load_loop junk 0 (length prog) (CHR 0x0A # concat (map show_ins prog)) =
      Some (map (\<lambda>(j, ins). on_file (junk j) ins) (enumerate 0 prog))"
    using load_loop_skip [of junk 0 "length prog" "CHR 0x0A # concat (map show_ins prog)"]
      load_loop_skip [of junk 0 "length prog" "concat (map show_ins prog)"] load_loop_show [of junk 0 prog] by simp
  then show ?thesis
    using assms(1) load_header [OF assms(2)] n by (simp add: load_def)
qed

subsection \<open>Properties\<close>

text \<open>
  C34. Loading a program that was printed gives it back: the process has the priority of the header, the
  instructions of the text in order, with every argument an instruction has, its program counter at
  the start, cleared registers and the next process identifier. This covers all six instructions and
  all argument values.
\<close>

theorem load_show_prog:
  assumes "fs fpath = Some (show_prog pr prog)" and "length prog < 2 ^ 32"
  shows "\<exists>b. load fs avail_pid junk fpath = Some (b, avail_pid + 1) \<and> pid b = avail_pid \<and> priority b = pr \<and>
    code_text (code b) = map (\<lambda>(j, ins). on_file (junk j) ins) (enumerate 0 prog) \<and>
    code_size (code b) = of_nat (length prog) \<and> pc b = 0 \<and> killed b = 0 \<and> regs b = replicate 10 0 \<and>
    path b = take 99 fpath"
  using assms by (rule load_show)

theorem load_show_prog_witness:
  "\<exists>b. load (\<lambda>p. if p = ''input/proc/p0'' then Some (show_prog 1 [\<lparr>opcode = ALLOC, arg_0 = 300, arg_1 = 0, arg_2 = 9, arg_3 = 9\<rparr>]) else None)
      1 (\<lambda>_. \<lparr>opcode = CALC, arg_0 = 5, arg_1 = 5, arg_2 = 5, arg_3 = 5\<rparr>) ''input/proc/p0'' = Some (b, 2) \<and>
    code_text (code b) = [\<lparr>opcode = ALLOC, arg_0 = 300, arg_1 = 0, arg_2 = 5, arg_3 = 5\<rparr>]"
  using load_show_prog [of "\<lambda>p. if p = ''input/proc/p0'' then Some (show_prog 1 [\<lparr>opcode = ALLOC, arg_0 = 300, arg_1 = 0, arg_2 = 9, arg_3 = 9\<rparr>]) else None"
      "''input/proc/p0''" 1 "[\<lparr>opcode = ALLOC, arg_0 = 300, arg_1 = 0, arg_2 = 9, arg_3 = 9\<rparr>]" 1
      "\<lambda>_. \<lparr>opcode = CALC, arg_0 = 5, arg_1 = 5, arg_2 = 5, arg_3 = 5\<rparr>"]
  by (auto simp: on_file_def num_args_def)

text \<open>
  C35. Whatever the file contains, \<open>load\<close> either exits or returns a well-formed process: as many
  instructions as its header says, a program counter inside the code, ten registers, a path that fits
  its array. It exits when the file cannot be opened, when the header does not have two numbers, and
  when a word at the place of an instruction is not one of the six names.
\<close>

theorem load_well_formed:
  "(case load fs avail_pid junk fpath of
      None \<Rightarrow> True
    | Some (b, pid') \<Rightarrow> unat (code_size (code b)) = length (code_text (code b)) \<and> pc b \<le> code_size (code b) \<and>
        length (regs b) = 10 \<and> length (path b) \<le> 99 \<and> killed b = 0 \<and> pid' = pid b + 1) \<and>
   (fs fpath = None \<longrightarrow> load fs avail_pid junk fpath = None) \<and>
   (\<forall>s. fs fpath = Some s \<and> length (fst (scan_uls 2 s)) < 2 \<longrightarrow> load fs avail_pid junk fpath = None) \<and>
   (\<forall>s w s1. scan_word 9 s = (Some w, s1) \<and> w \<notin> range opname \<longrightarrow> load_loop junk i (Suc n) s = None)"
proof -
  have "get_opcode w = None" if "w \<notin> range opname" for w
    using that get_opcode_iff by (metis not_Some_eq rangeI)
  moreover have "case load fs avail_pid junk fpath of
      None \<Rightarrow> True
    | Some (b, pid') \<Rightarrow> unat (code_size (code b)) = length (code_text (code b)) \<and> pc b \<le> code_size (code b) \<and>
        length (regs b) = 10 \<and> length (path b) \<le> 99 \<and> killed b = 0 \<and> pid' = pid b + 1"
    using load_loop_length by (auto simp: load_def Let_def split: option.splits prod.splits if_splits)
  ultimately show ?thesis
    by (auto simp: load_def split: prod.splits)
qed

theorem load_well_formed_witness:
  "load (\<lambda>_. None) 1 (\<lambda>_. \<lparr>opcode = CALC, arg_0 = 0, arg_1 = 0, arg_2 = 0, arg_3 = 0\<rparr>) ''input/proc/nofile'' = None"
  using load_well_formed [of "\<lambda>_. None" 1 "\<lambda>_. \<lparr>opcode = CALC, arg_0 = 0, arg_1 = 0, arg_2 = 0, arg_3 = 0\<rparr>"
      "''input/proc/nofile''" 0 0] by simp

end
