(* ===== verification/Config.thy ===== *)
theory Config
  imports Loader
begin

text \<open>
  The configuration file, \<open>read_config\<close> of \<open>src/os.c\<close>: a header with the time slot, the number of
  CPUs and the number of processes, an optional line with the sizes of the memory devices, and one
  line per process. \<open>exit(1)\<close> is the result \<open>None\<close>. The lemmas show that what is accepted has been
  checked, and that a printed configuration is read back, with and without the memory line.
\<close>

subsection \<open>The conversion \<open>%d\<close>\<close>

text \<open>\<open>strtol\<close> saturates at the range of \<open>long\<close>; the result is cut to an \<open>int\<close>.\<close>

definition strtol :: "bool \<Rightarrow> string \<Rightarrow> int" where
  "strtol neg ds = (let v = dec_val ds in if neg then max (- v) (- (2 ^ 63)) else min v (2 ^ 63 - 1))"

definition conv_d :: "bool \<Rightarrow> string \<Rightarrow> int" where
  "conv_d neg ds = to_int (strtol neg ds)"

subsection \<open>\<open>read_config\<close>\<close>

text \<open>The static variables \<open>read_config\<close> sets, and the files the simulator can open.\<close>

record conf_t =
  time_slot :: int
  num_cpus :: int
  memramsz :: int
  memswpsz :: "int list"
  ld_path :: "string list"
  start_time :: "64 word list"
  ld_prio :: "64 word list"
  files :: "string \<Rightarrow> string option"

text \<open>The memory line, or the default sizes and the input where it was.\<close>

definition read_mem_line :: "string \<Rightarrow> int \<times> int list \<times> string" where
  "read_mem_line s =
     (let dflt = (0x100000, 0x1000000 # replicate (PAGING_MAX_MMSWP - 1) 0, s) in
      case fgets 255 s of
        (None, _) \<Rightarrow> dflt
      | (Some line, s1) \<Rightarrow>
          let ms = fst (scan_nums conv_d (1 + PAGING_MAX_MMSWP) line) in
          if length ms = 1 + PAGING_MAX_MMSWP then (ms ! 0, tl ms, s1) else dflt)"

definition proc_path :: "string \<Rightarrow> string" where
  "proc_path w = take 99 (''input/proc/'' @ w)"

fun read_procs :: "nat \<Rightarrow> string \<Rightarrow> (64 word \<times> string \<times> 64 word) list option" where
  "read_procs 0 s = Some []"
| "read_procs (Suc n) s =
     (case scan_ul s of
        (None, _) \<Rightarrow> None
      | (Some t, s1) \<Rightarrow>
          (case scan_word 63 s1 of
             (None, _) \<Rightarrow> None
           | (Some w, s2) \<Rightarrow>
               (case scan_ul s2 of
                  (None, _) \<Rightarrow> None
                | (Some pr, s3) \<Rightarrow>
                    map_option (\<lambda>ps. (word_of_int t, proc_path w, word_of_int pr) # ps) (read_procs n (skip_ws s3)))))"

definition read_config :: "(string \<Rightarrow> string option) \<Rightarrow> string \<Rightarrow> conf_t option" where
  "read_config fs cpath =
     (case fs cpath of
        None \<Rightarrow> None
      | Some contents \<Rightarrow>
          let (hdr, s) = scan_nums conv_d 3 contents in
          if length hdr \<noteq> 3 \<or> hdr ! 0 \<le> 0 \<or> hdr ! 1 \<le> 0 \<or> hdr ! 2 \<le> 0 then None
          else
            let (ram, swp, s1) = read_mem_line (skip_ws s) in
            if ram < PAGING_PAGESZ \<or> swp ! 0 < PAGING_PAGESZ then None
            else
              map_option
                (\<lambda>ps. \<lparr>time_slot = hdr ! 0, num_cpus = hdr ! 1, memramsz = ram, memswpsz = swp,
                   ld_path = map (fst \<circ> snd) ps, start_time = map fst ps, ld_prio = map (snd \<circ> snd) ps, files = fs\<rparr>)
                (read_procs (nat (hdr ! 2)) s1))"

subsection \<open>Printing\<close>

definition show_i :: "int \<Rightarrow> string" where
  "show_i n = CHR '' '' # show_nat (nat n)"

fun show_ints :: "int list \<Rightarrow> string" where
  "show_ints [] = [CHR 0x0A]"
| "show_ints (n # ns) = show_nat (nat n) @ concat (map show_i ns) @ [CHR 0x0A]"

text \<open>A line of a process: its start time, its name in \<open>input/proc\<close> and its priority.\<close>

definition show_proc :: "64 word \<times> string \<times> 64 word \<Rightarrow> string" where
  "show_proc p = (case p of (t, w, pr) \<Rightarrow> show_nat (unat t) @ CHR '' '' # w @ CHR '' '' # show_nat (unat pr) @ [CHR 0x0A])"

definition show_config :: "int \<Rightarrow> int \<Rightarrow> int list \<Rightarrow> (64 word \<times> string \<times> 64 word) list \<Rightarrow> string" where
  "show_config ts nc mem ps =
     show_ints [ts, nc, int (length ps)] @ (if mem = [] then [] else show_ints mem) @ concat (map show_proc ps)"

text \<open>A name that \<open>%63s\<close> reads as one word.\<close>

definition name_ok :: "string \<Rightarrow> bool" where
  "name_ok w \<longleftrightarrow> w \<noteq> [] \<and> length w \<le> 63 \<and> list_all (\<lambda>c. \<not> isspace c) w"

text \<open>A name that does not begin like a number.\<close>

definition no_number :: "string \<Rightarrow> bool" where
  "no_number w \<longleftrightarrow> \<not> isdigit (hd w) \<and> hd w \<noteq> CHR ''-'' \<and> hd w \<noteq> CHR ''+''"

subsection \<open>Reading back\<close>

lemma conv_d_range: "INT_MIN \<le> conv_d b ds \<and> conv_d b ds \<le> INT_MAX"
  by (simp add: conv_d_def to_int_range)

interpretation dec: number_format conv_d "2 ^ 31"
  by unfold_locales (simp add: conv_d_def strtol_def dec_val_show to_int_def)

lemma scan_ds_show:
  assumes "ends_number s" and "\<forall>n \<in> set ns. 0 \<le> n \<and> n \<le> INT_MAX"
  shows "scan_nums conv_d (length ns) (concat (map show_i ns) @ s) = (ns, s)"
proof -
  have "map (int \<circ> nat) ns = ns"
    using assms(2) by (induction ns) auto
  moreover have "\<forall>n \<in> set (map nat ns). n < 2 ^ 31"
    using assms(2) by (auto simp: INT_MAX_def)
  ultimately show ?thesis
    using dec.scan_list_back [OF assms(1), of "map nat ns"] by (simp add: comp_def show_i_def [abs_def])
qed

lemma scan_nums_range: "set (fst (scan_nums conv_d k s)) \<subseteq> {INT_MIN..INT_MAX}"
proof (induction k arbitrary: s)
  case (Suc k)
  have "v \<in> {INT_MIN..INT_MAX}" if "scan_num conv_d s = (Some v, s1)" for v s1
    using that conv_d_range by (auto simp: scan_num_def Let_def split: if_splits)
  with Suc show ?case
    by (auto split: prod.splits option.splits) (metis atLeastAtMost_iff fst_conv subsetD)+
qed simp

lemma no_newline_nat: "CHR 0x0A \<notin> set (show_nat n)"
  using show_nat_digits [of n] by (auto simp: list_all_iff isdigit_def)

lemma length_show_i: "0 \<le> n \<Longrightarrow> n \<le> INT_MAX \<Longrightarrow> length (show_i n) \<le> 11"
  using length_show_nat [of "nat n" 9] by (simp add: show_i_def INT_MAX_def)

lemma scan_ints_show:
  assumes "\<forall>n \<in> set ns. 0 \<le> n \<and> n \<le> INT_MAX" and "ns \<noteq> []"
  shows "scan_nums conv_d (length ns) (show_ints ns @ s) = (ns, CHR 0x0A # s)"
proof (cases ns)
  case (Cons n ms)
  have "ends_number (concat (map show_i ms) @ CHR 0x0A # s)"
    using ends_number_list [OF ends_newline, of "map nat ms"] by (simp add: comp_def show_i_def [abs_def])
  then have "scan_num conv_d (show_ints ns @ s) = (Some n, concat (map show_i ms) @ CHR 0x0A # s)"
    using dec.scan_back [of "[]" _ "nat n"] assms(1) Cons by (simp add: INT_MAX_def nat_less_iff)
  with Cons assms(1) scan_ds_show [OF ends_newline, of ms s] show ?thesis
    by simp
qed (use assms in simp)

text \<open>A printed line begins with no white space.\<close>

lemma skip_ws_nat: "skip_ws (show_nat n @ s) = show_nat n @ s"
  using show_nat_nonempty [of n] show_nat_digits [of n] digit_not_space
  by (cases "show_nat n") (auto simp: skip_ws_def)

lemma read_mem_line_show:
  assumes "length mem = 5" and "\<forall>n \<in> set mem. 0 \<le> n \<and> n \<le> INT_MAX"
  shows "read_mem_line (show_ints mem @ s) = (hd mem, tl mem, s)"
proof -
  obtain n ns where mem: "mem = n # ns"
    using assms(1) by (cases mem) auto
  let ?l = "show_nat (nat n) @ concat (map show_i ns)"
  have len: "length (concat (map show_i ms)) \<le> 11 * length ms" if "\<forall>n \<in> set ms. 0 \<le> n \<and> n \<le> INT_MAX" for ms
    using that by (induction ms) (use length_show_i in \<open>fastforce simp: add_le_mono\<close>)+
  have "length ?l < 255"
    using len [of ns] length_show_i [of n] assms by (simp add: mem show_i_def)
  moreover have "CHR 0x0A \<notin> set ?l"
    using no_newline_nat by (auto simp: show_i_def)
  ultimately have "fgets 255 (?l @ CHR 0x0A # s) = (Some (?l @ [CHR 0x0A]), s)"
    by (intro fgets_line)
  moreover have "scan_nums conv_d 5 (?l @ [CHR 0x0A]) = (mem, [CHR 0x0A])"
    using scan_ints_show [OF assms(2), of "[]"] unfolding assms(1) by (simp add: mem)
  ultimately show ?thesis
    using assms(1) by (simp add: read_mem_line_def PAGING_MAX_MMSWP_def mem)
qed

text \<open>A line of a process is not taken for a memory line.\<close>

lemma read_mem_line_proc:
  assumes "name_ok w" and "no_number w"
  shows "read_mem_line (show_proc (t, w, pr) @ s) = (0x100000, [0x1000000, 0, 0, 0], show_proc (t, w, pr) @ s)"
proof -
  let ?l = "show_nat (unat t) @ CHR '' '' # w @ CHR '' '' # show_nat (unat pr)"
  have n: "length (show_nat (unat x)) \<le> 20" for x :: "64 word"
    using length_show_nat [of "unat x" 19] unsigned_less [where ?'a = nat, of x] by simp
  have "CHR 0x0A \<notin> set ?l" "length ?l < 255"
    using assms(1) no_newline_nat n [of t] n [of pr] by (auto simp: name_ok_def list_all_iff isspace_def)
  then have f: "fgets 255 (?l @ CHR 0x0A # s) = (Some (?l @ [CHR 0x0A]), s)"
    by (intro fgets_line)
  let ?r = "w @ CHR '' '' # show_nat (unat pr) @ [CHR 0x0A]"
  have "scan_num conv_d (CHR '' '' # ?r) = (None, ?r)"
    using assms by (cases w) (simp_all add: scan_num_def skip_ws_def name_ok_def no_number_def isspace_def)
  moreover have "scan_num conv_d (?l @ [CHR 0x0A]) = (Some (conv_d False (show_nat (unat t))), CHR '' '' # ?r)"
    using scan_num_show [of "[]" "CHR '' '' # ?r" conv_d "unat t"] by (simp add: ends_number_def isdigit_def)
  ultimately have "scan_nums conv_d 5 (?l @ [CHR 0x0A]) = ([conv_d False (show_nat (unat t))], ?r)"
    by (simp add: eval_nat_numeral)
  with f show ?thesis
    by (simp add: read_mem_line_def PAGING_MAX_MMSWP_def show_proc_def eval_nat_numeral)
qed

lemma scan_word_show:
  assumes "name_ok w"
  shows "scan_word 63 (CHR '' '' # w @ CHR '' '' # s) = (Some w, CHR '' '' # s)"
proof -
  have "skip_ws (CHR '' '' # w @ CHR '' '' # s) = w @ CHR '' '' # s"
    using assms by (cases w) (simp_all add: skip_ws_def name_ok_def isspace_def)
  moreover have "takeWhile (\<lambda>c. \<not> isspace c) (w @ CHR '' '' # s) = w"
    using assms by (simp add: name_ok_def list_all_iff takeWhile_append2 isspace_def)
  ultimately show ?thesis
    using assms by (simp add: scan_word_def Let_def name_ok_def)
qed

lemma skip_procs: "skip_ws (concat (map show_proc ps)) = concat (map show_proc ps)"
  by (cases ps) (auto simp: show_proc_def skip_ws_nat, simp add: skip_ws_def)

lemma read_procs_show:
  assumes "\<forall>p \<in> set ps. name_ok (fst (snd p))"
  shows "read_procs (length ps) (concat (map show_proc ps)) = Some (map (\<lambda>(t, w, pr). (t, proc_path w, pr)) ps)"
  using assms
proof (induction ps)
  case (Cons p ps)
  obtain t w pr where p: "p = (t, w, pr)"
    by (cases p)
  let ?s = "concat (map show_proc ps)"
  have u: "unat x < 2 ^ 64" for x :: "64 word"
    using unsigned_less [where ?'a = nat, of x] by simp
  have "scan_ul (show_proc p @ ?s) = (Some (uint t), CHR '' '' # w @ CHR '' '' # show_nat (unat pr) @ CHR 0x0A # ?s)"
    using ul.scan_back [OF _ _ u, of "[]" "CHR '' '' # w @ CHR '' '' # show_nat (unat pr) @ CHR 0x0A # ?s" t]
    by (simp add: p show_proc_def ends_number_def isdigit_def)
  moreover have "scan_ul (CHR '' '' # show_nat (unat pr) @ CHR 0x0A # ?s) = (Some (uint pr), CHR 0x0A # ?s)"
    using ul.scan_back [OF _ ends_newline u, of "[CHR '' '']" pr ?s] by (simp add: isspace_def)
  moreover have "name_ok w"
    using Cons.prems by (simp add: p)
  ultimately show ?case
    using Cons by (simp add: scan_word_show skip_procs p)
qed simp

lemma skip_ints: "skip_ws (show_ints (n # ns) @ s) = show_ints (n # ns) @ s"
  by (simp add: skip_ws_nat)

lemma read_header_show:
  assumes "0 < ts" "ts \<le> INT_MAX" "0 < nc" "nc \<le> INT_MAX" "ps \<noteq> []" "int (length ps) \<le> INT_MAX"
  shows "scan_nums conv_d 3 (show_ints [ts, nc, int (length ps)] @ s) = ([ts, nc, int (length ps)], CHR 0x0A # s)"
  using scan_ints_show [of "[ts, nc, int (length ps)]" s] assms by (simp add: eval_nat_numeral del: show_ints.simps)

lemma read_mem_line_sizes:
  assumes "read_mem_line s = (ram, swp, s1)"
  shows "length swp = 4 \<and> ram \<in> {INT_MIN..INT_MAX} \<and> set swp \<subseteq> {INT_MIN..INT_MAX}"
proof (cases "ram = 0x100000 \<and> swp = [0x1000000, 0, 0, 0]")
  case True
  then show ?thesis
    by (simp add: INT_MAX_def INT_MIN_def)
next
  case False
  then obtain l where l: "length (fst (scan_nums conv_d 5 l)) = 5" "ram = fst (scan_nums conv_d 5 l) ! 0" "swp = tl (fst (scan_nums conv_d 5 l))"
    using assms by (auto simp: read_mem_line_def PAGING_MAX_MMSWP_def numeral_3_eq_3 Let_def split: prod.splits option.splits if_splits)
  then obtain n ns where "fst (scan_nums conv_d 5 l) = n # ns"
    by (cases "fst (scan_nums conv_d 5 l)") auto
  with l scan_nums_range [of 5 l] show ?thesis
    by simp
qed

lemma read_procs_shape:
  "read_procs n s = Some ps \<Longrightarrow> length ps = n \<and> (\<forall>p \<in> set ps. \<exists>w. length w \<le> 63 \<and> fst (snd p) = ''input/proc/'' @ w)"
proof (induction n arbitrary: s ps)
  case (Suc n)
  then obtain t s1 w s2 pr s3 qs where q: "scan_word 63 s1 = (Some w, s2)" "read_procs n (skip_ws s3) = Some qs"
      "ps = (word_of_int t, proc_path w, word_of_int pr) # qs"
    by (auto split: prod.splits option.splits)
  have "length w \<le> 63"
    using q(1) by (auto simp: scan_word_def Let_def split: if_splits)
  with Suc.IH [OF q(2)] q(3) show ?case
    by (auto simp: proc_path_def)
qed simp

lemma read_config_facts:
  assumes "read_config fs cpath = Some cf"
  shows "0 < time_slot cf \<and> time_slot cf \<le> INT_MAX \<and> 0 < num_cpus cf \<and> num_cpus cf \<le> INT_MAX \<and> ld_path cf \<noteq> [] \<and>
    length (start_time cf) = length (ld_path cf) \<and> length (ld_prio cf) = length (ld_path cf) \<and>
    (\<forall>fp \<in> set (ld_path cf). \<exists>w. length w \<le> 63 \<and> fp = ''input/proc/'' @ w) \<and>
    256 \<le> memramsz cf \<and> length (memswpsz cf) = 4 \<and> 256 \<le> memswpsz cf ! 0 \<and> memswpsz cf ! 0 \<le> INT_MAX \<and> files cf = fs"
proof -
  obtain contents hdr s ram swp s1 ps where c: "fs cpath = Some contents" "scan_nums conv_d 3 contents = (hdr, s)"
      "length hdr = 3" "0 < hdr ! 0" "0 < hdr ! 1" "0 < hdr ! 2"
      "read_mem_line (skip_ws s) = (ram, swp, s1)" "256 \<le> ram" "256 \<le> swp ! 0" "read_procs (nat (hdr ! 2)) s1 = Some ps"
      "cf = \<lparr>time_slot = hdr ! 0, num_cpus = hdr ! 1, memramsz = ram, memswpsz = swp,
         ld_path = map (fst \<circ> snd) ps, start_time = map fst ps, ld_prio = map (snd \<circ> snd) ps, files = fs\<rparr>"
    using assms by (auto simp: read_config_def PAGING_PAGESZ_def not_less not_le split: option.splits prod.splits if_splits)
  have "hdr ! 0 \<in> set hdr" "hdr ! 1 \<in> set hdr"
    using c(3) by simp_all
  then have "hdr ! 0 \<le> INT_MAX" "hdr ! 1 \<le> INT_MAX"
    using scan_nums_range [of 3 contents] c(2) by auto
  moreover have "length swp = 4" "swp ! 0 \<le> INT_MAX"
    using read_mem_line_sizes [OF c(7)] by (cases swp; auto)+
  moreover have "length ps = nat (hdr ! 2)" "\<forall>p \<in> set ps. \<exists>w. length w \<le> 63 \<and> fst (snd p) = ''input/proc/'' @ w"
    using read_procs_shape [OF c(10)] by simp_all
  ultimately show ?thesis
    using c(4-6,8,9,11) by auto
qed

lemma read_show:
  assumes "fs cpath = Some (show_config ts nc mem ps)"
    and "0 < ts" "ts \<le> INT_MAX" "0 < nc" "nc \<le> INT_MAX" "ps \<noteq> []" "int (length ps) \<le> INT_MAX"
    and "\<forall>p \<in> set ps. name_ok (fst (snd p))"
    and "mem = [] \<and> no_number (fst (snd (hd ps))) \<or>
      length mem = 5 \<and> (\<forall>n \<in> set mem. 0 \<le> n \<and> n \<le> INT_MAX) \<and> 256 \<le> mem ! 0 \<and> 256 \<le> mem ! 1"
  shows "read_config fs cpath = Some
    \<lparr>time_slot = ts, num_cpus = nc,
     memramsz = (if mem = [] then 0x100000 else hd mem), memswpsz = (if mem = [] then [0x1000000, 0, 0, 0] else tl mem),
     ld_path = map (\<lambda>(t, w, pr). ''input/proc/'' @ w) ps, start_time = map fst ps, ld_prio = map (snd \<circ> snd) ps, files = fs\<rparr>"
proof -
  let ?procs = "concat (map show_proc ps)"
  let ?s = "(if mem = [] then [] else show_ints mem) @ ?procs"
  have hdr: "scan_nums conv_d 3 (show_config ts nc mem ps) = ([ts, nc, int (length ps)], CHR 0x0A # ?s)"
    unfolding show_config_def by (rule read_header_show) (use assms in auto)
  have skip: "skip_ws (CHR 0x0A # ?s) = ?s"
    using skip_procs [of ps] skip_ints by (cases mem) (simp_all del: show_ints.simps)
  have mem: "read_mem_line ?s = (if mem = [] then 0x100000 else hd mem, if mem = [] then [0x1000000, 0, 0, 0] else tl mem, ?procs)"
  proof (cases "mem = []")
    case True
    obtain t w pr qs where "ps = (t, w, pr) # qs"
      using assms(6) by (cases ps) auto
    with True assms(8,9) show ?thesis
      using read_mem_line_proc [of w t pr "concat (map show_proc qs)"] by auto
  next
    case False
    with assms(9) show ?thesis
      using read_mem_line_show [of mem ?procs] by simp
  qed
  have path: "proc_path (fst (snd p)) = ''input/proc/'' @ fst (snd p)" if "p \<in> set ps" for p
    using assms(8) that by (auto simp: proc_path_def name_ok_def)
  have paths: "map (fst \<circ> snd \<circ> (\<lambda>(t, w, pr). (t, proc_path w, pr))) ps = map (\<lambda>(t, w, pr). ''input/proc/'' @ w) ps"
    using path by (intro map_cong) (auto simp: case_prod_unfold)
  have "256 \<le> (if mem = [] then 0x100000 else hd mem) \<and> 256 \<le> (if mem = [] then [0x1000000, 0, 0, 0] else tl mem) ! 0"
  proof (cases mem)
    case (Cons m ms)
    with assms(9) show ?thesis
      by (simp add: nth_Cons')
  qed simp
  then show ?thesis
    using assms(1-7) hdr mem skip read_procs_show [OF assms(8)] paths
    by (simp add: read_config_def PAGING_PAGESZ_def comp_def case_prod_unfold)
qed

subsection \<open>Properties\<close>

text \<open>
  C36. A configuration that is printed is read back: the header, the sizes of the memory devices, and for
  every process its start time, the path of its program and its priority. Without the memory line the
  default sizes are used, and the first process is not lost, provided its name does not begin like a
  number.
\<close>

theorem read_show_config:
  assumes "fs cpath = Some (show_config ts nc mem ps)"
    and "0 < ts" "ts \<le> INT_MAX" "0 < nc" "nc \<le> INT_MAX" "ps \<noteq> []" "int (length ps) \<le> INT_MAX"
    and "\<forall>p \<in> set ps. name_ok (fst (snd p))"
    and "mem = [] \<and> no_number (fst (snd (hd ps))) \<or>
      length mem = 5 \<and> (\<forall>n \<in> set mem. 0 \<le> n \<and> n \<le> INT_MAX) \<and> 256 \<le> mem ! 0 \<and> 256 \<le> mem ! 1"
  shows "read_config fs cpath = Some
    \<lparr>time_slot = ts, num_cpus = nc,
     memramsz = (if mem = [] then 0x100000 else hd mem), memswpsz = (if mem = [] then [0x1000000, 0, 0, 0] else tl mem),
     ld_path = map (\<lambda>(t, w, pr). ''input/proc/'' @ w) ps, start_time = map fst ps, ld_prio = map (snd \<circ> snd) ps, files = fs\<rparr>"
  using assms by (rule read_show)

theorem read_show_config_witness:
  "\<exists>cf. read_config (\<lambda>_. Some (show_config 4 2 [] [(0, ''s0'', 12), (4, ''s1'', 20)])) ''input/sched'' = Some cf \<and>
    num_cpus cf = 2 \<and> memramsz cf = 1048576 \<and> ld_path cf = [''input/proc/s0'', ''input/proc/s1''] \<and> start_time cf = [0, 4]"
  by (subst read_show_config [of _ _ 4 2 "[]" "[(0, ''s0'', 12), (4, ''s1'', 20)]"])
    (simp_all add: INT_MAX_def name_ok_def no_number_def isdigit_def isspace_def)

text \<open>
  C37. Whatever the configuration file contains, \<open>read_config\<close> either exits or has checked it: the time
  slot and the number of CPUs are positive \<open>int\<close>s, there is at least one process, the three arrays
  have one entry per process, every path fits its array untruncated, and RAM and the first swap device
  hold at least one page.
\<close>

theorem read_config_checked:
  assumes "read_config fs cpath = Some cf"
  shows "0 < time_slot cf \<and> time_slot cf \<le> INT_MAX \<and> 0 < num_cpus cf \<and> num_cpus cf \<le> INT_MAX \<and> ld_path cf \<noteq> [] \<and>
    length (start_time cf) = length (ld_path cf) \<and> length (ld_prio cf) = length (ld_path cf) \<and>
    (\<forall>fp \<in> set (ld_path cf). \<exists>w. length w \<le> 63 \<and> fp = ''input/proc/'' @ w) \<and>
    256 \<le> memramsz cf \<and> length (memswpsz cf) = 4 \<and> 256 \<le> memswpsz cf ! 0 \<and> memswpsz cf ! 0 \<le> INT_MAX \<and> files cf = fs"
  using assms by (rule read_config_facts)

theorem read_config_checked_witness:
  "\<exists>cf. read_config (\<lambda>_. Some (show_config 4 2 [] [(0, ''s0'', 12)])) ''input/sched'' = Some cf \<and> length (ld_prio cf) = 1 \<and> 256 \<le> memramsz cf"
proof -
  have "map_option (length \<circ> ld_path) (read_config (\<lambda>_. Some (show_config 4 2 [] [(0, ''s0'', 12)])) ''input/sched'') = Some 1"
    by code_simp
  then obtain cf where cf: "read_config (\<lambda>_. Some (show_config 4 2 [] [(0, ''s0'', 12)])) ''input/sched'' = Some cf" "length (ld_path cf) = 1"
    by auto
  then show ?thesis
    using read_config_checked [OF cf(1)] by auto
qed

text \<open>The sizes of the other swap devices are not checked: a negative size is accepted.\<close>

lemma negative_swap_accepted:
  "map_option memswpsz (read_config (\<lambda>_. Some ''2 1 1\<newline>2048 4096 -4 0 0\<newline>0 s0 1'') ''input/bad'') = Some [4096, -4, 0, 0]"
  by code_simp

end
