(* ===== verification/Timer.thy ===== *)
theory Timer
  imports Prelude
begin

text \<open>
  The virtual clock, \<open>src/timer.c\<close>: a barrier between the timer thread and the devices (the CPUs and
  the loader) that gives all of them the same time slots.

  The static variables of the file and the program counter of \<open>timer_routine\<close> are the record
  \<open>timer_t\<close>. A pointer to a \<open>timer_id_t\<close> is a number; \<open>dev_list\<close> is the linked list of the
  source, with the newest device first. \<open>timer_step\<close> is one atomic step of the timer thread: the part
  of \<open>timer_routine\<close> between two points where it holds no lock. A thread that waits for a condition
  variable re-tests its condition when it is woken, so waiting is having no step while the condition
  is false. A call of \<open>next_slot\<close> has two steps: it sets \<open>done\<close>, then it returns when \<open>done\<close> is
  cleared.
\<close>

record timer_id_t =
  slot_done :: bool
  fsh :: bool

datatype timer_pc =
    T_off                          \<comment> \<open>before \<open>start_timer\<close>\<close>
  | T_top                          \<comment> \<open>at the head of the loop\<close>
  | T_wait "nat list" nat nat      \<comment> \<open>waiting for the devices of the list; \<open>fsh\<close> and \<open>event\<close> so far\<close>
  | T_free "nat list" nat nat      \<comment> \<open>releasing the devices of the list\<close>
  | T_exit

record timer_t =
  dev_list :: "nat list"
  ids :: "nat \<Rightarrow> timer_id_t"
  time_now :: "64 word"
  timer_started :: bool
  timer_stop :: bool
  tpc :: timer_pc

definition attach_event :: "timer_t \<Rightarrow> nat option \<times> timer_t" where
  "attach_event t =
     (if timer_started t then (None, t)
      else let d = length (dev_list t) in
        (Some d, t\<lparr>dev_list := d # dev_list t, ids := (ids t)(d := \<lparr>slot_done = False, fsh = False\<rparr>)\<rparr>))"

definition start_timer :: "timer_t \<Rightarrow> timer_t" where
  "start_timer t = t\<lparr>timer_started := True, tpc := T_top\<rparr>"

definition current_time :: "timer_t \<Rightarrow> 64 word" where
  "current_time t = time_now t"

definition set_done :: "bool \<Rightarrow> nat \<Rightarrow> timer_t \<Rightarrow> timer_t" where
  "set_done b d t = t\<lparr>ids := (ids t)(d := (ids t d)\<lparr>slot_done := b\<rparr>)\<rparr>"

definition next_slot_begin :: "timer_t \<Rightarrow> nat \<Rightarrow> timer_t" where
  "next_slot_begin t d = set_done True d t"

definition next_slot_over :: "timer_t \<Rightarrow> nat \<Rightarrow> bool" where
  "next_slot_over t d \<longleftrightarrow> \<not> slot_done (ids t d)"

definition detach_event :: "timer_t \<Rightarrow> nat \<Rightarrow> timer_t" where
  "detach_event t d = t\<lparr>ids := (ids t)(d := (ids t d)\<lparr>fsh := True\<rparr>)\<rparr>"

text \<open>The timer thread; \<open>None\<close> while it waits for a device and after it has ended.\<close>

definition timer_step :: "timer_t \<Rightarrow> timer_t option" where
  "timer_step t =
     (case tpc t of
        T_off \<Rightarrow> None
      | T_top \<Rightarrow> Some (t\<lparr>tpc := if timer_stop t then T_exit else T_wait (dev_list t) 0 0\<rparr>)
      | T_wait [] f e \<Rightarrow> Some (t\<lparr>time_now := time_now t + 1, tpc := T_free (dev_list t) f e\<rparr>)
      | T_wait (d # ds) f e \<Rightarrow>
          if slot_done (ids t d) \<or> fsh (ids t d)
          then Some (t\<lparr>tpc := T_wait ds (if fsh (ids t d) then f + 1 else f) (e + 1)\<rparr>)
          else None
      | T_free [] f e \<Rightarrow> Some (t\<lparr>tpc := if f = e then T_exit else T_top\<rparr>)
      | T_free (d # ds) f e \<Rightarrow> Some ((set_done False d t)\<lparr>tpc := T_free ds f e\<rparr>)
      | T_exit \<Rightarrow> None)"

text \<open>\<open>stop_timer\<close> asks the thread to end, joins it and releases the devices.\<close>

definition stop_request :: "timer_t \<Rightarrow> timer_t" where
  "stop_request t = t\<lparr>timer_stop := True\<rparr>"

definition stop_join :: "timer_t \<Rightarrow> timer_t option" where
  "stop_join t = (if tpc t = T_exit then Some (t\<lparr>dev_list := []\<rparr>) else None)"

subsection \<open>The devices\<close>

text \<open>
  \<open>barrier\<close> adds what the devices do: \<open>dpc\<close> says whether a device works on its slot, is inside
  \<open>next_slot\<close> or has called \<open>detach_event\<close>. \<open>rounds\<close> and \<open>ticks\<close> are auxiliary: the number of
  \<open>next_slot\<close> calls of a device that have returned, and of increments of the clock.
\<close>

datatype dev_pc = Working | Waiting | Finished

record barrier =
  tm :: timer_t
  dpc :: "nat \<Rightarrow> dev_pc"
  rounds :: "nat \<Rightarrow> nat"
  ticks :: nat

definition is_tick :: "timer_t \<Rightarrow> bool" where
  "is_tick t \<longleftrightarrow> (\<exists>f e. tpc t = T_wait [] f e)"

inductive bar_step :: "barrier \<Rightarrow> barrier \<Rightarrow> bool" where
  slot_begin: "d \<in> set (dev_list (tm b)) \<Longrightarrow> dpc b d = Working \<Longrightarrow>
    bar_step b (b\<lparr>tm := next_slot_begin (tm b) d, dpc := (dpc b)(d := Waiting)\<rparr>)"
| slot_over: "d \<in> set (dev_list (tm b)) \<Longrightarrow> dpc b d = Waiting \<Longrightarrow> next_slot_over (tm b) d \<Longrightarrow>
    bar_step b (b\<lparr>dpc := (dpc b)(d := Working), rounds := (rounds b)(d := Suc (rounds b d))\<rparr>)"
| detach: "d \<in> set (dev_list (tm b)) \<Longrightarrow> dpc b d = Working \<Longrightarrow>
    bar_step b (b\<lparr>tm := detach_event (tm b) d, dpc := (dpc b)(d := Finished)\<rparr>)"
| timer: "timer_step (tm b) = Some t \<Longrightarrow>
    bar_step b (b\<lparr>tm := t, ticks := if is_tick (tm b) then Suc (ticks b) else ticks b\<rparr>)"
| stop: "\<forall>d \<in> set (dev_list (tm b)). dpc b d = Finished \<Longrightarrow> bar_step b (b\<lparr>tm := stop_request (tm b)\<rparr>)"
| join: "stop_join (tm b) = Some t \<Longrightarrow> bar_step b (b\<lparr>tm := t\<rparr>)"

text \<open>The devices \<open>main\<close> attaches before it starts the timer.\<close>

fun attach_all :: "nat \<Rightarrow> timer_t \<Rightarrow> timer_t" where
  "attach_all 0 t = t"
| "attach_all (Suc n) t = attach_all n (snd (attach_event t))"

definition timer0 :: timer_t where
  "timer0 = \<lparr>dev_list = [], ids = (\<lambda>_. \<lparr>slot_done = False, fsh = False\<rparr>), time_now = 0,
     timer_started = False, timer_stop = False, tpc = T_off\<rparr>"

definition bar_init :: "nat \<Rightarrow> barrier" where
  "bar_init n = \<lparr>tm = start_timer (attach_all n timer0), dpc = (\<lambda>_. Working), rounds = (\<lambda>_. 0), ticks = 0\<rparr>"

subsection \<open>The invariant\<close>

fun flags_ok :: "dev_pc \<Rightarrow> timer_id_t \<Rightarrow> bool" where
  "flags_ok Working x \<longleftrightarrow> \<not> slot_done x \<and> \<not> fsh x"
| "flags_ok Waiting x \<longleftrightarrow> \<not> fsh x"
| "flags_ok Finished x \<longleftrightarrow> fsh x \<and> \<not> slot_done x"

lemma flags_fsh: "flags_ok x y \<Longrightarrow> fsh y \<longleftrightarrow> x = Finished"
  by (cases x) auto

definition passed :: "barrier \<Rightarrow> nat \<Rightarrow> bool" where
  "passed b d \<longleftrightarrow> slot_done (ids (tm b) d) \<or> fsh (ids (tm b) d)"

text \<open>The slots a device has been released from, also when its \<open>next_slot\<close> has not returned yet.\<close>

definition released :: "barrier \<Rightarrow> nat \<Rightarrow> nat" where
  "released b d = rounds b d + (if dpc b d = Waiting \<and> \<not> slot_done (ids (tm b) d) then 1 else 0)"

definition on_time :: "barrier \<Rightarrow> nat \<Rightarrow> bool" where
  "on_time b d \<longleftrightarrow> dpc b d = Finished \<or> released b d = ticks b"

definition one_behind :: "barrier \<Rightarrow> nat \<Rightarrow> bool" where
  "one_behind b d \<longleftrightarrow> dpc b d = Finished \<or> Suc (released b d) = ticks b"

fun phase_ok :: "barrier \<Rightarrow> timer_pc \<Rightarrow> bool" where
  "phase_ok b T_off \<longleftrightarrow> False"
| "phase_ok b T_top \<longleftrightarrow> (\<forall>d \<in> set (dev_list (tm b)). on_time b d)"
| "phase_ok b (T_wait rest f e) \<longleftrightarrow> (\<forall>d \<in> set (dev_list (tm b)). on_time b d) \<and> f \<le> e \<and>
     (\<exists>pre. dev_list (tm b) = pre @ rest \<and> (\<forall>d \<in> set pre. passed b d \<and> (f = e \<longrightarrow> fsh (ids (tm b) d))))"
| "phase_ok b (T_free rest f e) \<longleftrightarrow> (f = e \<longrightarrow> (\<forall>d \<in> set (dev_list (tm b)). fsh (ids (tm b) d))) \<and>
     (\<exists>pre. dev_list (tm b) = pre @ rest \<and> (\<forall>d \<in> set pre. on_time b d) \<and>
        (\<forall>d \<in> set rest. passed b d \<and> one_behind b d))"
| "phase_ok b T_exit \<longleftrightarrow> (\<forall>d \<in> set (dev_list (tm b)). dpc b d = Finished)"

definition bar_ok :: "barrier \<Rightarrow> bool" where
  "bar_ok b \<longleftrightarrow> distinct (dev_list (tm b)) \<and> time_now (tm b) = of_nat (ticks b) \<and>
     (\<forall>d \<in> set (dev_list (tm b)). flags_ok (dpc b d) (ids (tm b) d)) \<and>
     (timer_stop (tm b) \<longrightarrow> (\<forall>d \<in> set (dev_list (tm b)). dpc b d = Finished)) \<and> phase_ok b (tpc (tm b))"

lemmas slot_defs = passed_def released_def on_time_def one_behind_def

lemma set_done_simps [simp]:
  "dev_list (set_done x d t) = dev_list t" "time_now (set_done x d t) = time_now t" "timer_stop (set_done x d t) = timer_stop t"
  "tpc (set_done x d t) = tpc t" "ids (set_done x d t) = (ids t)(d := (ids t d)\<lparr>slot_done := x\<rparr>)"
  by (simp_all add: set_done_def)

text \<open>A step of a device leaves the phase of the timer alone.\<close>

lemma phase_device:
  assumes dl: "dev_list (tm b') = dev_list (tm b)"
    and on: "\<And>d. d \<in> set (dev_list (tm b)) \<Longrightarrow> on_time b d \<Longrightarrow> on_time b' d"
    and behind: "\<And>d. d \<in> set (dev_list (tm b)) \<Longrightarrow> passed b d \<Longrightarrow> one_behind b d \<Longrightarrow> one_behind b' d"
    and pass: "\<And>d. d \<in> set (dev_list (tm b)) \<Longrightarrow> passed b d \<Longrightarrow> passed b' d"
    and fin: "\<And>d. d \<in> set (dev_list (tm b)) \<Longrightarrow> fsh (ids (tm b) d) \<Longrightarrow> fsh (ids (tm b') d)"
      "\<And>d. d \<in> set (dev_list (tm b)) \<Longrightarrow> dpc b d = Finished \<Longrightarrow> dpc b' d = Finished"
    and ok: "phase_ok b ph"
  shows "phase_ok b' ph"
proof (cases ph)
  case (T_wait rest f e)
  then obtain pre where pre: "dev_list (tm b) = pre @ rest"
      "\<forall>d \<in> set pre. passed b d \<and> (f = e \<longrightarrow> fsh (ids (tm b) d))" "f \<le> e"
      "\<forall>d \<in> set (dev_list (tm b)). on_time b d"
    using ok by auto
  then have "\<forall>d \<in> set pre. passed b' d \<and> (f = e \<longrightarrow> fsh (ids (tm b') d))" "\<forall>d \<in> set (dev_list (tm b')). on_time b' d"
    using pass fin(1) on dl by auto
  with pre T_wait dl show ?thesis by auto
next
  case (T_free rest f e)
  then obtain pre where pre: "dev_list (tm b) = pre @ rest" "\<forall>d \<in> set pre. on_time b d"
      "\<forall>d \<in> set rest. passed b d \<and> one_behind b d" "f = e \<longrightarrow> (\<forall>d \<in> set (dev_list (tm b)). fsh (ids (tm b) d))"
    using ok by auto
  then have "\<forall>d \<in> set pre. on_time b' d" "\<forall>d \<in> set rest. passed b' d \<and> one_behind b' d"
      "f = e \<longrightarrow> (\<forall>d \<in> set (dev_list (tm b')). fsh (ids (tm b') d))"
    using pass fin(1) on behind dl by auto
  with pre T_free dl show ?thesis by auto
qed (use ok on fin dl in auto)

lemma phase_ok_tpc: "phase_ok (b\<lparr>tm := (tm b)\<lparr>tpc := x\<rparr>\<rparr>) ph = phase_ok b ph"
  by (cases ph) (simp_all add: slot_defs)

lemma timer_wait_ok:
  assumes ok: "bar_ok b" and run: "timer_step (tm b) = Some t" and T_wait: "tpc (tm b) = T_wait rest f e"
  shows "bar_ok (b\<lparr>tm := t, ticks := if is_tick (tm b) then Suc (ticks b) else ticks b\<rparr>)" (is "bar_ok ?b")
proof -
  obtain pre where pre: "dev_list (tm b) = pre @ rest"
      "\<forall>d \<in> set pre. passed b d \<and> (f = e \<longrightarrow> fsh (ids (tm b) d))" "f \<le> e" "\<forall>d \<in> set (dev_list (tm b)). on_time b d"
    using ok T_wait by (auto simp: bar_ok_def)
  show ?thesis
  proof (cases rest)
    case Nil
    then have "\<forall>d \<in> set (dev_list (tm b)). passed b d \<and> Suc (released b d) = Suc (released b d)"
      using pre by simp
    with Nil T_wait run ok pre show ?thesis
      by (auto simp: timer_step_def bar_ok_def is_tick_def slot_defs)
  next
    case (Cons d ds)
    then have "passed b d" and t: "t = (tm b)\<lparr>tpc := T_wait ds (if fsh (ids (tm b) d) then f + 1 else f) (e + 1)\<rparr>"
      using run T_wait by (auto simp: timer_step_def passed_def split: if_splits)
    then have "\<forall>x \<in> set (pre @ [d]). passed b x \<and> ((if fsh (ids (tm b) d) then f + 1 else f) = e + 1 \<longrightarrow> fsh (ids (tm b) x))"
      using pre(2,3) by auto
    moreover have "dev_list (tm b) = (pre @ [d]) @ ds"
      using pre(1) Cons by simp
    ultimately have "phase_ok b (T_wait ds (if fsh (ids (tm b) d) then f + 1 else f) (e + 1))"
      using pre(3,4) unfolding phase_ok.simps by (intro conjI exI [of _ "pre @ [d]"]) auto
    with Cons T_wait ok show ?thesis
      unfolding t by (simp add: bar_ok_def is_tick_def phase_ok_tpc del: phase_ok.simps)
  qed
qed

lemma timer_free_ok:
  assumes ok: "bar_ok b" and run: "timer_step (tm b) = Some t" and T_free: "tpc (tm b) = T_free rest f e"
  shows "bar_ok (b\<lparr>tm := t, ticks := if is_tick (tm b) then Suc (ticks b) else ticks b\<rparr>)" (is "bar_ok ?b")
proof -
  obtain pre where pre: "dev_list (tm b) = pre @ rest" "\<forall>d \<in> set pre. on_time b d"
      "\<forall>d \<in> set rest. passed b d \<and> one_behind b d" "f = e \<longrightarrow> (\<forall>d \<in> set (dev_list (tm b)). fsh (ids (tm b) d))"
    using ok T_free by (auto simp: bar_ok_def)
  have fl: "\<forall>d \<in> set (dev_list (tm b)). flags_ok (dpc b d) (ids (tm b) d)"
    using ok by (simp add: bar_ok_def)
  then have fin: "\<forall>d \<in> set (dev_list (tm b)). fsh (ids (tm b) d) \<longleftrightarrow> dpc b d = Finished"
    using flags_fsh by blast
  show ?thesis
  proof (cases rest)
    case Nil
    with T_free run ok pre fin show ?thesis
      by (auto simp: timer_step_def bar_ok_def is_tick_def slot_defs)
  next
    case (Cons d ds)
    let ?b1 = "b\<lparr>tm := set_done False d (tm b)\<rparr>"
    have t: "t = (set_done False d (tm b))\<lparr>tpc := T_free ds f e\<rparr>"
      using run T_free Cons by (simp add: timer_step_def)
    have d: "d \<in> set (dev_list (tm b))" "d \<notin> set pre" "d \<notin> set ds"
      using ok pre(1) Cons by (auto simp: bar_ok_def)
    have "on_time ?b1 d"
      using pre(3) Cons fl d(1) by (cases "dpc b d") (force simp: slot_defs)+
    moreover have "\<forall>x \<in> set pre. on_time ?b1 x" "\<forall>x \<in> set ds. passed ?b1 x \<and> one_behind ?b1 x"
      using pre(2,3) d Cons by (auto simp: slot_defs)
    ultimately have "phase_ok ?b1 (T_free ds f e)"
      using pre(1,4) Cons unfolding phase_ok.simps by (intro conjI exI [of _ "pre @ [d]"]) auto
    moreover have "flags_ok (dpc b x) (ids (tm ?b1) x)" if "x \<in> set (dev_list (tm b))" for x
      using fl that by (cases "dpc b x") auto
    ultimately have "bar_ok (?b1\<lparr>tm := (tm ?b1)\<lparr>tpc := T_free ds f e\<rparr>\<rparr>)"
      using ok phase_ok_tpc [where b = ?b1 and x = "T_free ds f e"] by (simp add: bar_ok_def del: phase_ok.simps)
    then show ?thesis
      using Cons T_free by (simp add: t is_tick_def)
  qed
qed

lemma timer_step_ok:
  assumes ok: "bar_ok b" and run: "timer_step (tm b) = Some t"
  shows "bar_ok (b\<lparr>tm := t, ticks := if is_tick (tm b) then Suc (ticks b) else ticks b\<rparr>)" (is "bar_ok ?b")
proof (cases "tpc (tm b)")
  case T_off
  with run show ?thesis by (simp add: timer_step_def)
next
  case T_exit
  with run show ?thesis by (simp add: timer_step_def)
next
  case T_top
  with run ok show ?thesis
    by (auto simp: timer_step_def bar_ok_def is_tick_def slot_defs)
next
  case T_wait
  then show ?thesis
    by (rule timer_wait_ok [OF ok run])
next
  case T_free
  then show ?thesis
    by (rule timer_free_ok [OF ok run])
qed

lemma bar_step_ok: "bar_step b b' \<Longrightarrow> bar_ok b \<Longrightarrow> bar_ok b'"
proof (induction rule: bar_step.induct)
  case (slot_begin d b)
  have "phase_ok (b\<lparr>tm := next_slot_begin (tm b) d, dpc := (dpc b)(d := Waiting)\<rparr>) (tpc (tm b))"
    by (rule phase_device [of _ b]) (use slot_begin in \<open>auto simp: next_slot_begin_def slot_defs bar_ok_def\<close>)
  with slot_begin show ?case
    by (fastforce simp: bar_ok_def next_slot_begin_def)
next
  case (slot_over d b)
  have "phase_ok (b\<lparr>dpc := (dpc b)(d := Working), rounds := (rounds b)(d := Suc (rounds b d))\<rparr>) (tpc (tm b))"
    by (rule phase_device [of _ b]) (use slot_over in \<open>auto simp: next_slot_over_def slot_defs bar_ok_def\<close>)
  with slot_over show ?case
    by (fastforce simp: bar_ok_def next_slot_over_def)
next
  case (detach d b)
  have "phase_ok (b\<lparr>tm := detach_event (tm b) d, dpc := (dpc b)(d := Finished)\<rparr>) (tpc (tm b))"
    by (rule phase_device [of _ b]) (use detach in \<open>auto simp: detach_event_def slot_defs bar_ok_def\<close>)
  with detach show ?case
    by (fastforce simp: bar_ok_def detach_event_def)
next
  case (timer b t)
  then show ?case by (intro timer_step_ok)
next
  case (stop b)
  have "phase_ok (b\<lparr>tm := stop_request (tm b)\<rparr>) (tpc (tm b))"
    by (rule phase_device [of _ b]) (use stop in \<open>auto simp: stop_request_def slot_defs bar_ok_def\<close>)
  with stop show ?case
    by (simp add: bar_ok_def stop_request_def)
next
  case (join b t)
  then show ?case
    by (auto simp: bar_ok_def stop_join_def split: if_splits)
qed

lemma attach_all_devs:
  assumes "\<not> timer_started t" and "set (dev_list t) = {..<length (dev_list t)}" and "distinct (dev_list t)"
    and "\<forall>d \<in> set (dev_list t). ids t d = \<lparr>slot_done = False, fsh = False\<rparr>"
  shows "set (dev_list (attach_all n t)) = {..<length (dev_list t) + n} \<and> distinct (dev_list (attach_all n t)) \<and>
    (\<forall>d \<in> set (dev_list (attach_all n t)). ids (attach_all n t) d = \<lparr>slot_done = False, fsh = False\<rparr>) \<and>
    time_now (attach_all n t) = time_now t \<and> timer_stop (attach_all n t) = timer_stop t"
  using assms
proof (induction n arbitrary: t)
  case (Suc n)
  let ?t = "snd (attach_event t)"
  have "\<not> timer_started ?t" "set (dev_list ?t) = {..<length (dev_list ?t)}" "distinct (dev_list ?t)"
      "\<forall>d \<in> set (dev_list ?t). ids ?t d = \<lparr>slot_done = False, fsh = False\<rparr>" "length (dev_list ?t) = Suc (length (dev_list t))"
      "time_now ?t = time_now t" "timer_stop ?t = timer_stop t"
    using Suc.prems by (auto simp: attach_event_def Let_def)
  with Suc.IH [of ?t] show ?case by simp
qed simp

lemma bar_init_ok: "bar_ok (bar_init n)" "set (dev_list (tm (bar_init n))) = {..<n}"
  using attach_all_devs [of timer0 n] by (auto simp: bar_ok_def bar_init_def start_timer_def timer0_def slot_defs)

text \<open>The list holds all devices until \<open>stop_timer\<close> releases them, after the timer thread has ended.\<close>

definition attached :: "nat \<Rightarrow> barrier \<Rightarrow> bool" where
  "attached n b \<longleftrightarrow> set (dev_list (tm b)) = {..<n} \<or>
     dev_list (tm b) = [] \<and> tpc (tm b) = T_exit \<and> (\<forall>d < n. dpc b d = Finished)"

lemma timer_step_devs: "timer_step t = Some t' \<Longrightarrow> dev_list t' = dev_list t \<and> tpc t \<noteq> T_exit"
  by (auto simp: timer_step_def split: timer_pc.splits list.splits if_splits)

lemma bar_step_attached: "bar_step b b' \<Longrightarrow> bar_ok b \<Longrightarrow> attached n b \<Longrightarrow> attached n b'"
proof (induction rule: bar_step.induct)
  case (timer b t)
  then show ?case
    using timer_step_devs [OF timer(1)] by (simp add: attached_def)
next
  case (join b t)
  then show ?case
    by (auto simp: attached_def stop_join_def bar_ok_def split: if_splits)
qed (auto simp: attached_def next_slot_begin_def detach_event_def stop_request_def)

interpretation bar_inv: transition_invariant bar_step "\<lambda>b. bar_ok b \<and> attached n b" for n
  by unfold_locales (use bar_step_ok bar_step_attached in blast)

lemma bar_reach: "bar_step\<^sup>*\<^sup>* (bar_init n) b \<Longrightarrow> bar_ok b \<and> attached n b"
  using bar_inv.steps_inv [of "bar_init n" b n] bar_init_ok by (simp add: attached_def)

subsection \<open>Progress\<close>

primrec timer_run :: "nat \<Rightarrow> timer_t \<Rightarrow> timer_t option" where
  "timer_run 0 t = Some t"
| "timer_run (Suc n) t = (case timer_step t of None \<Rightarrow> None | Some t1 \<Rightarrow> timer_run n t1)"

lemma timer_run_add: "timer_run (m + n) t = (case timer_run m t of None \<Rightarrow> None | Some t1 \<Rightarrow> timer_run n t1)"
  by (induction m arbitrary: t) (auto split: option.split)

lemma wait_run:
  assumes "tpc t = T_wait ds f e" and "\<forall>d \<in> set ds. slot_done (ids t d) \<or> fsh (ids t d)"
  shows "timer_run (length ds) t =
    Some (t\<lparr>tpc := T_wait [] (f + length (filter (\<lambda>d. fsh (ids t d)) ds)) (e + length ds)\<rparr>)"
  using assms
proof (induction ds arbitrary: t f e)
  case (Cons d ds)
  let ?t = "t\<lparr>tpc := T_wait ds (if fsh (ids t d) then f + 1 else f) (e + 1)\<rparr>"
  have "timer_step t = Some ?t"
    using Cons.prems by (simp add: timer_step_def)
  with Cons.IH [of ?t] Cons.prems(2) show ?case by simp
qed simp

lemma free_run:
  assumes "tpc t = T_free ds f e"
  shows "timer_run (length ds) t =
    Some (t\<lparr>tpc := T_free [] f e, ids := (\<lambda>d. if d \<in> set ds then (ids t d)\<lparr>slot_done := False\<rparr> else ids t d)\<rparr>)"
  using assms
proof (induction ds arbitrary: t)
  case (Cons d ds)
  let ?t = "(set_done False d t)\<lparr>tpc := T_free ds f e\<rparr>"
  have "timer_step t = Some ?t"
    using Cons.prems by (simp add: timer_step_def)
  then have "timer_run (length (d # ds)) t = timer_run (length ds) ?t"
    by simp
  also have "\<dots> = Some (?t\<lparr>tpc := T_free [] f e, ids := (\<lambda>x. if x \<in> set ds then (ids ?t x)\<lparr>slot_done := False\<rparr> else ids ?t x)\<rparr>)"
    by (rule Cons.IH) simp
  also have "?t\<lparr>tpc := T_free [] f e, ids := (\<lambda>x. if x \<in> set ds then (ids ?t x)\<lparr>slot_done := False\<rparr> else ids ?t x)\<rparr> =
      t\<lparr>tpc := T_free [] f e, ids := (\<lambda>x. if x \<in> set (d # ds) then (ids t x)\<lparr>slot_done := False\<rparr> else ids t x)\<rparr>"
    by (auto simp: set_done_def fun_eq_iff intro!: timer_t.equality)
  finally show ?case .
qed simp

lemma slot_run:
  assumes t: "tpc t = T_top" "\<not> timer_stop t" and all: "\<forall>d \<in> set (dev_list t). slot_done (ids t d) \<or> fsh (ids t d)"
  shows "timer_run (2 * length (dev_list t) + 3) t =
    Some (t\<lparr>tpc := if \<forall>d \<in> set (dev_list t). fsh (ids t d) then T_exit else T_top, time_now := time_now t + 1,
      ids := (\<lambda>d. if d \<in> set (dev_list t) then (ids t d)\<lparr>slot_done := False\<rparr> else ids t d)\<rparr>)"
proof -
  let ?ds = "dev_list t" and ?f = "length (filter (\<lambda>d. fsh (ids t d)) (dev_list t))"
  have "timer_run (length ?ds) (t\<lparr>tpc := T_wait ?ds 0 0\<rparr>) = Some (t\<lparr>tpc := T_wait [] ?f (length ?ds)\<rparr>)"
    using wait_run [of "t\<lparr>tpc := T_wait ?ds 0 0\<rparr>" ?ds 0 0] all by simp
  moreover have "timer_run (length ?ds) (t\<lparr>time_now := time_now t + 1, tpc := T_free ?ds ?f (length ?ds)\<rparr>) =
      Some (t\<lparr>time_now := time_now t + 1, tpc := T_free [] ?f (length ?ds),
        ids := (\<lambda>d. if d \<in> set ?ds then (ids t d)\<lparr>slot_done := False\<rparr> else ids t d)\<rparr>)"
    using free_run [of "t\<lparr>time_now := time_now t + 1, tpc := T_free ?ds ?f (length ?ds)\<rparr>" ?ds ?f "length ?ds"]
    by (simp cong: if_cong)
  moreover have "?f = length ?ds \<longleftrightarrow> (\<forall>d \<in> set ?ds. fsh (ids t d))"
    by (metis filter_True length_filter_less less_irrefl)
  moreover have "2 * length ?ds + 3 = 1 + (length ?ds + (1 + (length ?ds + 1)))"
    by simp
  ultimately show ?thesis
    using t by (simp only: timer_run_add) (simp add: timer_step_def)
qed

lemma slot_agree:
  assumes ok: "bar_ok b" and d: "d \<in> set (dev_list (tm b))"
  shows "(dpc b d = Working \<longrightarrow> rounds b d = ticks b \<and> current_time (tm b) = of_nat (rounds b d)) \<and>
    (\<forall>ds f e. tpc (tm b) = T_free (d # ds) f e \<longrightarrow> dpc b d \<noteq> Working) \<and>
    (tpc (tm b) = T_exit \<longrightarrow> dpc b d = Finished)"
proof -
  have fl: "flags_ok (dpc b d) (ids (tm b) d)" and tn: "time_now (tm b) = of_nat (ticks b)"
      and ph: "phase_ok b (tpc (tm b))"
    using ok d by (simp_all add: bar_ok_def)
  have "rounds b d = ticks b" if w: "dpc b d = Working"
  proof -
    have "\<not> passed b d"
      using fl w by (simp add: passed_def)
    then have "on_time b d"
      using ph d w by (cases "tpc (tm b)") (auto simp: Ball_def)
    with w show ?thesis
      by (simp add: on_time_def released_def)
  qed
  moreover have "dpc b d \<noteq> Working" if "tpc (tm b) = T_free (d # ds) f e" for ds f e
    using ph fl by (cases "dpc b d") (auto simp: that passed_def)
  ultimately show ?thesis
    using tn ph d by (auto simp: current_time_def)
qed

lemma slots_agree:
  assumes "bar_step\<^sup>*\<^sup>* (bar_init n) b" and "d < n"
  shows "(dpc b d = Working \<longrightarrow> rounds b d = ticks b \<and> current_time (tm b) = of_nat (rounds b d)) \<and>
    (\<forall>ds f e. tpc (tm b) = T_free (d # ds) f e \<longrightarrow> dpc b d \<noteq> Working) \<and>
    (tpc (tm b) = T_exit \<longrightarrow> dpc b d = Finished)"
proof -
  have ok: "bar_ok b" and at: "attached n b"
    using bar_reach [OF assms(1)] by simp_all
  show ?thesis
  proof (cases "d \<in> set (dev_list (tm b))")
    case True
    with ok show ?thesis by (rule slot_agree)
  next
    case False
    with at assms(2) show ?thesis
      by (auto simp: attached_def)
  qed
qed

subsection \<open>Properties\<close>

text \<open>
  C17. All devices are in the same time slot. In every reachable state, a device that works on its slot
  has returned from exactly as many \<open>next_slot\<close> calls as the clock shows (modulo \<open>2 ^ 64\<close>), so no
  device is ahead of or behind another. When the timer is about to clear the flag \<open>done\<close> of a device
  the device is not about to set it, although the two stores are under different locks. The timer
  thread ends only when every device has detached.
\<close>

theorem same_slot:
  assumes "bar_step\<^sup>*\<^sup>* (bar_init n) b" and "d < n"
  shows "(dpc b d = Working \<longrightarrow> rounds b d = ticks b \<and> current_time (tm b) = of_nat (rounds b d)) \<and>
    (\<forall>ds f e. tpc (tm b) = T_free (d # ds) f e \<longrightarrow> dpc b d \<noteq> Working) \<and>
    (tpc (tm b) = T_exit \<longrightarrow> dpc b d = Finished)"
  using assms by (rule slots_agree)

theorem same_slot_witness:
  "\<exists>b. bar_step\<^sup>*\<^sup>* (bar_init 2) b \<and> dpc b 1 = Working \<and> dpc b 0 = Waiting \<and> rounds b 1 = ticks b"
proof -
  let ?b = "(bar_init 2)\<lparr>tm := next_slot_begin (tm (bar_init 2)) 0, dpc := (dpc (bar_init 2))(0 := Waiting)\<rparr>"
  have "bar_step (bar_init 2) ?b"
    by (rule slot_begin) (simp_all add: bar_init_ok, simp add: bar_init_def)
  then have r: "bar_step\<^sup>*\<^sup>* (bar_init 2) ?b"
    by (rule r_into_rtranclp)
  have w: "dpc ?b 1 = Working" "dpc ?b 0 = Waiting"
    by (simp_all add: bar_init_def)
  have "rounds ?b 1 = ticks ?b"
    using same_slot [OF r, of 1] w(1) by simp
  with r w show ?thesis
    by (intro exI [of _ ?b]) simp
qed

lemma two_devices: "tm (bar_init 2) =
    \<lparr>dev_list = [1, 0], ids = (\<lambda>_. \<lparr>slot_done = False, fsh = False\<rparr>), time_now = 0,
      timer_started = True, timer_stop = False, tpc = T_top\<rparr>"
proof -
  have "attach_all 2 timer0 = attach_all (Suc (Suc 0)) timer0"
    by (simp only: numeral_2_eq_2)
  then show ?thesis
    by (simp add: bar_init_def start_timer_def timer0_def attach_event_def fun_eq_iff)
qed

end
