(* ===== verification/Os.thy ===== *)
theory Os
  imports Cpu Config Timer
begin

text \<open>
  The threads of the simulator, \<open>src/os.c\<close>: one \<open>cpu_routine\<close> per CPU, \<open>ld_routine\<close>, the timer
  thread and the end of \<open>main\<close>, interleaved in any order.

  A thread is a record of its local variables and its program counter, and a step of a thread is the
  code between two points where other threads can be seen to act: a call of the scheduler (which holds
  \<open>queue_lock\<close>), the release of a process, an instruction, the two halves of \<open>next_slot\<close>, the read of
  the flag \<open>done\<close>. An instruction is one step; the calls inside \<open>killall\<close> are not interleaved
  further. \<open>os_t\<close> is the whole state. A step whose code has no defined behaviour has the value
  \<open>Inl e\<close>; the safety theorem says that this never happens.
\<close>

subsection \<open>The scheduler calls of the threads\<close>

definition k_get :: "kernel \<Rightarrow> (pcb_ptr option \<times> kernel) res" where
  "k_get k = rbind (get_proc (ksched k)) (\<lambda>(p, s). Inr (p, k\<lparr>ksched := s\<rparr>))"

definition k_put :: "kernel \<Rightarrow> pcb_ptr \<Rightarrow> kernel res" where
  "k_put k p = rbind (deref k p) (\<lambda>_. rbind (put_proc (ksched k) p) (\<lambda>s. Inr (k\<lparr>ksched := s\<rparr>)))"

definition k_finish :: "kernel \<Rightarrow> pcb_ptr \<Rightarrow> kernel res" where
  "k_finish k p = rbind (finish_proc (ksched k) p) (\<lambda>s. Inr (k\<lparr>ksched := s\<rparr>))"

text \<open>The new block is at address \<open>p\<close>, with a fresh memory map.\<close>

definition k_add :: "kernel \<Rightarrow> pcb_ptr \<Rightarrow> pcb_t \<Rightarrow> kernel res" where
  "k_add k p b =
     (let k1 = (set_pcb k p (b\<lparr>pmm := init_mm\<rparr>))\<lparr>kheap := insert p (kheap k)\<rparr>
      in rbind (add_proc (ksched k1) p) (\<lambda>s. Inr (k1\<lparr>ksched := s\<rparr>)))"

subsection \<open>A CPU\<close>

datatype cpu_pc =
    C_top      \<comment> \<open>head of the loop\<close>
  | C_finish   \<comment> \<open>before \<open>finish_proc\<close>\<close>
  | C_free     \<comment> \<open>before \<open>free_pcb\<close>\<close>
  | C_put      \<comment> \<open>before \<open>put_proc\<close>\<close>
  | C_get      \<comment> \<open>before the second \<open>get_proc\<close>\<close>
  | C_check    \<comment> \<open>before the process is checked again\<close>
  | C_run      \<comment> \<open>before \<open>run\<close>\<close>
  | C_slot     \<comment> \<open>before \<open>next_slot\<close>\<close>
  | C_wait     \<comment> \<open>inside \<open>next_slot\<close>\<close>
  | C_exit     \<comment> \<open>before \<open>detach_event\<close>\<close>
  | C_stopped

record cpu_t =
  cproc :: "pcb_ptr option"
  time_left :: int
  cpc :: cpu_pc

definition nonnull :: "pcb_ptr option \<Rightarrow> pcb_ptr res" where
  "nonnull p = (case p of None \<Rightarrow> Inl Dangling | Some q \<Rightarrow> Inr q)"

text \<open>
  One step of the CPU with timer device \<open>d\<close>; \<open>dn\<close> is the flag \<open>done\<close>. \<open>None\<close> while it waits and
  after it has stopped.
\<close>

definition cpu_step :: "int \<Rightarrow> bool \<Rightarrow> nat \<Rightarrow> kernel \<Rightarrow> timer_t \<Rightarrow> cpu_t \<Rightarrow> (kernel \<times> timer_t \<times> cpu_t) res option" where
  "cpu_step tslot dn d k t c =
     (case cpc c of
        C_top \<Rightarrow>
          Some (case cproc c of
                  None \<Rightarrow> rbind (k_get k) (\<lambda>(p, k1).
                    Inr (k1, t, c\<lparr>cproc := p, cpc := if p = None then C_slot else C_check\<rparr>))
                | Some p \<Rightarrow> rbind (deref k p) (\<lambda>b.
                    Inr (k, t, c\<lparr>cpc := if killed b \<noteq> 0 then C_finish
                                      else if pc b = code_size (code b) then C_finish
                                      else if time_left c = 0 then C_put else C_check\<rparr>)))
      | C_finish \<Rightarrow> Some (rbind (nonnull (cproc c)) (\<lambda>p. rbind (k_finish k p) (\<lambda>k1. Inr (k1, t, c\<lparr>cpc := C_free\<rparr>))))
      | C_free \<Rightarrow> Some (rbind (free_pcb k (cproc c)) (\<lambda>k1. Inr (k1, t, c\<lparr>cproc := None, time_left := 0, cpc := C_get\<rparr>)))
      | C_put \<Rightarrow> Some (rbind (nonnull (cproc c)) (\<lambda>p. rbind (k_put k p) (\<lambda>k1. Inr (k1, t, c\<lparr>cproc := None, cpc := C_get\<rparr>))))
      | C_get \<Rightarrow> Some (rbind (k_get k) (\<lambda>(p, k1). Inr (k1, t, c\<lparr>cproc := p, cpc := C_check\<rparr>)))
      | C_check \<Rightarrow>
          Some (case cproc c of
                  None \<Rightarrow> Inr (k, t, c\<lparr>cpc := if dn then C_exit else C_slot\<rparr>)
                | Some p \<Rightarrow>
                    if time_left c = 0 then
                      rbind (deref k p) (\<lambda>_. Inr (k, t, c\<lparr>time_left := tslot, cpc := C_run\<rparr>))
                    else Inr (k, t, c\<lparr>cpc := C_run\<rparr>))
      | C_run \<Rightarrow> Some (rbind (nonnull (cproc c)) (\<lambda>p. rbind (run k p) (\<lambda>(_, k1).
          rbind (chk_int (time_left c - 1)) (\<lambda>tl. Inr (k1, t, c\<lparr>time_left := tl, cpc := C_slot\<rparr>)))))
      | C_slot \<Rightarrow> Some (Inr (k, next_slot_begin t d, c\<lparr>cpc := C_wait\<rparr>))
      | C_wait \<Rightarrow> if next_slot_over t d then Some (Inr (k, t, c\<lparr>cpc := C_top\<rparr>)) else None
      | C_exit \<Rightarrow> Some (Inr (k, detach_event t d, c\<lparr>cpc := C_stopped\<rparr>))
      | C_stopped \<Rightarrow> None)"

subsection \<open>The loader thread\<close>

text \<open>
  \<open>L_slot b\<close> and \<open>L_wait b\<close> are the two calls of \<open>next_slot\<close>: \<open>b\<close> says that it is the one of the inner
  loop, which waits for the start time.
\<close>

datatype ld_pc = L_load | L_time | L_add | L_slot bool | L_wait bool | L_done | L_exit | L_stopped

record ld_t =
  li :: nat
  lpcb :: pcb_t
  avail_pid :: u32
  lpc :: ld_pc

subsection \<open>The end of \<open>main\<close>\<close>

datatype main_pc =
    M_join nat   \<comment> \<open>joining CPU \<open>i\<close>, or the loader when \<open>i\<close> is the number of CPUs\<close>
  | M_stop       \<comment> \<open>before \<open>stop_timer\<close>\<close>
  | M_timer      \<comment> \<open>joining the timer thread\<close>
  | M_end        \<comment> \<open>returned\<close>

subsection \<open>The system\<close>

record os_t =
  kst :: kernel
  tmr :: timer_t
  cpus :: "cpu_t list"
  ldr :: ld_t
  all_loaded :: bool
  mpc :: main_pc
  exited :: bool

text \<open>The timer device of the loader is attached after those of the CPUs.\<close>

abbreviation ld_dev :: "os_t \<Rightarrow> nat" where
  "ld_dev s \<equiv> length (cpus s)"

inductive ld_step :: "conf_t \<Rightarrow> os_t \<Rightarrow> os_t \<Rightarrow> bool" for cf where
  ld_next: "lpc (ldr s) = L_load \<Longrightarrow> li (ldr s) < length (ld_path cf) \<Longrightarrow>
    load (files cf) (avail_pid (ldr s)) junk (ld_path cf ! li (ldr s)) = Some (b, pid') \<Longrightarrow>
    ld_step cf s (s\<lparr>ldr := (ldr s)\<lparr>lpcb := b\<lparr>prio := ucast (ld_prio cf ! li (ldr s))\<rparr>, avail_pid := pid', lpc := L_time\<rparr>\<rparr>)"
| ld_fail: "lpc (ldr s) = L_load \<Longrightarrow> li (ldr s) < length (ld_path cf) \<Longrightarrow>
    load (files cf) (avail_pid (ldr s)) junk (ld_path cf ! li (ldr s)) = None \<Longrightarrow> ld_step cf s (s\<lparr>exited := True\<rparr>)"
| ld_all: "lpc (ldr s) = L_load \<Longrightarrow> \<not> li (ldr s) < length (ld_path cf) \<Longrightarrow>
    ld_step cf s (s\<lparr>ldr := (ldr s)\<lparr>lpc := L_done\<rparr>\<rparr>)"
| ld_time: "lpc (ldr s) = L_time \<Longrightarrow>
    ld_step cf s (s\<lparr>ldr := (ldr s)\<lparr>lpc := if current_time (tmr s) < start_time cf ! li (ldr s) then L_slot True else L_add\<rparr>\<rparr>)"
| ld_add: "lpc (ldr s) = L_add \<Longrightarrow> p \<notin> kheap (kst s) \<Longrightarrow> k_add (kst s) p (lpcb (ldr s)) = Inr k1 \<Longrightarrow>
    ld_step cf s (s\<lparr>kst := k1, ldr := (ldr s)\<lparr>li := Suc (li (ldr s)), lpc := L_slot False\<rparr>\<rparr>)"
| ld_slot: "lpc (ldr s) = L_slot b \<Longrightarrow>
    ld_step cf s (s\<lparr>tmr := next_slot_begin (tmr s) (ld_dev s), ldr := (ldr s)\<lparr>lpc := L_wait b\<rparr>\<rparr>)"
| ld_wait: "lpc (ldr s) = L_wait b \<Longrightarrow> next_slot_over (tmr s) (ld_dev s) \<Longrightarrow>
    ld_step cf s (s\<lparr>ldr := (ldr s)\<lparr>lpc := if b then L_time else L_load\<rparr>\<rparr>)"
| ld_done: "lpc (ldr s) = L_done \<Longrightarrow> ld_step cf s (s\<lparr>all_loaded := True, ldr := (ldr s)\<lparr>lpc := L_exit\<rparr>\<rparr>)"
| ld_exit: "lpc (ldr s) = L_exit \<Longrightarrow>
    ld_step cf s (s\<lparr>tmr := detach_event (tmr s) (ld_dev s), ldr := (ldr s)\<lparr>lpc := L_stopped\<rparr>\<rparr>)"

text \<open>\<open>main\<close> after it has started the threads; when it returns the process ends.\<close>

inductive main_step :: "os_t \<Rightarrow> os_t \<Rightarrow> bool" where
  main_cpu: "mpc s = M_join i \<Longrightarrow> i < length (cpus s) \<Longrightarrow> cpc (cpus s ! i) = C_stopped \<Longrightarrow>
    main_step s (s\<lparr>mpc := M_join (Suc i)\<rparr>)"
| main_ld: "mpc s = M_join i \<Longrightarrow> \<not> i < length (cpus s) \<Longrightarrow> lpc (ldr s) = L_stopped \<Longrightarrow> main_step s (s\<lparr>mpc := M_stop\<rparr>)"
| main_stop: "mpc s = M_stop \<Longrightarrow> main_step s (s\<lparr>tmr := stop_request (tmr s), mpc := M_timer\<rparr>)"
| main_end: "mpc s = M_timer \<Longrightarrow> stop_join (tmr s) = Some t1 \<Longrightarrow>
    main_step s (s\<lparr>tmr := t1, mpc := M_end, exited := True\<rparr>)"

definition all_stopped :: "os_t \<Rightarrow> bool" where
  "all_stopped s \<longleftrightarrow> list_all (\<lambda>c. cpc c = C_stopped) (cpus s) \<and> lpc (ldr s) = L_stopped"

definition cpu_moved :: "os_t \<Rightarrow> nat \<Rightarrow> kernel \<Rightarrow> timer_t \<Rightarrow> cpu_t \<Rightarrow> os_t" where
  "cpu_moved s i k t c = s\<lparr>kst := k, tmr := t, cpus := (cpus s)[i := c]\<rparr>"

inductive os_step :: "conf_t \<Rightarrow> os_t \<Rightarrow> os_t \<Rightarrow> bool" for cf where
  os_cpu: "\<not> exited s \<Longrightarrow> i < length (cpus s) \<Longrightarrow>
    cpu_step (time_slot cf) (all_loaded s) i (kst s) (tmr s) (cpus s ! i) = Some (Inr (k1, t1, c1)) \<Longrightarrow>
    os_step cf s (cpu_moved s i k1 t1 c1)"
| os_ld: "\<not> exited s \<Longrightarrow> ld_step cf s s1 \<Longrightarrow> os_step cf s s1"
| os_timer: "\<not> exited s \<Longrightarrow> timer_step (tmr s) = Some t1 \<Longrightarrow> os_step cf s (s\<lparr>tmr := t1\<rparr>)"
| os_main: "\<not> exited s \<Longrightarrow> main_step s s1 \<Longrightarrow> os_step cf s s1"

subsection \<open>The start of the system\<close>

text \<open>\<open>main\<close> reads the file its argument names; \<open>None\<close> when it returns 1 or exits.\<close>

definition main_conf :: "(string \<Rightarrow> string option) \<Rightarrow> string list \<Rightarrow> conf_t option" where
  "main_conf fs argv = (if length argv \<noteq> 2 then None else read_config fs (take 255 (''input/'' @ argv ! 1)))"

text \<open>
  Static variables start with zeros. The devices are local variables of \<open>main\<close>: \<open>d 0\<close> is the
  contents of \<open>mram\<close> before it is initialised and \<open>d (i + 1)\<close> that of \<open>mswp[i]\<close>; \<open>blocks\<close> is the
  contents of memory that is not allocated yet.
\<close>

definition sched_static :: "(pcb_ptr \<Rightarrow> pcb_t) \<Rightarrow> sched_t" where
  "sched_static blocks =
     (let z = \<lparr>proc = replicate 100 0, qsize = 0\<rparr> in
      \<lparr>ready_queue = z, run_queue = z, running_list = z, mlq_ready_queue = replicate 140 z,
       slot = replicate 140 0, slot_used = replicate 140 0, pcbs = blocks\<rparr>)"

fun init_swaps :: "(nat \<Rightarrow> memphy_struct) \<Rightarrow> nat \<Rightarrow> int list \<Rightarrow> memphy_struct list res" where
  "init_swaps d i [] = Inr []"
| "init_swaps d i (sz # szs) =
     rbind (init_memphy (d i) sz 1) (\<lambda>m. rbind (init_swaps d (Suc i) szs) (\<lambda>ms. Inr (m # ms)))"

definition os_start :: "conf_t \<Rightarrow> (nat \<Rightarrow> memphy_struct) \<Rightarrow> (pcb_ptr \<Rightarrow> pcb_t) \<Rightarrow> os_t res" where
  "os_start cf d blocks =
     (let n = nat (num_cpus cf); t = start_timer (attach_all (n + 1) timer0) in
      rbind (init_memphy (d 0) (memramsz cf) 1) (\<lambda>r.
      rbind (init_swaps d 1 (memswpsz cf)) (\<lambda>ws.
        Inr \<lparr>kst = \<lparr>ksched = init_scheduler (sched_static blocks), kram = r, kswaps = ws, kheap = {}\<rparr>,
             tmr = t, cpus = replicate n \<lparr>cproc = None, time_left = 0, cpc = C_top\<rparr>,
             ldr = \<lparr>li = 0, lpcb = blocks 0, avail_pid = 1, lpc = L_load\<rparr>, all_loaded = False, mpc = M_join 0, exited = False\<rparr>)))"

subsection \<open>What the scheduler calls do to the kernel\<close>

lemma memsys_sched:
  "(\<And>p. pmm (pcbs s p) = pmm (kpcb k p)) \<Longrightarrow> memsys_of (k\<lparr>ksched := s\<rparr>) = memsys_of k"
  by (simp add: memsys_of_def)

lemma kernel_ok_sched:
  assumes ok: "kernel_ok k" and s: "sched_ok s" "tracked s" "pcbs s = pcbs (ksched k)" "set (running s) \<subseteq> set (running (ksched k))"
  shows "kernel_ok (k\<lparr>ksched := s\<rparr>)"
proof -
  note K = kernel_okD [OF ok]
  have "proc_ok (k\<lparr>ksched := s\<rparr>) p = proc_ok k p" for p
    by (simp add: proc_ok_def proc_ctx_def s(3))
  then show ?thesis
    using K s memsys_sched [of s k] by (auto simp: kernel_ok_def)
qed

lemma trackedI:
  assumes "distinct (running s)" and "\<And>i. i < 140 \<Longrightarrow> distinct (lev s i)"
    and "\<And>i p. i < 140 \<Longrightarrow> p \<in> set (lev s i) \<Longrightarrow> p \<in> set (running s) \<and> prio_of s p = i"
  shows "tracked s"
  using assms by (simp add: tracked_def)

lemma trackedD:
  assumes "tracked s"
  shows "distinct (running s)" "i < 140 \<Longrightarrow> distinct (lev s i)"
    "i < 140 \<Longrightarrow> p \<in> set (lev s i) \<Longrightarrow> p \<in> set (running s) \<and> prio_of s p = i"
  using assms by (simp_all add: tracked_def)

lemma k_get_ok:
  assumes ok: "kernel_ok k"
  obtains (none) k' where "k_get k = Inr (None, k')" "kernel_ok k'" "kheap k' = kheap k" "pcbs (ksched k') = pcbs (ksched k)"
      "running (ksched k') = running (ksched k)" "\<And>q. queued (ksched k') q \<longleftrightarrow> queued (ksched k) q" "\<And>q. \<not> queued (ksched k) q"
  | (some) p k' where "k_get k = Inr (Some p, k')" "kernel_ok k'" "kheap k' = kheap k" "pcbs (ksched k') = pcbs (ksched k)"
      "running (ksched k') = running (ksched k)" "\<And>q. queued (ksched k') q \<longleftrightarrow> queued (ksched k) q \<and> q \<noteq> p" "queued (ksched k) p"
proof -
  let ?s = "ksched k"
  note K = kernel_okD [OF ok]
  have disp: thesis if d: "get_proc ?s = Inr (Some (hd (lev ?s i)), s')" "dispatched ?s i u s'" "i < 140" "lev ?s i \<noteq> []" for i s' u
  proof -
    note tr = K(3)
    obtain p xs where px: "lev ?s i = p # xs" "p \<notin> set xs" "distinct xs" "prio_of ?s p = i"
      using d(3,4) tr by (cases "lev ?s i") (auto simp: tracked_def)
    have D: "sched_ok s'" "pcbs s' = pcbs ?s" "running_list s' = running_list ?s"
      and L: "\<And>j. lev s' j = (if j = i then xs else lev ?s j)"
      using d(2) px(1) by (auto simp: dispatched_def)
    have sub: "set (lev s' j) \<subseteq> set (lev ?s j)" "j < 140 \<Longrightarrow> distinct (lev s' j)" for j
      using px tr by (auto simp: L tracked_def)
    have tr': "tracked s'"
      by (rule trackedI) (use trackedD [OF tr] sub D in \<open>simp_all add: subset_iff\<close>)
    have "queued s' q \<longleftrightarrow> queued ?s q \<and> q \<noteq> p" for q
      using px D(2) L by (cases "prio_of ?s q = i") (auto simp: queued_def)
    moreover have "queued ?s p"
      using px d(3) by (simp add: queued_def)
    ultimately show ?thesis
      using kernel_ok_sched [OF ok D(1) tr' D(2)] D(2,3) d(1) px(1)
      by (intro some [of p "k\<lparr>ksched := s'\<rparr>"]) (simp_all add: k_get_def)
  qed
  from K(2) show ?thesis
  proof (cases rule: get_mlq_cases)
    case (this_round i s')
    then show ?thesis
      by (intro disp [of i s']) (auto simp: get_proc_def least_def eligible_def)
  next
    case (new_round i s')
    then show ?thesis
      by (intro disp [of i s']) (auto simp: get_proc_def least_def)
  next
    case (idle s')
    then have "tracked s'" "\<And>q. queued s' q \<longleftrightarrow> queued ?s q" "\<And>q. \<not> queued ?s q"
      using K(3) by (auto simp: tracked_def queued_def)
    with idle kernel_ok_sched [OF ok idle(3)] show ?thesis
      by (intro none [of "k\<lparr>ksched := s'\<rparr>"]) (simp_all add: k_get_def get_proc_def)
  qed
qed

lemma k_finish_ok:
  assumes ok: "kernel_ok k" and nq: "\<not> queued (ksched k) p"
  obtains k' where "k_finish k p = Inr k'" "kernel_ok k'" "kheap k' = kheap k" "pcbs (ksched k') = pcbs (ksched k)"
    "running (ksched k') = remove1 p (running (ksched k))" "\<And>q. queued (ksched k') q \<longleftrightarrow> queued (ksched k) q"
proof -
  let ?s = "ksched k"
  note K = kernel_okD [OF ok]
  obtain s' where s': "finish_proc ?s p = Inr s'" "sched_ok s'" "running s' = remove1 p (running ?s)"
      "mlq_ready_queue s' = mlq_ready_queue ?s" "pcbs s' = pcbs ?s"
    by (rule finish_proc_spec [OF K(2)])
  have "p \<notin> set (lev ?s i)" if "i < 140" for i
    using K(3) nq that by (auto simp: tracked_def queued_def)
  then have tr: "tracked s'"
    using K(3) unfolding tracked_def by (auto simp: s'(3-5) in_set_remove1)
  have "set (running s') \<subseteq> set (running ?s)"
    using set_remove1_subset [of p "running ?s"] by (simp add: s'(3))
  with kernel_ok_sched [OF ok s'(2) tr s'(5)] s' show ?thesis
    by (intro that [of "k\<lparr>ksched := s'\<rparr>"]) (simp_all add: k_finish_def queued_def)
qed

lemma lev_room:
  assumes ok: "kernel_ok k" and p: "p \<in> kheap k" "\<not> queued (ksched k) p" and fin: "finite (kheap k)" "card (kheap k) \<le> 100"
    and i: "i < 140"
  shows "length (lev (ksched k) i) < 100"
proof -
  have "p \<notin> set (lev (ksched k) i)" and d: "distinct (lev (ksched k) i)"
    using kernel_okD(3) [OF ok] p(2) i by (auto simp: tracked_def queued_def)
  then have "set (lev (ksched k) i) \<subset> kheap k"
    using kernel_okD(7) [OF ok i] p(1) by auto
  then have "card (set (lev (ksched k) i)) < card (kheap k)"
    using fin(1) by (rule psubset_card_mono [rotated])
  with d fin(2) show ?thesis
    by (simp add: distinct_card)
qed

lemma k_put_ok:
  assumes ok: "kernel_ok k" and p: "p \<in> set (running (ksched k))" "\<not> queued (ksched k) p"
    and fin: "finite (kheap k)" "card (kheap k) \<le> 100"
  obtains k' where "k_put k p = Inr k'" "kernel_ok k'" "kheap k' = kheap k" "pcbs (ksched k') = pcbs (ksched k)"
    "running (ksched k') = running (ksched k)" "\<And>q. queued (ksched k') q \<longleftrightarrow> queued (ksched k) q \<or> q = p"
proof -
  let ?s = "ksched k"
  note K = kernel_okD [OF ok]
  have i: "prio_of ?s p < 140" and pk: "p \<in> kheap k"
    using K(4,5) p(1) by auto
  note room = lev_room [OF ok pk p(2) fin i]
  obtain s' where s': "put_mlq_proc ?s p = Inr s'" "sched_ok s'"
      "\<And>j. lev s' j = (if j = prio_of ?s p then lev ?s j @ [p] else lev ?s j)"
      "pcbs s' = pcbs ?s" "running_list s' = running_list ?s"
    by (rule put_mlq_spec [OF K(2) i]) (use room in auto)
  have tr: "tracked s'"
  proof (rule trackedI)
    show "distinct (running s')"
      using trackedD(1) [OF K(3)] by (simp add: s'(5))
    fix j :: nat
    assume j: "j < 140"
    have "p \<notin> set (lev ?s (prio_of ?s p))"
      using p(2) i by (simp add: queued_def)
    then show "distinct (lev s' j)"
      using trackedD(2) [OF K(3) j] by (auto simp: s'(3))
    fix q
    assume "q \<in> set (lev s' j)"
    then have "q \<in> set (lev ?s j) \<or> q = p \<and> j = prio_of ?s p"
      by (auto simp: s'(3) split: if_splits)
    then show "q \<in> set (running s') \<and> prio_of s' q = j"
      using trackedD(3) [OF K(3) j] p(1) by (auto simp: s'(4,5))
  qed
  have "queued s' q \<longleftrightarrow> queued ?s q \<or> q = p" for q
    using i by (auto simp: queued_def s'(3,4))
  with kernel_ok_sched [OF ok s'(2) tr s'(4)] s' pk show ?thesis
    by (intro that [of "k\<lparr>ksched := s'\<rparr>"]) (simp_all add: k_put_def put_proc_def deref_def)
qed

text \<open>A block \<open>ld_routine\<close> may add: its program is one \<open>proc_ok\<close> admits.\<close>

definition loadable :: "pcb_t \<Rightarrow> bool" where
  "loadable b \<longleftrightarrow> code_ok b \<and> demand_left b \<le> 4194304"

lemma add_proc_block:
  assumes "add_proc s p = Inr s'"
  shows "pmm (pcbs s' p) = pmm (pcbs s p)" "code (pcbs s' p) = code (pcbs s p)" "pc (pcbs s' p) = pc (pcbs s p)"
    "regs (pcbs s' p) = regs (pcbs s p)" "killed (pcbs s' p) = killed (pcbs s p)"
  using assms by (auto simp: add_proc_def add_mlq_proc_def put_mlq_proc_def Let_def rbind_Inr_iff split: if_splits)

text \<open>A process that is in no list is appended to one level and to the running list.\<close>

lemma tracked_add:
  assumes tr: "tracked s" and np: "p \<notin> set (running s)" "\<And>i. i < 140 \<Longrightarrow> p \<notin> set (lev s i)" and i: "i < 140"
    and L: "\<And>j. lev s' j = (if j = i then lev s j @ [p] else lev s j)" and R: "running s' = running s @ [p]"
    and P: "\<And>q. q \<noteq> p \<Longrightarrow> prio_of s' q = prio_of s q" "prio_of s' p = i"
  shows "tracked s'"
proof (rule trackedI)
  note T = trackedD [OF tr]
  show "distinct (running s')"
    using T(1) np(1) by (simp add: R)
  fix j :: nat
  assume j: "j < 140"
  show "distinct (lev s' j)"
    using T(2) [OF j] np(2) [OF j] by (auto simp: L)
  fix q
  assume "q \<in> set (lev s' j)"
  then have "q \<in> set (lev s j) \<and> q \<noteq> p \<or> q = p \<and> j = i"
    using np(2) [OF j] by (auto simp: L split: if_splits)
  then show "q \<in> set (running s') \<and> prio_of s' q = j"
    using T(3) [OF j, of q] P by (auto simp: R)
qed

lemma k_add_ok:
  assumes ok: "kernel_ok k" and p: "p \<notin> kheap k" and b: "loadable b" and fin: "finite (kheap k)" "card (kheap k) < 100"
  obtains k' where "k_add k p b = Inr k'" "kernel_ok k'" "kheap k' = insert p (kheap k)"
    "running (ksched k') = running (ksched k) @ [p]" "\<And>q. queued (ksched k') q \<longleftrightarrow> queued (ksched k) q \<or> q = p"
    "\<And>q. q \<noteq> p \<Longrightarrow> kpcb k' q = kpcb k q"
proof -
  let ?b = "b\<lparr>pmm := init_mm\<rparr>"
  let ?k1 = "(set_pcb k p ?b)\<lparr>kheap := insert p (kheap k)\<rparr>" and ?s = "ksched k"
  let ?s1 = "ksched ?k1"
  note K = kernel_okD [OF ok] and T = trackedD [OF kernel_okD(3) [OF ok]]
  have np: "p \<notin> set (running ?s)" "i < 140 \<Longrightarrow> p \<notin> set (lev ?s i)" for i
    using K(4,7) p by blast+
  have l1: "running ?s1 = running ?s" "lev ?s1 i = lev ?s i" for i
    by simp_all
  have len: "length (running ?s) < 100" "i < 140 \<Longrightarrow> length (lev ?s i) < 100" for i
    using card_mono [OF fin(1) K(4)] card_mono [OF fin(1) K(7) [of i]] distinct_card [OF T(1)] distinct_card [OF T(2) [of i]] fin(2)
    by simp_all
  have sok: "sched_ok ?s1"
    using K(2) by (simp add: set_pcb_def sched_pcbs)
  obtain s' where s': "add_proc ?s1 p = Inr s'" "sched_ok s'" "prio_of s' p = min (prio_of ?s1 p) 139"
      "\<And>j. lev s' j = (if j = min (prio_of ?s1 p) 139 \<and> length (lev ?s j) < 100 then lev ?s j @ [p] else lev ?s j)"
      "running s' = running ?s @ [p]" "\<And>q. q \<noteq> p \<Longrightarrow> pcbs s' q = pcbs ?s q"
    by (rule add_proc_spec [OF sok, of p]) (use len(1) in \<open>simp_all cong: if_cong\<close>)
  define i where "i = min (prio_of ?s1 p) 139"
  have i: "i < 140" and pr: "prio_of s' p = i"
    and L: "\<And>j. lev s' j = (if j = i then lev ?s j @ [p] else lev ?s j)"
    using len(2) s'(3,4) by (auto simp: i_def)
  have fields: "pmm (pcbs s' p) = init_mm" "code_ok (pcbs s' p)" "demand_left (pcbs s' p) \<le> 4194304"
    using add_proc_block [OF s'(1)] b by (auto simp: loadable_def code_ok_def demand_left_def)
  have tr: "tracked s'"
    by (rule tracked_add [OF K(3) np i L s'(5)]) (use s'(6) pr in simp_all)
  let ?k' = "?k1\<lparr>ksched := s'\<rparr>"
  have "memsys_of ?k' = load_proc (memsys_of k) p"
    using s'(6) fields(1) by (auto simp: memsys_of_def load_proc_def fun_eq_iff)
  then have "sys_ok (memsys_of ?k')"
    using load_proc_ok [OF K(1), of p] p by simp
  moreover have "proc_ok ?k' q" if "q \<in> insert p (kheap k)" for q
  proof (cases "q = p")
    case True
    then show ?thesis
      using fields by (simp add: proc_ok_def area0_def init_mm_simps)
  next
    case False
    then show ?thesis
      using K(6) [of q] that s'(6) [OF False] by (simp add: proc_ok_def proc_ctx_def)
  qed
  moreover have "prio_of s' q < 140" if "q \<in> set (running s')" for q
    using that s'(5) s'(6) [of q] K(5) [of q] pr i by (cases "q = p") auto
  ultimately have "kernel_ok ?k'"
    using s'(2,5) tr K(4) by (auto simp: kernel_ok_def)
  moreover have "queued s' q \<longleftrightarrow> queued ?s q \<or> q = p" for q
    using s'(6) [of q] pr i np(2) [of "prio_of ?s p"] by (cases "q = p") (auto simp: queued_def L)
  ultimately show ?thesis
    using s' by (intro that [of ?k']) (simp_all add: k_add_def)
qed

subsection \<open>The invariant of the system\<close>

definition cpu_ok :: "int \<Rightarrow> kernel \<Rightarrow> cpu_t \<Rightarrow> bool" where
  "cpu_ok ts k c \<longleftrightarrow> 0 \<le> time_left c \<and> time_left c \<le> ts \<and>
     (case cproc c of
        None \<Rightarrow> cpc c \<in> {C_top, C_get, C_check, C_slot, C_wait, C_exit, C_stopped}
      | Some p \<Rightarrow> cpc c \<in> {C_top, C_finish, C_free, C_put, C_check, C_run, C_slot, C_wait} \<and>
          p \<in> kheap k \<and> \<not> queued (ksched k) p \<and> (p \<in> set (running (ksched k)) \<longleftrightarrow> cpc c \<noteq> C_free) \<and>
          (cpc c = C_run \<longrightarrow> 0 < time_left c))"

definition holds :: "cpu_t list \<Rightarrow> nat \<Rightarrow> pcb_ptr \<Rightarrow> bool" where
  "holds cs i p \<longleftrightarrow> i < length cs \<and> cproc (cs ! i) = Some p"

text \<open>
  Every process is in exactly one place: waiting in one queue or on one CPU.
\<close>

definition placed :: "kernel \<Rightarrow> cpu_t list \<Rightarrow> bool" where
  "placed k cs \<longleftrightarrow> (\<forall>i j p. holds cs i p \<longrightarrow> holds cs j p \<longrightarrow> i = j) \<and>
     (\<forall>p \<in> kheap k. queued (ksched k) p \<or> (\<exists>i. holds cs i p))"

definition ld_ok :: "conf_t \<Rightarrow> ld_t \<Rightarrow> bool" where
  "ld_ok cf l \<longleftrightarrow> li l \<le> length (ld_path cf) \<and>
     (lpc l \<in> {L_time, L_add, L_slot True, L_wait True} \<longrightarrow> li l < length (ld_path cf) \<and> loadable (lpcb l))"

definition os_ok :: "conf_t \<Rightarrow> os_t \<Rightarrow> bool" where
  "os_ok cf s \<longleftrightarrow> kernel_ok (kst s) \<and> (\<forall>c \<in> set (cpus s). cpu_ok (time_slot cf) (kst s) c) \<and> placed (kst s) (cpus s) \<and>
     finite (kheap (kst s)) \<and> card (kheap (kst s)) \<le> li (ldr s) \<and> ld_ok cf (ldr s)"

text \<open>
  The configurations and files the theorems are about: at most 100 processes, RAM of at most 2 MB (the
  8192 frames a page table entry can name), swap of at most 512 MB, no negative size, and programs that
  make no direct use of system call 17 and allocate at most 4 MB. \<open>conf_ok\<close> adds what \<open>read_config\<close>
  has checked.
\<close>

definition limits_ok :: "conf_t \<Rightarrow> bool" where
  "limits_ok cf \<longleftrightarrow> length (ld_path cf) \<le> 100 \<and> memramsz cf \<le> 2097152 \<and> memswpsz cf ! 0 \<le> 536870912 \<and>
     (\<forall>z \<in> set (memswpsz cf). 0 \<le> z) \<and>
     (\<forall>fp \<in> set (ld_path cf). \<forall>pid0 junk b pid'. load (files cf) pid0 junk fp = Some (b, pid') \<longrightarrow>
        list_all ins_ok (code_text (code b)) \<and> demand_left b \<le> 4194304)"

definition conf_ok :: "conf_t \<Rightarrow> bool" where
  "conf_ok cf \<longleftrightarrow> limits_ok cf \<and> 0 < time_slot cf \<and> time_slot cf \<le> INT_MAX \<and> 0 < num_cpus cf \<and>
     256 \<le> memramsz cf \<and> length (memswpsz cf) = 4"

lemma load_loadable:
  assumes "conf_ok cf" and "i < length (ld_path cf)" and "load (files cf) pid0 junk (ld_path cf ! i) = Some (b, pid')"
  shows "loadable (b\<lparr>prio := x\<rparr>)"
proof -
  have "ld_path cf ! i \<in> set (ld_path cf)"
    using assms(2) by simp
  then have c: "list_all ins_ok (code_text (code b))" "demand_left b \<le> 4194304"
    using assms(1,3) unfolding conf_ok_def limits_ok_def by blast+
  obtain prog n where "code b = \<lparr>code_text = prog, code_size = n\<rparr>" "pc b = 0" "regs b = replicate 10 0" "length prog = unat n"
    using assms(3) load_loop_length by (auto simp: load_def Let_def split: option.splits prod.splits if_splits)
  with c show ?thesis
    by (simp add: loadable_def code_ok_def demand_left_def)
qed

text \<open>
  A step of CPU \<open>i\<close>. The other CPUs are not affected when the processes they hold keep their place.
\<close>

lemma os_placed:
  assumes ok: "os_ok cf s"
  shows "holds (cpus s) a p \<Longrightarrow> holds (cpus s) b p \<Longrightarrow> a = b"
    "p \<in> kheap (kst s) \<Longrightarrow> queued (ksched (kst s)) p \<or> (\<exists>a. holds (cpus s) a p)"
    "holds (cpus s) a p \<Longrightarrow> p \<in> kheap (kst s) \<and> \<not> queued (ksched (kst s)) p"
    "a < length (cpus s) \<Longrightarrow> cpu_ok (time_slot cf) (kst s) (cpus s ! a)"
proof -
  show cok: "a < length (cpus s) \<Longrightarrow> cpu_ok (time_slot cf) (kst s) (cpus s ! a)" for a
    using ok by (simp add: os_ok_def)
  show "holds (cpus s) a p \<Longrightarrow> holds (cpus s) b p \<Longrightarrow> a = b"
    "p \<in> kheap (kst s) \<Longrightarrow> queued (ksched (kst s)) p \<or> (\<exists>a. holds (cpus s) a p)"
    using ok by (auto simp: os_ok_def placed_def)
  show "holds (cpus s) a p \<Longrightarrow> p \<in> kheap (kst s) \<and> \<not> queued (ksched (kst s)) p"
    using cok [of a] by (auto simp: holds_def cpu_ok_def)
qed

lemma holds_update: "i < length cs \<Longrightarrow> holds (cs[i := c]) j q \<longleftrightarrow> (if j = i then cproc c = Some q else holds cs j q)"
  by (auto simp: holds_def)

text \<open>A step of CPU \<open>i\<close> that leaves the processes of the other CPUs alone leaves these CPUs consistent.\<close>

lemma other_cpus_ok:
  assumes ok: "os_ok cf s" and i: "i < length (cpus s)" and new: "cpu_ok (time_slot cf) k' c'"
    and keep: "\<And>q. q \<in> kheap (kst s) \<Longrightarrow> \<not> queued (ksched (kst s)) q \<Longrightarrow> cproc (cpus s ! i) \<noteq> Some q \<Longrightarrow>
      q \<in> kheap k' \<and> \<not> queued (ksched k') q \<and> (q \<in> set (running (ksched k')) \<longleftrightarrow> q \<in> set (running (ksched (kst s))))"
  shows "\<forall>c \<in> set ((cpus s)[i := c']). cpu_ok (time_slot cf) k' c"
proof -
  note P = os_placed [OF ok]
  have other: "cpu_ok (time_slot cf) k' (cpus s ! a)" if "a < length (cpus s)" "a \<noteq> i" for a
  proof (cases "cproc (cpus s ! a)")
    case None
    with P(4) [OF that(1)] show ?thesis by (simp add: cpu_ok_def)
  next
    case (Some q)
    then have h: "holds (cpus s) a q"
      using that(1) by (simp add: holds_def)
    then have "cproc (cpus s ! i) \<noteq> Some q"
      using P(1) [of a q i] i that(2) by (auto simp: holds_def)
    from keep [OF _ _ this] P(3) [OF h] P(4) [OF that(1)] Some show ?thesis
      by (auto simp: cpu_ok_def)
  qed
  have "cpu_ok (time_slot cf) k' ((cpus s)[i := c'] ! a)" if "a < length (cpus s)" for a
    using other [OF that] new that by (cases "a = i") simp_all
  then show ?thesis
    by (simp add: all_set_conv_all_nth)
qed

lemma placed_update:
  assumes ok: "os_ok cf s" and i: "i < length (cpus s)" and sub: "kheap k' \<subseteq> kheap (kst s)"
    and hold: "\<And>q. cproc c' = Some q \<Longrightarrow> cproc (cpus s ! i) = Some q \<or> queued (ksched (kst s)) q"
    and place: "\<And>q. q \<in> kheap k' \<Longrightarrow> \<not> queued (ksched k') q \<Longrightarrow> cproc (cpus s ! i) = Some q \<or> queued (ksched (kst s)) q \<Longrightarrow>
      cproc c' = Some q"
  shows "placed k' ((cpus s)[i := c'])"
proof -
  note P = os_placed [OF ok] and H = holds_update [OF i]
  have "a = b" if "holds ((cpus s)[i := c']) a p" "holds ((cpus s)[i := c']) b p" for a b p
  proof -
    have "\<not> holds (cpus s) x p" if "cproc c' = Some p" "x \<noteq> i" for x
      using hold [OF that(1)] P(1) [of x p i] P(3) [of x p] that(2) i by (auto simp: holds_def)
    with that P(1) show ?thesis
      by (auto simp: H split: if_splits)
  qed
  moreover have "queued (ksched k') p \<or> (\<exists>a. holds ((cpus s)[i := c']) a p)" if p: "p \<in> kheap k'" for p
  proof (cases "cproc (cpus s ! i) = Some p \<or> queued (ksched (kst s)) p")
    case True
    with place [OF p] show ?thesis
      by (auto simp: H)
  next
    case False
    then obtain a where "holds (cpus s) a p" "a \<noteq> i"
      using P(2) [of p] p sub by (auto simp: holds_def)
    then show ?thesis
      by (auto simp: H)
  qed
  ultimately show ?thesis
    by (simp add: placed_def)
qed

lemma cpu_change:
  assumes ok: "os_ok cf s" and i: "i < length (cpus s)"
    and new: "kernel_ok k'" "cpu_ok (time_slot cf) k' c'" "kheap k' \<subseteq> kheap (kst s)"
    and keep: "\<And>q. q \<in> kheap (kst s) \<Longrightarrow> \<not> queued (ksched (kst s)) q \<Longrightarrow> cproc (cpus s ! i) \<noteq> Some q \<Longrightarrow>
      q \<in> kheap k' \<and> \<not> queued (ksched k') q \<and> (q \<in> set (running (ksched k')) \<longleftrightarrow> q \<in> set (running (ksched (kst s))))"
    and hold: "\<And>q. cproc c' = Some q \<Longrightarrow> cproc (cpus s ! i) = Some q \<or> queued (ksched (kst s)) q"
    and place: "\<And>q. q \<in> kheap k' \<Longrightarrow> \<not> queued (ksched k') q \<Longrightarrow> cproc (cpus s ! i) = Some q \<or> queued (ksched (kst s)) q \<Longrightarrow>
      cproc c' = Some q"
  shows "os_ok cf (cpu_moved s i k' t' c')"
proof -
  have "\<forall>c \<in> set ((cpus s)[i := c']). cpu_ok (time_slot cf) k' c"
    by (rule other_cpus_ok [OF ok i new(2) keep])
  moreover have "placed k' ((cpus s)[i := c'])"
    by (rule placed_update [OF ok i new(3) hold place])
  moreover have "finite (kheap k')" "card (kheap k') \<le> card (kheap (kst s))"
    using ok new(3) finite_subset card_mono by (auto simp: os_ok_def)
  ultimately show ?thesis
    using ok new(1) by (auto simp: os_ok_def cpu_moved_def)
qed

lemma cpu_local:
  assumes "os_ok cf s" and "i < length (cpus s)" and "cpu_ok (time_slot cf) (kst s) c'" and "cproc c' = cproc (cpus s ! i)"
  shows "os_ok cf (cpu_moved s i (kst s) t' c')"
  by (rule cpu_change [OF assms(1,2) _ assms(3)]) (use assms(1,4) in \<open>auto simp: os_ok_def\<close>)

lemma effect_other:
  assumes "effect k p k'" and "q \<in> kheap k" and "\<not> queued (ksched k) q"
  shows "q \<in> kheap k' \<and> \<not> queued (ksched k') q \<and> (q \<in> set (running (ksched k')) \<longleftrightarrow> q \<in> set (running (ksched k)))"
  using assms effect_queued [OF assms(1)] effectD [OF assms(1)] by auto

lemma cpu_get:
  assumes ok: "os_ok cf s" and i: "i < length (cpus s)" and c: "cproc (cpus s ! i) = None" "0 < time_slot cf"
    and x: "\<And>p. x p \<in> {C_check, C_slot}" "\<And>p. x (Some p) = C_check"
  shows "\<exists>p k'. k_get (kst s) = Inr (p, k') \<and> os_ok cf (cpu_moved s i k' t' ((cpus s ! i)\<lparr>cproc := p, cpc := x p\<rparr>))"
proof -
  let ?k = "kst s" and ?c = "cpus s ! i"
  have K: "kernel_ok ?k" and co: "cpu_ok (time_slot cf) ?k ?c"
    using ok i by (simp_all add: os_ok_def)
  note run_heap = kernel_okD(4) [OF K]
  have qrun: "queued (ksched ?k) p \<Longrightarrow> p \<in> set (running (ksched ?k))" for p
    using trackedD(3) [OF kernel_okD(3) [OF K]] by (auto simp: queued_def)
  show ?thesis
  proof (cases rule: k_get_ok [OF K])
    case (1 k')
    have "cpu_ok (time_slot cf) k' (?c\<lparr>cproc := None, cpc := x None\<rparr>)"
      using co x(1) [of None] by (auto simp: cpu_ok_def)
    then have "os_ok cf (cpu_moved s i  k' t' (?c\<lparr>cproc := None, cpc := x None\<rparr>))"
      by (rule cpu_change [OF ok i 1(2)]) (use 1 c in auto)
    with 1(1) show ?thesis by blast
  next
    case (2 p k')
    have "cpu_ok (time_slot cf) k' (?c\<lparr>cproc := Some p, cpc := x (Some p)\<rparr>)"
      using co x(2) [of p] 2 qrun [of p] run_heap by (auto simp: cpu_ok_def)
    then have "os_ok cf (cpu_moved s i  k' t' (?c\<lparr>cproc := Some p, cpc := x (Some p)\<rparr>))"
      by (rule cpu_change [OF ok i 2(2)]) (use 2 c in auto)
    with 2(1) show ?thesis by blast
  qed
qed

lemma os_cpuD:
  assumes "conf_ok cf" and "os_ok cf s" and "i < length (cpus s)"
  shows "kernel_ok (kst s)" "cpu_ok (time_slot cf) (kst s) (cpus s ! i)" "0 < time_slot cf" "time_slot cf \<le> INT_MAX"
    "finite (kheap (kst s))" "card (kheap (kst s)) \<le> 100"
    "cproc (cpus s ! i) = Some p \<Longrightarrow> p \<in> kheap (kst s)"
    "cproc (cpus s ! i) = Some p \<Longrightarrow> \<not> queued (ksched (kst s)) p"
    "cproc (cpus s ! i) = Some p \<Longrightarrow> p \<in> set (running (ksched (kst s))) \<longleftrightarrow> cpc (cpus s ! i) \<noteq> C_free"
proof -
  show "kernel_ok (kst s)" and co: "cpu_ok (time_slot cf) (kst s) (cpus s ! i)"
    using assms(2,3) by (simp_all add: os_ok_def)
  show "0 < time_slot cf" "time_slot cf \<le> INT_MAX" "finite (kheap (kst s))" "card (kheap (kst s)) \<le> 100"
    using assms(1,2) by (auto simp: os_ok_def ld_ok_def conf_ok_def limits_ok_def)
  show "cproc (cpus s ! i) = Some p \<Longrightarrow> p \<in> kheap (kst s)"
    "cproc (cpus s ! i) = Some p \<Longrightarrow> \<not> queued (ksched (kst s)) p"
    "cproc (cpus s ! i) = Some p \<Longrightarrow> p \<in> set (running (ksched (kst s))) \<longleftrightarrow> cpc (cpus s ! i) \<noteq> C_free"
    using co by (simp_all add: cpu_ok_def)
qed

lemma cpu_top_ok:
  assumes cf: "conf_ok cf" and ok: "os_ok cf s" and i: "i < length (cpus s)" and at: "cpc (cpus s ! i) = C_top"
  shows "\<exists>k t c. cpu_step (time_slot cf) dn i (kst s) (tmr s) (cpus s ! i) = Some (Inr (k, t, c)) \<and> os_ok cf (cpu_moved s i k t c)"
proof -
  let ?k = "kst s" and ?c = "cpus s ! i"
  note F = os_cpuD [OF cf ok i]
  show ?thesis
  proof (cases "cproc ?c")
    case None
    have x: "(if p = None then C_slot else C_check) \<in> {C_check, C_slot}" for p :: "pcb_ptr option"
      by simp
    obtain p k' where "k_get ?k = Inr (p, k')"
        "os_ok cf (cpu_moved s i k' (tmr s) (?c\<lparr>cproc := p, cpc := if p = None then C_slot else C_check\<rparr>))"
      using cpu_get [of cf s i "\<lambda>p. if p = None then C_slot else C_check" "tmr s", OF ok i None F(3) x] by auto
    then show ?thesis
      using at None by (intro exI conjI) (simp_all add: cpu_step_def)
  next
    case (Some p)
    then show ?thesis
      using at F(2) F(7-9) [OF Some] by (auto simp: cpu_step_def deref_def cpu_ok_def intro!: cpu_local [OF ok i])
  qed
qed

lemma cpu_finish_ok:
  assumes cf: "conf_ok cf" and ok: "os_ok cf s" and i: "i < length (cpus s)" and at: "cpc (cpus s ! i) = C_finish"
  shows "\<exists>k t c. cpu_step (time_slot cf) dn i (kst s) (tmr s) (cpus s ! i) = Some (Inr (k, t, c)) \<and> os_ok cf (cpu_moved s i k t c)"
proof -
  let ?k = "kst s" and ?c = "cpus s ! i"
  note F = os_cpuD [OF cf ok i]
  obtain p where p: "cproc ?c = Some p"
    using F(2) at by (auto simp: cpu_ok_def split: option.splits)
  obtain k' where k': "k_finish ?k p = Inr k'" "kernel_ok k'" "kheap k' = kheap ?k" "pcbs (ksched k') = pcbs (ksched ?k)"
      "running (ksched k') = remove1 p (running (ksched ?k))" "\<And>q. queued (ksched k') q \<longleftrightarrow> queued (ksched ?k) q"
    using k_finish_ok [OF F(1) F(8) [OF p]] by blast
  have "os_ok cf (cpu_moved s i k' (tmr s) (?c\<lparr>cpc := C_free\<rparr>))"
    by (rule cpu_change [OF ok i k'(2)])
      (use F(2) p k' trackedD(1) [OF kernel_okD(3) [OF F(1)]] in \<open>auto simp: cpu_ok_def set_remove1_eq\<close>)
  with at p k'(1) show ?thesis
    by (intro exI conjI) (simp_all add: cpu_step_def nonnull_def)
qed

lemma cpu_free_ok:
  assumes cf: "conf_ok cf" and ok: "os_ok cf s" and i: "i < length (cpus s)" and at: "cpc (cpus s ! i) = C_free"
  shows "\<exists>k t c. cpu_step (time_slot cf) dn i (kst s) (tmr s) (cpus s ! i) = Some (Inr (k, t, c)) \<and> os_ok cf (cpu_moved s i k t c)"
proof -
  let ?k = "kst s" and ?c = "cpus s ! i"
  note F = os_cpuD [OF cf ok i]
  obtain p where p: "cproc ?c = Some p"
    using F(2) at by (auto simp: cpu_ok_def split: option.splits)
  obtain k' where k': "free_pcb ?k (Some p) = Inr k'" "kernel_ok k'" "ksched k' = ksched ?k" "kheap k' = kheap ?k - {p}"
    by (rule free_pcb_ok [OF F(1) F(7) [OF p]]) (use F(9) [OF p] at in simp_all)
  have "os_ok cf (cpu_moved s i k' (tmr s) (?c\<lparr>cproc := None, time_left := 0, cpc := C_get\<rparr>))"
    by (rule cpu_change [OF ok i k'(2)]) (use F(2,3) p k' F(8) [OF p] in \<open>auto simp: cpu_ok_def\<close>)
  with at p k'(1) show ?thesis
    by (intro exI conjI) (simp_all add: cpu_step_def)
qed

lemma cpu_put_ok:
  assumes cf: "conf_ok cf" and ok: "os_ok cf s" and i: "i < length (cpus s)" and at: "cpc (cpus s ! i) = C_put"
  shows "\<exists>k t c. cpu_step (time_slot cf) dn i (kst s) (tmr s) (cpus s ! i) = Some (Inr (k, t, c)) \<and> os_ok cf (cpu_moved s i k t c)"
proof -
  let ?k = "kst s" and ?c = "cpus s ! i"
  note F = os_cpuD [OF cf ok i]
  obtain p where p: "cproc ?c = Some p"
    using F(2) at by (auto simp: cpu_ok_def split: option.splits)
  obtain k' where k': "k_put ?k p = Inr k'" "kernel_ok k'" "kheap k' = kheap ?k" "pcbs (ksched k') = pcbs (ksched ?k)"
      "running (ksched k') = running (ksched ?k)" "\<And>q. queued (ksched k') q \<longleftrightarrow> queued (ksched ?k) q \<or> q = p"
    using k_put_ok [OF F(1) _ F(8) [OF p] F(5,6)] F(9) [OF p] at by auto
  have "os_ok cf (cpu_moved s i k' (tmr s) (?c\<lparr>cproc := None, cpc := C_get\<rparr>))"
    by (rule cpu_change [OF ok i k'(2)]) (use F(2) p k' in \<open>auto simp: cpu_ok_def\<close>)
  with at p k'(1) show ?thesis
    by (intro exI conjI) (simp_all add: cpu_step_def nonnull_def)
qed

lemma cpu_get_ok:
  assumes cf: "conf_ok cf" and ok: "os_ok cf s" and i: "i < length (cpus s)" and at: "cpc (cpus s ! i) = C_get"
  shows "\<exists>k t c. cpu_step (time_slot cf) dn i (kst s) (tmr s) (cpus s ! i) = Some (Inr (k, t, c)) \<and> os_ok cf (cpu_moved s i k t c)"
proof -
  let ?k = "kst s" and ?c = "cpus s ! i"
  note F = os_cpuD [OF cf ok i]
  have "cproc ?c = None"
    using F(2) at by (auto simp: cpu_ok_def split: option.splits)
  then obtain p k' where "k_get ?k = Inr (p, k')" "os_ok cf (cpu_moved s i k' (tmr s) (?c\<lparr>cproc := p, cpc := C_check\<rparr>))"
    using cpu_get [OF ok i _ F(3), of "\<lambda>_. C_check" "tmr s"] by auto
  then show ?thesis
    using at by (intro exI conjI) (simp_all add: cpu_step_def)
qed

lemma cpu_run_ok:
  assumes cf: "conf_ok cf" and ok: "os_ok cf s" and i: "i < length (cpus s)" and at: "cpc (cpus s ! i) = C_run"
  shows "\<exists>k t c. cpu_step (time_slot cf) dn i (kst s) (tmr s) (cpus s ! i) = Some (Inr (k, t, c)) \<and> os_ok cf (cpu_moved s i k t c)"
proof -
  let ?k = "kst s" and ?c = "cpus s ! i"
  note F = os_cpuD [OF cf ok i]
  obtain p where p: "cproc ?c = Some p"
    using F(2) at by (auto simp: cpu_ok_def split: option.splits)
  obtain v k' where k': "run ?k p = Inr (v, k')" "kernel_ok k'" "effect ?k p k'"
    using run_ok [OF F(1) F(7) [OF p]] F(1) effect_refl [OF F(1) F(7) [OF p]] by metis
  have tl: "0 \<le> time_left ?c - 1" "time_left ?c - 1 \<le> time_slot cf"
    using F(2) p at by (simp_all add: cpu_ok_def)
  then have chk: "chk_int (time_left ?c - 1) = Inr (time_left ?c - 1)"
    using F(4) by (intro chk_int_in) (simp_all add: INT_MIN_def)
  note E = effect_other [OF k'(3)] effectD(1,2) [OF k'(3)] effect_queued [OF k'(3)]
  have "cpu_ok (time_slot cf) k' (?c\<lparr>time_left := time_left ?c - 1, cpc := C_slot\<rparr>)"
    using tl p F(7-9) [OF p] at E(1) [of p] by (simp add: cpu_ok_def)
  then have "os_ok cf (cpu_moved s i k' (tmr s) (?c\<lparr>time_left := time_left ?c - 1, cpc := C_slot\<rparr>))"
    by (rule cpu_change [OF ok i k'(2)]) (use p E in auto)
  with at p k'(1) chk show ?thesis
    by (intro exI conjI) (simp_all add: cpu_step_def nonnull_def)
qed

text \<open>Every step of a CPU is defined and keeps the invariant.\<close>

lemma cpu_step_ok:
  assumes cf: "conf_ok cf" and ok: "os_ok cf s" and i: "i < length (cpus s)"
    and st: "cpu_step (time_slot cf) dn i (kst s) (tmr s) (cpus s ! i) = Some r"
  shows "\<exists>k t c. r = Inr (k, t, c) \<and> os_ok cf (cpu_moved s i k t c)"
proof (cases "cpc (cpus s ! i) \<in> {C_top, C_finish, C_free, C_put, C_get, C_run}")
  case True
  then have "\<exists>k t c. cpu_step (time_slot cf) dn i (kst s) (tmr s) (cpus s ! i) = Some (Inr (k, t, c)) \<and> os_ok cf (cpu_moved s i k t c)"
    by (elim insertE emptyE)
      (erule cpu_top_ok [OF cf ok i] cpu_finish_ok [OF cf ok i] cpu_free_ok [OF cf ok i] cpu_put_ok [OF cf ok i]
        cpu_get_ok [OF cf ok i] cpu_run_ok [OF cf ok i])+
  with st show ?thesis by simp
next
  case False
  then show ?thesis
    using st os_cpuD(2-4) [OF cf ok i]
    by (cases "cpc (cpus s ! i)") (auto simp: cpu_step_def cpu_ok_def deref_def split: option.splits if_splits intro!: cpu_local [OF ok i])
qed

lemma cpu_ok_add:
  assumes "cpu_ok ts k c" and "\<And>q. q \<in> kheap k \<Longrightarrow> q \<in> kheap k' \<and> (queued (ksched k') q \<longleftrightarrow> queued (ksched k) q) \<and>
      (q \<in> set (running (ksched k')) \<longleftrightarrow> q \<in> set (running (ksched k)))"
  shows "cpu_ok ts k' c"
  using assms by (auto simp: cpu_ok_def split: option.splits)

lemma ld_add_ok:
  assumes cf: "conf_ok cf" and ok: "os_ok cf s" and at: "lpc (ldr s) = L_add" and p: "p \<notin> kheap (kst s)"
  shows "\<exists>k1. k_add (kst s) p (lpcb (ldr s)) = Inr k1 \<and>
    os_ok cf (s\<lparr>kst := k1, ldr := (ldr s)\<lparr>li := Suc (li (ldr s)), lpc := L_slot False\<rparr>\<rparr>)"
proof -
  let ?k = "kst s"
  have l: "loadable (lpcb (ldr s))" "li (ldr s) < length (ld_path cf)" "length (ld_path cf) \<le> 100"
    using cf ok at by (auto simp: os_ok_def ld_ok_def conf_ok_def limits_ok_def)
  have F: "kernel_ok ?k" "finite (kheap ?k)" "card (kheap ?k) \<le> li (ldr s)" "placed ?k (cpus s)"
      "\<And>c. c \<in> set (cpus s) \<Longrightarrow> cpu_ok (time_slot cf) ?k c"
    using ok by (simp_all add: os_ok_def)
  obtain k1 where k1: "k_add ?k p (lpcb (ldr s)) = Inr k1" "kernel_ok k1" "kheap k1 = insert p (kheap ?k)"
      "running (ksched k1) = running (ksched ?k) @ [p]" "\<And>q. queued (ksched k1) q \<longleftrightarrow> queued (ksched ?k) q \<or> q = p"
    by (rule k_add_ok [OF F(1) p l(1) F(2)]) (use F(3) l(2,3) in simp_all)
  have "\<forall>c \<in> set (cpus s). cpu_ok (time_slot cf) k1 c"
  proof
    fix c
    assume "c \<in> set (cpus s)"
    from F(5) [OF this] show "cpu_ok (time_slot cf) k1 c"
      by (rule cpu_ok_add) (use p in \<open>auto simp: k1(3-5)\<close>)
  qed
  moreover have "placed k1 (cpus s)"
    using F(4) k1(3,5) by (auto simp: placed_def)
  moreover have "card (kheap k1) \<le> Suc (li (ldr s))" "finite (kheap k1)"
    using F(2,3) p by (simp_all add: k1(3))
  ultimately show ?thesis
    using k1(1,2) l(2) by (auto simp: os_ok_def ld_ok_def)
qed

lemma ld_step_ok: "ld_step cf s s' \<Longrightarrow> conf_ok cf \<Longrightarrow> os_ok cf s \<Longrightarrow> os_ok cf s'"
proof (induction rule: ld_step.induct)
  case (ld_next s junk b pid')
  then show ?case
    using load_loadable [OF ld_next(4,2,3)] by (simp add: os_ok_def ld_ok_def)
next
  case (ld_add s p k1)
  then show ?case
    using ld_add_ok [OF ld_add(4,5,1,2)] by simp
qed (simp_all add: os_ok_def ld_ok_def)

lemma os_step_ok: "os_step cf s s' \<Longrightarrow> conf_ok cf \<Longrightarrow> os_ok cf s \<Longrightarrow> os_ok cf s'"
proof (induction rule: os_step.induct)
  case (os_cpu s i k1 t1 c1)
  then show ?case
    using cpu_step_ok [OF os_cpu(4,5,2,3)] by simp
next
  case (os_ld s s1)
  show ?case
    by (rule ld_step_ok [OF os_ld(2-4)])
qed (auto simp: os_ok_def elim!: main_step.cases)

interpretation os_inv: transition_invariant "os_step cf" "\<lambda>s. conf_ok cf \<and> os_ok cf s" for cf
  by unfold_locales (use os_step_ok in blast)

lemma os_steps_ok: "(os_step cf)\<^sup>*\<^sup>* s s' \<Longrightarrow> conf_ok cf \<Longrightarrow> os_ok cf s \<Longrightarrow> os_ok cf s'"
  using os_inv.steps_inv [of cf s s'] by simp

subsection \<open>The start of the system is consistent\<close>

lemma init_swaps_ok:
  assumes "\<forall>z \<in> set szs. 0 \<le> z"
  shows "\<exists>ws. init_swaps d i szs = Inr ws \<and> length ws = length szs \<and>
    (szs \<noteq> [] \<longrightarrow> init_memphy (d i) (hd szs) 1 = Inr (hd ws))"
  using assms
proof (induction szs arbitrary: i)
  case (Cons z szs)
  then obtain m where "init_memphy (d i) z 1 = Inr m"
    using init_memphy_eq [of z "d i" 1] by auto
  moreover obtain ms where "init_swaps d (Suc i) szs = Inr ms" "length ms = length szs"
    using Cons.IH [of "Suc i"] Cons.prems by auto
  ultimately show ?case by simp
qed simp

lemma sched_static_ok:
  "sched_ok (init_scheduler (sched_static blocks))" "tracked (init_scheduler (sched_static blocks))"
  "i < 140 \<Longrightarrow> lev (init_scheduler (sched_static blocks)) i = []" "running (init_scheduler (sched_static blocks)) = []"
  by (rule init_scheduler_ok; simp add: sched_static_def Let_def)+

lemma os_start_ok:
  assumes cf: "conf_ok cf"
  obtains s where "os_start cf d blocks = Inr s" "os_ok cf s" "length (cpus s) = nat (num_cpus cf)"
    "tmr s = start_timer (attach_all (Suc (length (cpus s))) timer0)" "lpc (ldr s) = L_load" "li (ldr s) = 0"
    "\<And>i. i < length (cpus s) \<Longrightarrow> cpus s ! i = \<lparr>cproc = None, time_left = 0, cpc = C_top\<rparr>"
    "kheap (kst s) = {}" "\<not> exited s" "\<not> all_loaded s" "avail_pid (ldr s) = 1" "mpc s = M_join 0"
proof -
  have c: "length (memswpsz cf) = 4" "memswpsz cf ! 0 \<le> 536870912" "\<forall>z \<in> set (memswpsz cf). 0 \<le> z"
      "0 < time_slot cf" "256 \<le> memramsz cf" "memramsz cf \<le> 2097152"
    using cf by (simp_all add: conf_ok_def limits_ok_def)
  then have sz: "0 \<le> memramsz cf" "memramsz cf \<le> 2097152" "0 \<le> hd (memswpsz cf)" "hd (memswpsz cf) \<le> 536870912"
      "memswpsz cf \<noteq> []" "\<forall>z \<in> set (memswpsz cf). 0 \<le> z" "0 < time_slot cf"
    by (cases "memswpsz cf"; simp)+
  obtain r where r: "init_memphy (d 0) (memramsz cf) 1 = Inr r"
    using init_memphy_eq [OF sz(1), of "d 0" 1] by auto
  obtain ws where "init_swaps d 1 (memswpsz cf) = Inr ws" "length ws = length (memswpsz cf)" "init_memphy (d 1) (hd (memswpsz cf)) 1 = Inr (hd ws)"
    using init_swaps_ok [OF sz(6), of d 1] sz(5) by auto
  then obtain w ws' where w: "init_swaps d 1 (memswpsz cf) = Inr (w # ws')" "init_memphy (d 1) (hd (memswpsz cf)) 1 = Inr w"
    using sz(5) by (cases ws) auto
  let ?s = "init_scheduler (sched_static blocks)"
  let ?k = "\<lparr>ksched = ?s, kram = r, kswaps = w # ws', kheap = {}\<rparr>"
  have "sys_ok (memsys_of ?k)"
    using boot_ok [OF r w(2) sz(1-4), of ws'] by (simp add: sys_ok_def memsys_of_def boot_def ram_of_def swp_of_procs_def)
  then have "kernel_ok ?k"
    using sched_static_ok by (simp add: kernel_ok_def)
  let ?n = "nat (num_cpus cf)"
  let ?S = "\<lparr>kst = ?k, tmr = start_timer (attach_all (?n + 1) timer0), cpus = replicate ?n \<lparr>cproc = None, time_left = 0, cpc = C_top\<rparr>,
      ldr = \<lparr>li = 0, lpcb = blocks 0, avail_pid = 1, lpc = L_load\<rparr>, all_loaded = False, mpc = M_join 0, exited = False\<rparr>"
  from \<open>kernel_ok ?k\<close> have "os_ok cf ?S"
    using sz(7) by (auto simp: os_ok_def cpu_ok_def placed_def holds_def ld_ok_def)
  with r w show ?thesis
    by (intro that [of ?S]) (simp_all add: os_start_def Let_def)
qed

lemma conf_okI:
  assumes "read_config fs cpath = Some cf" and "limits_ok cf"
  shows "conf_ok cf"
  using read_config_facts [OF assms(1)] assms(2) by (simp add: conf_ok_def)

end
