(* ===== verification/System.thy ===== *)
theory System
  imports Os
begin

text \<open>
  The system as a whole: that it is safe from the start \<open>main\<close> makes, that its threads use the clock
  as the barrier of \<open>Timer\<close> requires (\<open>clock_sim\<close> relates a state to a state of the barrier), and
  what happens after the last process has ended. The example runs one CPU and one process from
  the configuration file on.
\<close>

subsection \<open>The threads and the clock\<close>

text \<open>What a thread is to the timer: \<open>dev_of s d\<close> is the device \<open>d\<close> in state \<open>s\<close>.\<close>

definition dev_of :: "os_t \<Rightarrow> nat \<Rightarrow> dev_pc" where
  "dev_of s d =
     (if d < length (cpus s) then
        (case cpc (cpus s ! d) of C_wait \<Rightarrow> Waiting | C_stopped \<Rightarrow> Finished | _ \<Rightarrow> Working)
      else (case lpc (ldr s) of L_wait _ \<Rightarrow> Waiting | L_stopped \<Rightarrow> Finished | _ \<Rightarrow> Working))"

definition clock_sim :: "os_t \<Rightarrow> barrier \<Rightarrow> bool" where
  "clock_sim s b \<longleftrightarrow> tm b = tmr s \<and> (\<forall>d \<le> length (cpus s). dpc b d = dev_of s d)"

lemma cpu_step_dev:
  assumes "cpu_step ts dn d k t c = Some (Inr (k1, t1, c1))"
  obtains "cpc c = C_slot" "cpc c1 = C_wait" "t1 = next_slot_begin t d"
  | "cpc c = C_wait" "cpc c1 = C_top" "next_slot_over t d" "t1 = t"
  | "cpc c = C_exit" "cpc c1 = C_stopped" "t1 = detach_event t d"
  | "cpc c \<notin> {C_wait, C_stopped}" "cpc c1 \<notin> {C_wait, C_stopped}" "t1 = t"
proof -
  have "cpc c = C_slot \<and> cpc c1 = C_wait \<and> t1 = next_slot_begin t d \<or>
      cpc c = C_wait \<and> cpc c1 = C_top \<and> next_slot_over t d \<and> t1 = t \<or>
      cpc c = C_exit \<and> cpc c1 = C_stopped \<and> t1 = detach_event t d \<or>
      cpc c \<notin> {C_wait, C_stopped} \<and> cpc c1 \<notin> {C_wait, C_stopped} \<and> t1 = t"
    using assms by (cases "cpc c") (auto simp: cpu_step_def rbind_Inr_iff split: option.splits if_splits)
  with that show ?thesis by blast
qed

lemma dev_of_cpu:
  "i < length (cpus s) \<Longrightarrow> dev_of (cpu_moved s i k t c) d =
    (if d = i then (case cpc c of C_wait \<Rightarrow> Waiting | C_stopped \<Rightarrow> Finished | _ \<Rightarrow> Working) else dev_of s d)"
  by (simp add: dev_of_def cpu_moved_def)

lemma sim_step: "bar_step b b' \<Longrightarrow> clock_sim s b' \<Longrightarrow> \<exists>b'. bar_step\<^sup>*\<^sup>* b b' \<and> clock_sim s b'"
  by blast

lemma cpu_clock:
  assumes i: "i < length (cpus s)" and st: "cpu_step ts dn i (kst s) (tmr s) (cpus s ! i) = Some (Inr (k1, t1, c1))"
    and sim: "clock_sim s b" and dl: "set (dev_list (tm b)) = {..length (cpus s)}"
  shows "\<exists>b'. bar_step\<^sup>*\<^sup>* b b' \<and> clock_sim (cpu_moved s i k1 t1 c1) b'"
proof -
  let ?s = "cpu_moved s i k1 t1 c1"
  have len: "length (cpus (cpu_moved s i k t c)) = length (cpus s)" "tmr (cpu_moved s i k t c) = t" for k t c
    by (simp_all add: cpu_moved_def)
  have tm: "tm b = tmr s" and d: "i \<in> set (dev_list (tm b))" and dp: "dpc b i = dev_of s i"
      and other: "\<And>d. d \<le> length (cpus s) \<Longrightarrow> dpc b d = dev_of s d"
    using sim dl i by (simp_all add: clock_sim_def)
  have here: "dev_of s i = (case cpc (cpus s ! i) of C_wait \<Rightarrow> Waiting | C_stopped \<Rightarrow> Finished | _ \<Rightarrow> Working)"
    using i by (simp add: dev_of_def)
  note sims = clock_sim_def len dev_of_cpu [OF i] other
  from st show ?thesis
  proof (cases rule: cpu_step_dev)
    case 1
    then have "bar_step b (b\<lparr>tm := next_slot_begin (tm b) i, dpc := (dpc b)(i := Waiting)\<rparr>)"
      by (intro slot_begin d) (simp add: dp here)
    then show ?thesis
      by (rule sim_step) (simp add: sims 1 tm)
  next
    case 2
    then have "bar_step b (b\<lparr>dpc := (dpc b)(i := Working), rounds := (rounds b)(i := Suc (rounds b i))\<rparr>)"
      by (intro slot_over d) (simp_all add: dp here tm)
    then show ?thesis
      by (rule sim_step) (simp add: sims 2 tm)
  next
    case 3
    then have "bar_step b (b\<lparr>tm := detach_event (tm b) i, dpc := (dpc b)(i := Finished)\<rparr>)"
      by (intro detach d) (simp add: dp here)
    then show ?thesis
      by (rule sim_step) (simp add: sims 3 tm)
  next
    case 4
    then have "dev_of s i = Working" "dev_of ?s i = Working"
      by (auto simp: here dev_of_cpu [OF i] split: cpu_pc.splits)
    then have "clock_sim ?s b"
      using 4(3) dev_of_cpu [OF i, of k1 t1 c1] by (auto simp: clock_sim_def len tm other)
    then show ?thesis by blast
  qed
qed

lemma ld_clock:
  assumes "ld_step cf s s'" and sim: "clock_sim s b" and dl: "set (dev_list (tm b)) = {..length (cpus s)}"
  shows "\<exists>b'. bar_step\<^sup>*\<^sup>* b b' \<and> clock_sim s' b'"
proof -
  let ?n = "length (cpus s)"
  have tm: "tm b = tmr s" and d: "?n \<in> set (dev_list (tm b))" and dp: "dpc b ?n = dev_of s ?n"
      and other: "\<And>d. d \<le> length (cpus s) \<Longrightarrow> dpc b d = dev_of s d"
    using sim dl by (simp_all add: clock_sim_def)
  note sims = clock_sim_def dev_of_def tm other
  from assms(1) show ?thesis
  proof (cases rule: ld_step.cases)
    case (ld_slot x)
    then have "bar_step b (b\<lparr>tm := next_slot_begin (tm b) ?n, dpc := (dpc b)(?n := Waiting)\<rparr>)"
      by (intro slot_begin d) (simp add: dp dev_of_def)
    then show ?thesis
      by (rule sim_step) (simp add: sims ld_slot)
  next
    case (ld_wait x)
    then have "bar_step b (b\<lparr>dpc := (dpc b)(?n := Working), rounds := (rounds b)(?n := Suc (rounds b ?n))\<rparr>)"
      by (intro slot_over d) (simp_all add: dp tm dev_of_def)
    then show ?thesis
      by (rule sim_step) (simp add: sims ld_wait)
  next
    case ld_exit
    then have "bar_step b (b\<lparr>tm := detach_event (tm b) ?n, dpc := (dpc b)(?n := Finished)\<rparr>)"
      by (intro detach d) (simp add: dp dev_of_def)
    then show ?thesis
      by (rule sim_step) (simp add: sims ld_exit)
  qed (rule exI [of _ b], simp add: sims)+
qed

lemma os_step_cpus: "os_step cf s s' \<Longrightarrow> length (cpus s') = length (cpus s)"
  by (induction rule: os_step.induct) (auto simp: cpu_moved_def elim!: ld_step.cases main_step.cases)

text \<open>
  What \<open>main\<close> knows when it has joined threads, and that it releases the devices only when it returns.
\<close>

definition main_ok :: "os_t \<Rightarrow> bool" where
  "main_ok s \<longleftrightarrow> (case mpc s of M_join i \<Rightarrow> \<forall>j < min i (length (cpus s)). cpc (cpus s ! j) = C_stopped | _ \<Rightarrow> all_stopped s) \<and>
     (mpc s = M_end \<longrightarrow> exited s \<and> tpc (tmr s) = T_exit \<and> dev_list (tmr s) = []) \<and>
     (exited s \<longrightarrow> mpc s = M_end \<or> lpc (ldr s) = L_load) \<and> (\<not> exited s \<longrightarrow> set (dev_list (tmr s)) = {..length (cpus s)})"

lemma stopped_stays:
  assumes st: "os_step cf s s'"
  shows "(\<forall>j < length (cpus s). cpc (cpus s ! j) = C_stopped \<longrightarrow> cpc (cpus s' ! j) = C_stopped) \<and>
    (lpc (ldr s) = L_stopped \<longrightarrow> lpc (ldr s') = L_stopped)"
  using st
proof (cases rule: os_step.cases)
  case (os_cpu i k1 t1 c1)
  have "cpc (cpus s ! i) \<noteq> C_stopped"
    using os_cpu(4) by (auto simp: cpu_step_def)
  then show ?thesis
    by (auto simp: os_cpu(1) cpu_moved_def) (metis nth_list_update_neq)
next
  case os_ld
  from os_ld(2) show ?thesis
    by (cases rule: ld_step.cases) simp_all
next
  case os_main
  from os_main(2) show ?thesis
    by (cases rule: main_step.cases) simp_all
qed simp

lemma all_stopped_step: "os_step cf s s' \<Longrightarrow> all_stopped s \<Longrightarrow> all_stopped s'"
  using stopped_stays [of cf s s'] os_step_cpus [of cf s s'] by (simp add: all_stopped_def list_all_length)

lemma cpu_step_devs: "cpu_step ts dn d k t c = Some (Inr (k1, t1, c1)) \<Longrightarrow> dev_list t1 = dev_list t"
  by (erule cpu_step_dev) (simp_all add: next_slot_begin_def detach_event_def)

lemma os_step_devs:
  assumes "os_step cf s s'"
  shows "exited s' \<or> dev_list (tmr s') = dev_list (tmr s)"
  using assms
proof (cases rule: os_step.cases)
  case (os_cpu i k1 t1 c1)
  with cpu_step_devs [OF os_cpu(4)] show ?thesis
    by (simp add: cpu_moved_def)
next
  case (os_timer t1)
  with timer_step_devs [OF os_timer(3)] show ?thesis
    by simp
qed (auto simp: next_slot_begin_def detach_event_def stop_request_def elim!: ld_step.cases main_step.cases)

lemma main_ok_step:
  assumes st: "os_step cf s s'" and ok: "main_ok s"
  shows "main_ok s'"
proof -
  have ex: "\<not> exited s"
    using st by (cases rule: os_step.cases)
  have dl: "\<not> exited s' \<longrightarrow> set (dev_list (tmr s')) = {..length (cpus s')}"
    using os_step_devs [OF st] os_step_cpus [OF st] ok ex by (auto simp: main_ok_def)
  show ?thesis
  proof (cases "main_step s s'")
    case True
    then show ?thesis
      using ok dl ex
      by (cases rule: main_step.cases) (auto simp: main_ok_def all_stopped_def list_all_length less_Suc_eq stop_join_def split: if_splits)
  next
    case False
    with st have "mpc s' = mpc s" "exited s' \<longrightarrow> lpc (ldr s') = L_load"
      by (cases rule: os_step.cases; auto simp: cpu_moved_def elim!: ld_step.cases)+
    with ok dl ex show ?thesis
      using stopped_stays [OF st] all_stopped_step [OF st] os_step_cpus [OF st]
      by (auto simp: main_ok_def split: main_pc.splits)
  qed
qed

lemma main_clock:
  assumes "main_step s s'" and sim: "clock_sim s b" and ok: "main_ok s" and dl: "set (dev_list (tm b)) = {..length (cpus s)}"
  shows "\<exists>b'. bar_step\<^sup>*\<^sup>* b b' \<and> clock_sim s' b'"
  using assms(1)
proof (cases rule: main_step.cases)
  case main_stop
  then have "\<forall>d \<in> set (dev_list (tm b)). dpc b d = Finished"
    using sim ok dl by (auto simp: clock_sim_def dev_of_def main_ok_def all_stopped_def list_all_length)
  then have "bar_step b (b\<lparr>tm := stop_request (tm b)\<rparr>)"
    by (rule stop)
  then show ?thesis
    by (rule sim_step) (use main_stop sim in \<open>simp add: clock_sim_def dev_of_def\<close>)
next
  case (main_end t1)
  have "bar_step b (b\<lparr>tm := t1\<rparr>)"
    by (rule join) (use main_end sim in \<open>simp add: clock_sim_def\<close>)
  then show ?thesis
    by (rule sim_step) (use main_end sim in \<open>simp add: clock_sim_def dev_of_def\<close>)
qed (rule exI [of _ b], use sim in \<open>simp add: clock_sim_def dev_of_def\<close>)+

lemma os_clock:
  assumes st: "os_step cf s s'" and sim: "clock_sim s b" and ok: "main_ok s"
  shows "\<exists>b'. bar_step\<^sup>*\<^sup>* b b' \<and> clock_sim s' b'"
proof -
  have "\<not> exited s"
    using st by (cases rule: os_step.cases)
  then have dl: "set (dev_list (tm b)) = {..length (cpus s)}"
    using sim ok by (simp add: clock_sim_def main_ok_def)
  from st show ?thesis
  proof (cases rule: os_step.cases)
    case (os_cpu i k1 t1 c1)
    then show ?thesis
      using cpu_clock [OF os_cpu(3,4) sim dl] by simp
  next
    case os_ld
    then show ?thesis
      using ld_clock [OF _ sim dl] by simp
  next
    case (os_timer t1)
    have "bar_step b (b\<lparr>tm := t1, ticks := if is_tick (tm b) then Suc (ticks b) else ticks b\<rparr>)"
      by (rule timer) (use os_timer sim in \<open>simp add: clock_sim_def\<close>)
    then show ?thesis
      by (rule sim_step) (use os_timer sim in \<open>simp add: clock_sim_def dev_of_def\<close>)
  next
    case os_main
    then show ?thesis
      using main_clock [OF _ sim ok dl] by simp
  qed
qed

lemma clock_start:
  assumes "os_start cf d blocks = Inr s"
  shows "clock_sim s (bar_init (Suc (length (cpus s)))) \<and> main_ok s"
proof -
  have s: "tmr s = tm (bar_init (Suc (length (cpus s))))" "\<forall>c \<in> set (cpus s). cpc c = C_top" "lpc (ldr s) = L_load"
      "mpc s = M_join 0"
    using assms by (auto simp: os_start_def Let_def rbind_Inr_iff bar_init_def)
  then have "clock_sim s (bar_init (Suc (length (cpus s))))"
    by (auto simp: clock_sim_def dev_of_def) (simp_all add: bar_init_def)
  with s bar_init_ok(2) [of "Suc (length (cpus s))"] show ?thesis
    by (simp add: main_ok_def lessThan_Suc_atMost)
qed

lemma clock_reach:
  assumes "os_start cf d blocks = Inr s0" and "(os_step cf)\<^sup>*\<^sup>* s0 s"
  shows "main_ok s \<and> (\<exists>b. bar_step\<^sup>*\<^sup>* (bar_init (Suc (length (cpus s)))) b \<and> clock_sim s b)"
  using assms(2)
proof (induction rule: rtranclp_induct)
  case base
  show ?case
    using clock_start [OF assms(1)] by blast
next
  case (step s s')
  then obtain b where b: "bar_step\<^sup>*\<^sup>* (bar_init (Suc (length (cpus s)))) b" "clock_sim s b" and ok: "main_ok s"
    by blast
  from os_clock [OF step(2) b(2) ok] obtain b' where "bar_step\<^sup>*\<^sup>* b b'" "clock_sim s' b'"
    by blast
  with b(1) os_step_cpus [OF step(2)] main_ok_step [OF step(2) ok] show ?case
    by (metis rtranclp_trans)
qed

subsection \<open>After the last process\<close>

text \<open>A CPU without a process that is in the part of its loop before the flag \<open>done\<close> is read.\<close>

definition idle :: "os_t \<Rightarrow> nat \<Rightarrow> bool" where
  "idle s i \<longleftrightarrow> i < length (cpus s) \<and> cproc (cpus s ! i) = None \<and> cpc (cpus s ! i) \<in> {C_top, C_slot, C_wait}"

definition all_ended :: "os_t \<Rightarrow> bool" where
  "all_ended s \<longleftrightarrow> kheap (kst s) = {} \<and> lpc (ldr s) \<in> {L_done, L_exit, L_stopped}"

lemma k_get_empty:
  assumes "kernel_ok k" and "kheap k = {}"
  obtains k' where "k_get k = Inr (None, k')" "kheap k' = {}"
proof (cases rule: k_get_ok [OF assms(1)])
  case (1 k')
  with assms(2) that show ?thesis by simp
next
  case (2 p k')
  then have "p \<in> set (running (ksched k))"
    using trackedD(3) [OF kernel_okD(3) [OF assms(1)]] by (auto simp: queued_def)
  with kernel_okD(4) [OF assms(1)] assms(2) show ?thesis by auto
qed

lemma cpu_step_ended:
  assumes "kernel_ok k" and "cpu_ok ts k c" and "kheap k = {}" and "cpu_step ts dn i k t c = Some (Inr (k1, t1, c1))"
  shows "kheap k1 = {}" "cpc c \<in> {C_top, C_slot, C_wait} \<Longrightarrow> cproc c1 = None \<and> cpc c1 \<in> {C_top, C_slot, C_wait}"
proof -
  obtain k' where k': "k_get k = Inr (None, k')" "kheap k' = {}"
    using k_get_empty [OF assms(1,3)] .
  have "cproc c = None" "cpc c \<in> {C_top, C_get, C_check, C_slot, C_wait, C_exit, C_stopped}"
    using assms(2,3) by (auto simp: cpu_ok_def split: option.splits)
  with k' assms(3,4) show "kheap k1 = {}" "cpc c \<in> {C_top, C_slot, C_wait} \<Longrightarrow> cproc c1 = None \<and> cpc c1 \<in> {C_top, C_slot, C_wait}"
    by (auto simp: cpu_step_def split: if_splits)
qed

lemma idle_step:
  assumes "os_step cf s s'" and "os_ok cf s" and "all_ended s" and "idle s i"
  shows "all_ended s' \<and> idle s' i"
  using assms(1)
proof (cases rule: os_step.cases)
  case (os_cpu j k1 t1 c1)
  have "kernel_ok (kst s)" "cpu_ok (time_slot cf) (kst s) (cpus s ! j)" "kheap (kst s) = {}"
    using assms(2,3) os_cpu(3) by (simp_all add: os_ok_def all_ended_def)
  from cpu_step_ended [OF this os_cpu(4)] assms(3,4) os_cpu(1) show ?thesis
    by (cases "i = j") (auto simp: all_ended_def idle_def cpu_moved_def)
next
  case os_ld
  from os_ld(2) assms(3,4) show ?thesis
    by (cases rule: ld_step.cases) (auto simp: all_ended_def idle_def)
qed (use assms in \<open>auto simp: all_ended_def idle_def elim!: main_step.cases\<close>)

interpretation idle_inv: transition_invariant "os_step cf" "\<lambda>s. conf_ok cf \<and> os_ok cf s \<and> all_ended s \<and> idle s i" for cf i
  by unfold_locales (use os_step_ok idle_step in blast)

subsection \<open>An example\<close>

text \<open>A configuration with one CPU and one process, whose program is \<open>prog\<close>.\<close>

definition files1 :: "inst_t list \<Rightarrow> string \<Rightarrow> string option" where
  "files1 prog f =
     (if f = ''input/os'' then Some (show_config 2 1 [] [(0, ''s0'', 5)])
      else if f = ''input/proc/s0'' then Some (show_prog 1 prog) else None)"

definition cf1 :: "inst_t list \<Rightarrow> conf_t" where
  "cf1 prog = \<lparr>time_slot = 2, num_cpus = 1, memramsz = 0x100000, memswpsz = [0x1000000, 0, 0, 0],
     ld_path = [''input/proc/s0''], start_time = [0], ld_prio = [5], files = files1 prog\<rparr>"

lemma cf1_read: "main_conf (files1 prog) [''os'', ''os''] = Some (cf1 prog)"
proof -
  have "read_config (files1 prog) ''input/os'' = Some (cf1 prog)"
    by (subst read_show [of _ _ 2 1 "[]" "[(0, ''s0'', 5)]"])
      (simp_all add: files1_def cf1_def INT_MAX_def name_ok_def no_number_def isdigit_def isspace_def fun_eq_iff)
  then show ?thesis
    by (simp add: main_conf_def)
qed

lemma cf1_load:
  assumes "length prog < 2 ^ 32"
  obtains b where "load (files (cf1 prog)) pid0 junk ''input/proc/s0'' = Some (b, pid0 + 1)" "killed b = 0" "pc b = 0"
    "code_size (code b) = of_nat (length prog)" "code_text (code b) = map (\<lambda>(j, ins). on_file (junk j) ins) (enumerate 0 prog)"
  using load_show [OF _ assms, of "files1 prog" "''input/proc/s0''" 1 pid0 junk] by (auto simp: files1_def cf1_def)

lemma cf1_limits:
  assumes "length prog < 2 ^ 32" and "\<And>junk. list_all (\<lambda>(j, ins). ins_ok (on_file (junk j) ins)) (enumerate 0 prog)"
    and "\<And>junk. sum_list (map (\<lambda>(j, ins). demand (on_file (junk j) ins)) (enumerate 0 prog)) \<le> 4194304"
  shows "limits_ok (cf1 prog)"
proof -
  have "list_all ins_ok (code_text (code b)) \<and> demand_left b \<le> 4194304"
    if "load (files (cf1 prog)) pid0 junk ''input/proc/s0'' = Some (b, pid')" for pid0 junk b pid'
  proof -
    obtain b0 where b0: "load (files (cf1 prog)) pid0 junk ''input/proc/s0'' = Some (b0, pid0 + 1)" "pc b0 = 0"
        "code_text (code b0) = map (\<lambda>(j, ins). on_file (junk j) ins) (enumerate 0 prog)"
      using cf1_load [OF assms(1), of pid0 junk] by metis
    with that have "b = b0"
      by simp
    with b0 assms(2,3) [of junk] show ?thesis
      by (simp add: list_all_iff demand_left_def comp_def case_prod_unfold)
  qed
  then show ?thesis
    by (simp add: limits_ok_def cf1_def)
qed

text \<open>The life of a process without instructions.\<close>

lemma k_add_block:
  assumes "k_add k p b = Inr k'"
  shows "code (kpcb k' p) = code b" "pc (kpcb k' p) = pc b" "killed (kpcb k' p) = killed b"
proof -
  let ?k1 = "(set_pcb k p (b\<lparr>pmm := init_mm\<rparr>))\<lparr>kheap := insert p (kheap k)\<rparr>"
  obtain s where "add_proc (ksched ?k1) p = Inr s" "k' = ?k1\<lparr>ksched := s\<rparr>"
    using assms by (auto simp: k_add_def Let_def rbind_Inr_iff)
  then show "code (kpcb k' p) = code b" "pc (kpcb k' p) = pc b" "killed (kpcb k' p) = killed b"
    using add_proc_block [of "ksched ?k1" p s] by simp_all
qed

lemma one_process_kernel:
  assumes ok: "kernel_ok k0" and none: "kheap k0 = {}" and b: "loadable b" "killed b = 0" "pc b = code_size (code b)"
  obtains k1 k2 k3 k4 k5 where "k_add k0 0 b = Inr k1" "k_get k1 = Inr (Some 0, k2)" "deref k2 0 = Inr (kpcb k2 0)"
    "killed (kpcb k2 0) = 0" "pc (kpcb k2 0) = code_size (code (kpcb k2 0))" "run k2 0 = Inr (1, k2)"
    "k_finish k2 0 = Inr k3" "free_pcb k3 (Some 0) = Inr k4" "k_get k4 = Inr (None, k5)" "kheap k5 = {}"
proof -
  have nq: "\<not> queued (ksched k0) q" for q
    using kernel_okD(7) [OF ok] none by (auto simp: queued_def)
  have nr: "running (ksched k0) = []"
    using kernel_okD(4) [OF ok] none by simp
  obtain k1 where k1: "k_add k0 0 b = Inr k1" "kernel_ok k1" "kheap k1 = insert 0 (kheap k0)"
      "running (ksched k1) = running (ksched k0) @ [0]" "\<And>q. queued (ksched k1) q \<longleftrightarrow> queued (ksched k0) q \<or> q = 0"
    by (rule k_add_ok [OF ok, of 0 b]) (use none b(1) in simp_all)
  obtain k2 where k2: "k_get k1 = Inr (Some 0, k2)" "kernel_ok k2" "kheap k2 = kheap k1" "pcbs (ksched k2) = pcbs (ksched k1)"
      "running (ksched k2) = running (ksched k1)" "\<not> queued (ksched k2) 0"
  proof (cases rule: k_get_ok [OF k1(2)])
    case 1
    with k1(5) show ?thesis by blast
  next
    case (2 p k')
    with k1(5) nq have "p = 0" by simp
    with 2 that show ?thesis by simp
  qed
  have blk: "killed (kpcb k2 0) = 0" "pc (kpcb k2 0) = code_size (code (kpcb k2 0))"
    using k_add_block [OF k1(1)] k2(4) b by simp_all
  obtain k3 where k3: "k_finish k2 0 = Inr k3" "kernel_ok k3" "kheap k3 = kheap k2" "running (ksched k3) = remove1 0 (running (ksched k2))"
    by (rule k_finish_ok [OF k2(2,6)])
  have h: "kheap k3 = {0}" "0 \<notin> set (running (ksched k3))"
    using k1(3,4) k2(3,5) k3(3,4) none nr by simp_all
  obtain k4 where k4: "free_pcb k3 (Some 0) = Inr k4" "kernel_ok k4" "kheap k4 = kheap k3 - {0}"
    by (rule free_pcb_ok [OF k3(2) _ h(2)]) (use h(1) in simp_all)
  obtain k5 where k5: "k_get k4 = Inr (None, k5)" "kheap k5 = {}"
    by (rule k_get_empty [OF k4(2)]) (use k4(3) h(1) in simp_all)
  have "deref k2 0 = Inr (kpcb k2 0)" "run k2 0 = Inr (1, k2)"
    using blk k1(3) k2(3) by (simp_all add: deref_def run_def)
  with k1(1) k2(1) blk k3(1) k4(1) k5 show ?thesis
    by (intro that)
qed

lemma timer_run_steps:
  "timer_run n t = Some t' \<Longrightarrow> tmr s = t \<Longrightarrow> \<not> exited s \<Longrightarrow> (os_step cf)\<^sup>*\<^sup>* s (s\<lparr>tmr := t'\<rparr>)"
proof (induction n arbitrary: t s)
  case (Suc n)
  then obtain t1 where t1: "timer_step t = Some t1" "timer_run n t1 = Some t'"
    by (auto split: option.splits)
  have "os_step cf s (s\<lparr>tmr := t1\<rparr>)"
    by (rule os_timer) (use t1(1) Suc.prems in simp_all)
  moreover have "(os_step cf)\<^sup>*\<^sup>* (s\<lparr>tmr := t1\<rparr>) (s\<lparr>tmr := t1\<rparr>\<lparr>tmr := t'\<rparr>)"
    by (rule Suc.IH [OF t1(2)]) (use Suc.prems in simp_all)
  ultimately show ?case
    by simp
qed (auto intro: os_t.equality)

abbreviation one_cpu_at :: "bool \<Rightarrow> kernel \<Rightarrow> timer_t \<Rightarrow> cpu_t \<Rightarrow> ld_t \<Rightarrow> os_t" where
  "one_cpu_at dn k t c l \<equiv> \<lparr>kst = k, tmr = t, cpus = [c], ldr = l, all_loaded = dn, mpc = M_join 0, exited = False\<rparr>"

abbreviation one_cpu :: "kernel \<Rightarrow> timer_t \<Rightarrow> cpu_t \<Rightarrow> ld_t \<Rightarrow> os_t" where
  "one_cpu \<equiv> one_cpu_at False"

abbreviation cpu_at :: "pcb_ptr option \<Rightarrow> int \<Rightarrow> cpu_pc \<Rightarrow> cpu_t" where
  "cpu_at p n at \<equiv> \<lparr>cproc = p, time_left = n, cpc = at\<rparr>"

abbreviation ld_at :: "nat \<Rightarrow> pcb_t \<Rightarrow> u32 \<Rightarrow> ld_pc \<Rightarrow> ld_t" where
  "ld_at i b a at \<equiv> \<lparr>li = i, lpcb = b, avail_pid = a, lpc = at\<rparr>"

lemma one_cpu_step:
  assumes "cpu_step (time_slot cf) dn 0 k t c = Some (Inr (k1, t1, c1))"
  shows "os_step cf (one_cpu_at dn k t c l) (one_cpu_at dn k1 t1 c1 l)"
  using os_cpu [of "one_cpu_at dn k t c l" 0 cf k1 t1 c1] assms by (simp add: cpu_moved_def)

lemma loader_first_slot:
  assumes b: "load (files (cf1 [])) 1 junk ''input/proc/s0'' = Some (b, 2)" and k: "k_add k0 0 (b\<lparr>prio := 5\<rparr>) = Inr k1" "kheap k0 = {}"
    and t: "current_time t = 0"
  shows "(os_step (cf1 []))\<^sup>*\<^sup>* (one_cpu k0 t c (ld_at 0 b0 1 L_load))
    (one_cpu k1 (next_slot_begin t 1) c (ld_at 1 (b\<lparr>prio := 5\<rparr>) 2 (L_wait False)))"
proof -
  let ?cf = "cf1 []" and ?l = "\<lambda>i. ld_at i (b\<lparr>prio := 5\<rparr>) 2"
  note L = os_ld [where cf = ?cf]
  have "os_step ?cf (one_cpu k0 t c (ld_at 0 b0 1 L_load)) (one_cpu k0 t c (?l 0 L_time))"
    using L [OF _ ld_next [of "one_cpu k0 t c (ld_at 0 b0 1 L_load)" ?cf junk b 2]] b by (simp add: cf1_def)
  moreover have "os_step ?cf (one_cpu k0 t c (?l 0 L_time)) (one_cpu k0 t c (?l 0 L_add))"
    using L [OF _ ld_time [of "one_cpu k0 t c (?l 0 L_time)" ?cf]] by (simp add: cf1_def t)
  moreover have "os_step ?cf (one_cpu k0 t c (?l 0 L_add)) (one_cpu k1 t c (?l 1 (L_slot False)))"
    using L [OF _ ld_add [of "one_cpu k0 t c (?l 0 L_add)" 0 k1 ?cf]] k by simp
  moreover have "os_step ?cf (one_cpu k1 t c (?l 1 (L_slot False))) (one_cpu k1 (next_slot_begin t 1) c (?l 1 (L_wait False)))"
    using L [OF _ ld_slot [of "one_cpu k1 t c (?l 1 (L_slot False))" False ?cf]] by simp
  ultimately show ?thesis
    by (meson converse_rtranclp_into_rtranclp rtranclp.rtrancl_refl)
qed

lemma cpu_first_slot:
  assumes "k_get k1 = Inr (Some p, k2)" and "deref k2 p = Inr b" and "run k2 p = Inr (v, k2)"
  shows "(os_step (cf1 []))\<^sup>*\<^sup>* (one_cpu k1 t (cpu_at None 0 C_top) l) (one_cpu k2 (next_slot_begin t 0) (cpu_at (Some p) 1 C_wait) l)"
proof -
  let ?cf = "cf1 []"
  have "os_step ?cf (one_cpu k1 t (cpu_at None 0 C_top) l) (one_cpu k2 t (cpu_at (Some p) 0 C_check) l)"
    by (rule one_cpu_step) (simp add: cpu_step_def assms)
  moreover have "os_step ?cf (one_cpu k2 t (cpu_at (Some p) 0 C_check) l) (one_cpu k2 t (cpu_at (Some p) 2 C_run) l)"
    by (rule one_cpu_step) (simp add: cpu_step_def assms cf1_def)
  moreover have "os_step ?cf (one_cpu k2 t (cpu_at (Some p) 2 C_run) l) (one_cpu k2 t (cpu_at (Some p) 1 C_slot) l)"
    by (rule one_cpu_step) (simp add: cpu_step_def nonnull_def assms chk_int_def INT_MAX_def INT_MIN_def)
  moreover have "os_step ?cf (one_cpu k2 t (cpu_at (Some p) 1 C_slot) l) (one_cpu k2 (next_slot_begin t 0) (cpu_at (Some p) 1 C_wait) l)"
    by (rule one_cpu_step) (simp add: cpu_step_def)
  ultimately show ?thesis
    by (meson converse_rtranclp_into_rtranclp rtranclp.rtrancl_refl)
qed

lemma cpu_last_slot:
  assumes "next_slot_over t 0" and "deref k2 p = Inr b" "killed b = 0" "pc b = code_size (code b)"
    and "k_finish k2 p = Inr k3" "free_pcb k3 (Some p) = Inr k4" "k_get k4 = Inr (None, k5)"
  shows "(os_step (cf1 []))\<^sup>*\<^sup>* (one_cpu_at dn k2 t (cpu_at (Some p) 1 C_wait) l) (one_cpu_at dn k5 t (cpu_at None 0 (if dn then C_exit else C_slot)) l)"
proof -
  let ?cf = "cf1 []"
  have "os_step ?cf (one_cpu_at dn k2 t (cpu_at (Some p) 1 C_wait) l) (one_cpu_at dn k2 t (cpu_at (Some p) 1 C_top) l)"
    by (rule one_cpu_step) (simp add: cpu_step_def assms)
  moreover have "os_step ?cf (one_cpu_at dn k2 t (cpu_at (Some p) 1 C_top) l) (one_cpu_at dn k2 t (cpu_at (Some p) 1 C_finish) l)"
    by (rule one_cpu_step) (simp add: cpu_step_def assms)
  moreover have "os_step ?cf (one_cpu_at dn k2 t (cpu_at (Some p) 1 C_finish) l) (one_cpu_at dn k3 t (cpu_at (Some p) 1 C_free) l)"
    by (rule one_cpu_step) (simp add: cpu_step_def nonnull_def assms)
  moreover have "os_step ?cf (one_cpu_at dn k3 t (cpu_at (Some p) 1 C_free) l) (one_cpu_at dn k4 t (cpu_at None 0 C_get) l)"
    by (rule one_cpu_step) (simp add: cpu_step_def assms)
  moreover have "os_step ?cf (one_cpu_at dn k4 t (cpu_at None 0 C_get) l) (one_cpu_at dn k5 t (cpu_at None 0 C_check) l)"
    by (rule one_cpu_step) (simp add: cpu_step_def assms)
  moreover have "os_step ?cf (one_cpu_at dn k5 t (cpu_at None 0 C_check) l) (one_cpu_at dn k5 t (cpu_at None 0 (if dn then C_exit else C_slot)) l)"
    by (rule one_cpu_step) (simp add: cpu_step_def)
  ultimately show ?thesis
    by (meson converse_rtranclp_into_rtranclp rtranclp.rtrancl_refl)
qed

lemma loader_last_slot:
  assumes "next_slot_over t 1"
  shows "(os_step (cf1 []))\<^sup>*\<^sup>* (one_cpu k t c (ld_at 1 b a (L_wait False))) (one_cpu k t c (ld_at 1 b a L_done))"
proof -
  let ?s = "one_cpu k t c (ld_at 1 b a (L_wait False))" and ?s1 = "one_cpu k t c (ld_at 1 b a L_load)"
  have "os_step (cf1 []) ?s ?s1"
    using os_ld [OF _ ld_wait [of ?s False "cf1 []"]] assms by simp
  moreover have "os_step (cf1 []) ?s1 (one_cpu k t c (ld_at 1 b a L_done))"
    using os_ld [OF _ ld_all [of ?s1 "cf1 []"]] by (simp add: cf1_def)
  ultimately show ?thesis
    by simp
qed

lemma cf1_ok: "conf_ok (cf1 [])"
  using cf1_limits [of "[]"] by (simp add: conf_ok_def cf1_def INT_MAX_def)

text \<open>The first slot of the example: the process is loaded and run once.\<close>

lemma second_slot:
  assumes s0: "os_start (cf1 []) d blocks = Inr s0"
  obtains k2 k3 k4 k5 t b where
    "(os_step (cf1 []))\<^sup>*\<^sup>* s0 (one_cpu k2 t (cpu_at (Some 0) 1 C_wait) (ld_at 1 b 2 L_done))"
    "next_slot_over t 0" "deref k2 0 = Inr (kpcb k2 0)" "killed (kpcb k2 0) = 0" "pc (kpcb k2 0) = code_size (code (kpcb k2 0))"
    "k_finish k2 0 = Inr k3" "free_pcb k3 (Some 0) = Inr k4" "k_get k4 = Inr (None, k5)" "kheap k5 = {}"
proof -
  let ?cf = "cf1 []" and ?t0 = "tm (bar_init 2)" and ?c = "cpu_at None 0 C_top"
  obtain k0 where start: "s0 = one_cpu k0 ?t0 ?c (ld_at 0 (blocks 0) 1 L_load)"
    using s0 by (auto simp: os_start_def Let_def rbind_Inr_iff cf1_def bar_init_def numeral_2_eq_2)
  have k0: "kernel_ok k0" "kheap k0 = {}"
  proof -
    obtain s1 where "os_start ?cf d blocks = Inr s1" "os_ok ?cf s1" "kheap (kst s1) = {}"
      by (rule os_start_ok [OF cf1_ok])
    with s0 show "kernel_ok k0" "kheap k0 = {}"
      by (simp_all add: os_ok_def start)
  qed
  obtain b where b: "load (files ?cf) 1 junk ''input/proc/s0'' = Some (b, 2)" "killed b = 0" "pc b = code_size (code b)"
    by (rule cf1_load [of "[]" 1 junk]) simp_all
  have lb: "loadable (b\<lparr>prio := 5\<rparr>)"
    using load_loadable [OF cf1_ok, of 0 1 junk b 2 5] b(1) by (simp add: cf1_def)
  obtain k1 k2 k3 k4 k5 where K: "k_add k0 0 (b\<lparr>prio := 5\<rparr>) = Inr k1" "k_get k1 = Inr (Some 0, k2)" "deref k2 0 = Inr (kpcb k2 0)"
      "killed (kpcb k2 0) = 0" "pc (kpcb k2 0) = code_size (code (kpcb k2 0))" "run k2 0 = Inr (1, k2)"
      "k_finish k2 0 = Inr k3" "free_pcb k3 (Some 0) = Inr k4" "k_get k4 = Inr (None, k5)" "kheap k5 = {}"
    by (rule one_process_kernel [OF k0 lb]) (use b in simp_all)
  let ?t2 = "next_slot_begin (next_slot_begin ?t0 1) 0"
  obtain t3 where t3: "timer_run 7 ?t2 = Some t3" "next_slot_over t3 0" "next_slot_over t3 1"
    using slot_run [of ?t2] by (auto simp: two_devices next_slot_begin_def next_slot_over_def)
  have "(os_step ?cf)\<^sup>*\<^sup>* (one_cpu k2 ?t2 c l) (one_cpu k2 t3 c l)" for c l
    using timer_run_steps [OF t3(1), of "one_cpu k2 ?t2 c l"] by simp
  moreover have "current_time ?t0 = 0"
    by (simp add: two_devices current_time_def)
  ultimately have "(os_step ?cf)\<^sup>*\<^sup>* s0 (one_cpu k2 t3 (cpu_at (Some 0) 1 C_wait) (ld_at 1 (b\<lparr>prio := 5\<rparr>) 2 L_done))"
    unfolding start using loader_first_slot [OF b(1) K(1) k0(2)] cpu_first_slot [OF K(2,3,6)]
      loader_last_slot [OF t3(3)] by (meson rtranclp_trans)
  with t3(2) K that show ?thesis
    by blast
qed

text \<open>The CPU of the example may end its only process before the loader sets \<open>done\<close>, or after.\<close>

lemma idle_reached:
  assumes s0: "os_start (cf1 []) d blocks = Inr s0"
  shows "\<exists>s. (os_step (cf1 []))\<^sup>*\<^sup>* s0 s \<and> all_ended s \<and> idle s 0"
proof -
  obtain k2 k3 k4 k5 t b where K: "(os_step (cf1 []))\<^sup>*\<^sup>* s0 (one_cpu k2 t (cpu_at (Some 0) 1 C_wait) (ld_at 1 b 2 L_done))"
    "next_slot_over t 0" "deref k2 0 = Inr (kpcb k2 0)" "killed (kpcb k2 0) = 0" "pc (kpcb k2 0) = code_size (code (kpcb k2 0))"
    "k_finish k2 0 = Inr k3" "free_pcb k3 (Some 0) = Inr k4" "k_get k4 = Inr (None, k5)" "kheap k5 = {}"
    by (rule second_slot [OF s0])
  let ?s = "one_cpu k5 t (cpu_at None 0 C_slot) (ld_at 1 b 2 L_done)"
  have "(os_step (cf1 []))\<^sup>*\<^sup>* s0 ?s"
    using rtranclp_trans [OF K(1) cpu_last_slot [OF K(2-8), where dn = False]] by simp
  moreover have "all_ended ?s \<and> idle ?s 0"
    by (simp add: all_ended_def idle_def K(9))
  ultimately show ?thesis
    by blast
qed

lemma stopped_reached:
  assumes s0: "os_start (cf1 []) d blocks = Inr s0"
  shows "\<exists>s. (os_step (cf1 []))\<^sup>*\<^sup>* s0 s \<and> all_stopped s"
proof -
  obtain k2 k3 k4 k5 t b where K: "(os_step (cf1 []))\<^sup>*\<^sup>* s0 (one_cpu k2 t (cpu_at (Some 0) 1 C_wait) (ld_at 1 b 2 L_done))"
    "next_slot_over t 0" "deref k2 0 = Inr (kpcb k2 0)" "killed (kpcb k2 0) = 0" "pc (kpcb k2 0) = code_size (code (kpcb k2 0))"
    "k_finish k2 0 = Inr k3" "free_pcb k3 (Some 0) = Inr k4" "k_get k4 = Inr (None, k5)" "kheap k5 = {}"
    by (rule second_slot [OF s0])
  let ?c = "cpu_at (Some 0) 1 C_wait" and ?l = "ld_at 1 b 2" and ?t = "detach_event t 0"
  have "os_step (cf1 []) (one_cpu k2 t ?c (?l L_done)) (one_cpu_at True k2 t ?c (?l L_exit))"
    using os_ld [OF _ ld_done [of "one_cpu k2 t ?c (?l L_done)" "cf1 []"]] by simp
  moreover have "(os_step (cf1 []))\<^sup>*\<^sup>* (one_cpu_at True k2 t ?c (?l L_exit)) (one_cpu_at True k5 t (cpu_at None 0 C_exit) (?l L_exit))"
    using cpu_last_slot [OF K(2-8), where dn = True] by simp
  moreover have "os_step (cf1 []) (one_cpu_at True k5 t (cpu_at None 0 C_exit) (?l L_exit)) (one_cpu_at True k5 ?t (cpu_at None 0 C_stopped) (?l L_exit))"
    by (rule one_cpu_step) (simp add: cpu_step_def)
  moreover have "os_step (cf1 []) (one_cpu_at True k5 ?t (cpu_at None 0 C_stopped) (?l L_exit))
      (one_cpu_at True k5 (detach_event ?t 1) (cpu_at None 0 C_stopped) (?l L_stopped))"
    using os_ld [OF _ ld_exit [of "one_cpu_at True k5 ?t (cpu_at None 0 C_stopped) (?l L_exit)" "cf1 []"]] by simp
  ultimately have "(os_step (cf1 []))\<^sup>*\<^sup>* s0 (one_cpu_at True k5 (detach_event ?t 1) (cpu_at None 0 C_stopped) (?l L_stopped))"
    using K(1) by (meson rtranclp_trans r_into_rtranclp)
  then show ?thesis
    by (intro exI conjI) (assumption, simp add: all_stopped_def)
qed

subsection \<open>Properties\<close>

text \<open>
  C1. The system is safe. Take any configuration \<open>main\<close> accepts within the stated limits and any number
  of CPUs, and let the CPUs, the loader and the timer run in any interleaving. In every state that is
  reached, no step of a CPU and no \<open>add_proc\<close> of the loader dereferences a process that was freed,
  accesses an array out of bounds or has other undefined behaviour; every live process is in exactly
  one place, waiting in a queue or on one CPU; and the scheduler and the memory of all processes are
  consistent.
\<close>

theorem system_safe:
  assumes "main_conf fs argv = Some cf" and "limits_ok cf"
  shows "\<exists>s0. os_start cf d blocks = Inr s0 \<and>
    (\<forall>s. (os_step cf)\<^sup>*\<^sup>* s0 s \<longrightarrow>
       (\<forall>i r. i < length (cpus s) \<and> cpu_step (time_slot cf) (all_loaded s) i (kst s) (tmr s) (cpus s ! i) = Some r \<longrightarrow> \<not> isl r) \<and>
       (\<forall>p. lpc (ldr s) = L_add \<and> p \<notin> kheap (kst s) \<longrightarrow> \<not> isl (k_add (kst s) p (lpcb (ldr s)))) \<and>
       (\<forall>p \<in> kheap (kst s). queued (ksched (kst s)) p \<noteq> (\<exists>i. holds (cpus s) i p)) \<and>
       (\<forall>i j p. holds (cpus s) i p \<and> holds (cpus s) j p \<longrightarrow> i = j \<and> p \<in> kheap (kst s)) \<and>
       kernel_ok (kst s))"
proof -
  have cf: "conf_ok cf"
    using assms by (auto simp: main_conf_def split: if_splits intro: conf_okI)
  obtain s0 where s0: "os_start cf d blocks = Inr s0" "os_ok cf s0"
    using os_start_ok [OF cf, of d blocks] by blast
  have "(\<forall>i r. i < length (cpus s) \<and> cpu_step (time_slot cf) (all_loaded s) i (kst s) (tmr s) (cpus s ! i) = Some r \<longrightarrow> \<not> isl r) \<and>
      (\<forall>p. lpc (ldr s) = L_add \<and> p \<notin> kheap (kst s) \<longrightarrow> \<not> isl (k_add (kst s) p (lpcb (ldr s)))) \<and>
      (\<forall>p \<in> kheap (kst s). queued (ksched (kst s)) p \<noteq> (\<exists>i. holds (cpus s) i p)) \<and>
      (\<forall>i j p. holds (cpus s) i p \<and> holds (cpus s) j p \<longrightarrow> i = j \<and> p \<in> kheap (kst s)) \<and> kernel_ok (kst s)"
    if r: "(os_step cf)\<^sup>*\<^sup>* s0 s" for s
  proof -
    note ok = os_steps_ok [OF r cf s0(2)]
    have held: "p \<in> kheap (kst s) \<and> \<not> queued (ksched (kst s)) p" if "holds (cpus s) i p" for i p
      using os_cpuD(7,8) [OF cf ok, of i p] that by (simp add: holds_def)
    have "\<not> isl r" if "i < length (cpus s)" "cpu_step (time_slot cf) (all_loaded s) i (kst s) (tmr s) (cpus s ! i) = Some r" for i r
      using cpu_step_ok [OF cf ok that] by auto
    moreover have "\<not> isl (k_add (kst s) p (lpcb (ldr s)))" if "lpc (ldr s) = L_add" "p \<notin> kheap (kst s)" for p
      using ld_add_ok [OF cf ok that] by auto
    moreover have "placed (kst s) (cpus s)" "kernel_ok (kst s)"
      using ok by (simp_all add: os_ok_def)
    ultimately show ?thesis
      using held unfolding placed_def by blast
  qed
  with s0(1) show ?thesis by blast
qed

theorem system_safe_witness:
  "\<exists>s0. main_conf (files1 [\<lparr>opcode = ALLOC, arg_0 = 300, arg_1 = 0, arg_2 = 0, arg_3 = 0\<rparr>]) [''os'', ''os''] =
      Some (cf1 [\<lparr>opcode = ALLOC, arg_0 = 300, arg_1 = 0, arg_2 = 0, arg_3 = 0\<rparr>]) \<and>
    os_start (cf1 [\<lparr>opcode = ALLOC, arg_0 = 300, arg_1 = 0, arg_2 = 0, arg_3 = 0\<rparr>]) (\<lambda>_. device 512) (\<lambda>_. pcb0) = Inr s0 \<and>
    kernel_ok (kst s0)"
proof -
  let ?prog = "[\<lparr>opcode = ALLOC, arg_0 = 300, arg_1 = 0, arg_2 = 0, arg_3 = 0\<rparr>]"
  have "limits_ok (cf1 ?prog)"
    by (rule cf1_limits) (simp_all add: on_file_def num_args_def ins_ok_def demand_def)
  from system_safe [OF cf1_read this, of "\<lambda>_. device 512" "\<lambda>_. pcb0"] cf1_read [of ?prog] show ?thesis
    by blast
qed

text \<open>
  C13. The threads use the clock as its barrier requires. Every run of the system is a run of the timer
  with its devices: in each state the timer is in a state of the barrier in which each CPU and the
  loader are where their device is. So all CPUs and the loader work in the same time slot, and the
  timer thread ends only after all of them have stopped.
\<close>

theorem clock_refines:
  assumes "os_start cf d blocks = Inr s0" and "(os_step cf)\<^sup>*\<^sup>* s0 s"
  shows "\<exists>b. bar_step\<^sup>*\<^sup>* (bar_init (Suc (length (cpus s)))) b \<and> tm b = tmr s \<and>
    (\<forall>i \<le> length (cpus s). dpc b i = dev_of s i \<and>
       (dev_of s i = Working \<longrightarrow> rounds b i = ticks b \<and> current_time (tmr s) = of_nat (ticks b))) \<and>
    (tpc (tmr s) = T_exit \<longrightarrow> all_stopped s)"
proof -
  obtain b where b: "bar_step\<^sup>*\<^sup>* (bar_init (Suc (length (cpus s)))) b" "clock_sim s b"
    using clock_reach [OF assms] by blast
  have S: "tm b = tmr s" "\<And>i. i \<le> length (cpus s) \<Longrightarrow> dpc b i = dev_of s i"
    using b(2) by (simp_all add: clock_sim_def)
  have A: "dpc b i = Working \<longrightarrow> rounds b i = ticks b \<and> current_time (tm b) = of_nat (rounds b i)"
      "tpc (tm b) = T_exit \<longrightarrow> dpc b i = Finished" if "i \<le> length (cpus s)" for i
    using slots_agree [OF b(1), of i] that by auto
  have "all_stopped s" if "tpc (tmr s) = T_exit"
  proof -
    have fin: "dev_of s i = Finished" if "i \<le> length (cpus s)" for i
      using A(2) [OF that] S that \<open>tpc (tmr s) = T_exit\<close> by simp
    have "cpc (cpus s ! i) = C_stopped" if "i < length (cpus s)" for i
      using fin [of i] that by (auto simp: dev_of_def split: cpu_pc.splits)
    moreover have "lpc (ldr s) = L_stopped"
      using fin [of "length (cpus s)"] by (auto simp: dev_of_def split: ld_pc.splits)
    ultimately show ?thesis
      by (simp add: all_stopped_def list_all_length)
  qed
  with b(1) S A(1) show ?thesis
    by (intro exI [of _ b]) auto
qed

theorem clock_refines_witness:
  "\<exists>s0 b. os_start (cf1 []) (\<lambda>_. device 512) (\<lambda>_. pcb0) = Inr s0 \<and> bar_step\<^sup>*\<^sup>* (bar_init 2) b \<and> tm b = tmr s0 \<and> dpc b 1 = Working"
proof -
  obtain s0 where s0: "os_start (cf1 []) (\<lambda>_. device 512) (\<lambda>_. pcb0) = Inr s0" "length (cpus s0) = nat (num_cpus (cf1 []))"
      "lpc (ldr s0) = L_load"
    by (rule os_start_ok [OF cf1_ok])
  then have "length (cpus s0) = 1" "dev_of s0 1 = Working"
    by (simp_all add: cf1_def dev_of_def)
  with clock_refines [OF s0(1) rtranclp.rtrancl_refl] s0(1) show ?thesis
    by (auto simp: numeral_2_eq_2)
qed

text \<open>
  C16. A CPU that runs out of work before the loader has ended may never stop. \<open>cpu_routine\<close> reads the
  flag \<open>done\<close> only after it has given up a process; a CPU that finds no process at the head of its loop
  skips the check. If all processes have ended and the loader has nothing left to load while a CPU is
  in this part of its loop, then in every later state this CPU is still there, so \<open>main\<close> never joins it.
\<close>

theorem idle_cpu_never_stops:
  assumes "conf_ok cf" and "os_start cf d blocks = Inr s0" and "(os_step cf)\<^sup>*\<^sup>* s0 s"
    and "all_ended s" and "idle s i" and "(os_step cf)\<^sup>*\<^sup>* s s'"
  shows "idle s' i \<and> \<not> all_stopped s'"
proof -
  have ok: "os_ok cf s"
    using os_start_ok [OF assms(1), of d blocks] os_steps_ok [OF assms(3,1)] assms(2) by (metis Inr_inject)
  have "os_ok cf s' \<and> all_ended s' \<and> idle s' i"
    using idle_inv.steps_inv [OF assms(6)] assms(1,4,5) ok by blast
  then show ?thesis
    by (auto simp: idle_def all_stopped_def list_all_length)
qed

theorem idle_cpu_never_stops_witness:
  "\<exists>s0 s. os_start (cf1 []) (\<lambda>_. device 512) (\<lambda>_. pcb0) = Inr s0 \<and> (os_step (cf1 []))\<^sup>*\<^sup>* s0 s \<and> all_ended s \<and>
    (\<forall>s'. (os_step (cf1 []))\<^sup>*\<^sup>* s s' \<longrightarrow> \<not> all_stopped s')"
proof -
  obtain s0 where s0: "os_start (cf1 []) (\<lambda>_. device 512) (\<lambda>_. pcb0) = Inr s0"
    by (rule os_start_ok [OF cf1_ok])
  obtain s where s: "(os_step (cf1 []))\<^sup>*\<^sup>* s0 s" "all_ended s" "idle s 0"
    using idle_reached [OF s0] by blast
  with s0 idle_cpu_never_stops [OF cf1_ok s0 s] show ?thesis
    by blast
qed

end
