(* ===== verification/Endtoend.thy ===== *)
theory Endtoend
  imports System
begin

text \<open>
  The memory of a process while the whole system runs. A step executes an instruction of process \<open>p\<close>
  when it is the step of a CPU that holds \<open>p\<close> from its call of \<open>run\<close> on. Every other step is quiet for
  \<open>p\<close>: whatever the other CPUs, the loader and the timer do, and wherever the scheduler moves the
  process, its registers, its program counter, its code and every byte it can read stay the same. So a
  byte a program has written is the byte it reads later, whatever its own instructions in between do to
  other bytes, and on whatever CPU it then runs.
\<close>

subsection \<open>What a step keeps of a process\<close>

definition same_proc :: "kernel \<Rightarrow> kernel \<Rightarrow> pcb_ptr \<Rightarrow> bool" where
  "same_proc k k' p \<longleftrightarrow> code (kpcb k' p) = code (kpcb k p) \<and> regs (kpcb k' p) = regs (kpcb k p) \<and>
     pmm (kpcb k' p) = pmm (kpcb k p) \<and> vmem (proc_ctx k' p) = vmem (proc_ctx k p)"

lemma same_proc_refl [simp]: "same_proc k k p"
  by (simp add: same_proc_def)

lemma same_proc_region: "same_proc k k' p \<Longrightarrow> region_mem (proc_ctx k' p) = region_mem (proc_ctx k p)"
  by (rule region_mem_cong(3)) (simp_all add: same_proc_def)

lemma same_proc_sched:
  "kpcb k' p = kpcb k p \<Longrightarrow> kram k' = kram k \<Longrightarrow> kswaps k' = kswaps k \<Longrightarrow> same_proc k k' p"
  by (simp add: same_proc_def proc_ctx_def)

lemma k_get_same:
  assumes "kernel_ok k" and "k_get k = Inr (q, k')"
  shows "same_proc k k' p"
proof -
  have "pcbs (ksched k') = pcbs (ksched k)"
    by (cases rule: k_get_ok [OF assms(1)]) (use assms(2) in auto)
  moreover have "kram k' = kram k" "kswaps k' = kswaps k"
    using assms(2) by (auto simp: k_get_def rbind_Inr_iff)
  ultimately show ?thesis
    by (simp add: same_proc_sched)
qed

lemma k_finish_same:
  assumes "kernel_ok k" and "k_finish k q = Inr k'"
  shows "same_proc k k' p"
proof -
  obtain s' where s': "k' = k\<lparr>ksched := s'\<rparr>" "finish_proc (ksched k) q = Inr s'"
    using assms(2) by (auto simp: k_finish_def rbind_Inr_iff)
  have "pcbs s' = pcbs (ksched k)"
    using finish_proc_spec [OF kernel_okD(2) [OF assms(1)], of q] s'(2) by (metis Inr_inject)
  with s'(1) show ?thesis
    by (simp add: same_proc_sched)
qed

lemma k_put_same:
  assumes "k_put k q = Inr k'"
  shows "same_proc k k' p"
proof -
  have "pcbs (ksched k') = pcbs (ksched k)" "kram k' = kram k" "kswaps k' = kswaps k"
    using assms by (auto simp: k_put_def put_proc_def put_mlq_proc_def Let_def rbind_Inr_iff)
  then show ?thesis
    by (simp add: same_proc_sched)
qed

lemma k_add_same:
  assumes "k_add k q b = Inr k'" and "p \<noteq> q"
  shows "same_proc k k' p"
proof -
  have "kpcb k' p = kpcb k p" "kram k' = kram k" "kswaps k' = kswaps k"
    using assms by (auto simp: k_add_def Let_def set_pcb_def rbind_Inr_iff add_proc_def add_mlq_proc_def put_mlq_proc_def split: if_splits)
  then show ?thesis
    by (simp add: same_proc_sched)
qed

lemma k_add_pc: "k_add k q b = Inr k' \<Longrightarrow> p \<noteq> q \<Longrightarrow> pc (kpcb k' p) = pc (kpcb k p)"
  by (auto simp: k_add_def Let_def set_pcb_def rbind_Inr_iff add_proc_def add_mlq_proc_def put_mlq_proc_def split: if_splits)

lemma free_pcb_same:
  assumes "kernel_ok k" and "q \<in> kheap k" and "q \<notin> set (running (ksched k))" and "free_pcb k (Some q) = Inr k'" and "p \<in> kheap k'"
  shows "same_proc k k' p \<and> pc (kpcb k' p) = pc (kpcb k p)"
proof -
  obtain k1 where "free_pcb k (Some q) = Inr k1" "ksched k1 = ksched k" "\<And>q. q \<in> kheap k1 \<Longrightarrow> vmem (proc_ctx k1 q) = vmem (proc_ctx k q)"
    by (rule free_pcb_ok [OF assms(1-3)]) blast
  with assms(4,5) show ?thesis
    by (simp add: same_proc_def)
qed

lemma cpu_step_kernel:
  assumes cf: "conf_ok cf" and ok: "os_ok cf s" and i: "i < length (cpus s)"
    and st: "cpu_step (time_slot cf) dn i (kst s) (tmr s) (cpus s ! i) = Some (Inr (k1, t1, c1))"
  obtains (sched) "kheap k1 = kheap (kst s)" "pcbs (ksched k1) = pcbs (ksched (kst s))" "cpc (cpus s ! i) \<notin> {C_run, C_free}"
  | (free) q where "cproc (cpus s ! i) = Some q" "kheap k1 = kheap (kst s) - {q}" "ksched k1 = ksched (kst s)" "cpc (cpus s ! i) = C_free"
      "cproc c1 = None" "cpc c1 = C_get"
  | (run) q v where "cpc (cpus s ! i) = C_run" "cproc (cpus s ! i) = Some q" "run (kst s) q = Inr (v, k1)" "cproc c1 = Some q" "cpc c1 = C_slot"
proof -
  let ?k = "kst s" and ?c = "cpus s ! i"
  note F = os_cpuD [OF cf ok i]
  have get: "kheap k' = kheap ?k \<and> pcbs (ksched k') = pcbs (ksched ?k)" if "k_get ?k = Inr (q, k')" for q k'
    by (cases rule: k_get_ok [OF F(1)]) (use that in auto)
  have fin: "kheap k' = kheap ?k \<and> pcbs (ksched k') = pcbs (ksched ?k)" if "k_finish ?k q = Inr k'" "cproc ?c = Some q" for q k'
    by (rule k_finish_ok [OF F(1) F(8) [OF that(2)]]) (use that in auto)
  have put: "kheap k' = kheap ?k \<and> pcbs (ksched k') = pcbs (ksched ?k)" if "k_put ?k q = Inr k'" for q k'
    using that by (auto simp: k_put_def put_proc_def put_mlq_proc_def Let_def rbind_Inr_iff)
  consider "cpc ?c = C_free" | "cpc ?c = C_run" | "cpc ?c \<noteq> C_free" "cpc ?c \<noteq> C_run"
    by blast
  then show ?thesis
  proof cases
    case 1
    then obtain q where q: "cproc ?c = Some q"
      using F(2) by (auto simp: cpu_ok_def split: option.splits)
    obtain k' where k': "free_pcb ?k (Some q) = Inr k'" "ksched k' = ksched ?k" "kheap k' = kheap ?k - {q}"
      by (rule free_pcb_ok [OF F(1) F(7) [OF q]]) (use F(9) [OF q] 1 in simp_all)
    with st 1 q have "k1 = k'" "c1 = ?c\<lparr>cproc := None, time_left := 0, cpc := C_get\<rparr>"
      by (simp_all add: cpu_step_def)
    with k' 1 q show ?thesis
      by (intro free [of q]) simp_all
  next
    case 2
    then obtain q where q: "cproc ?c = Some q"
      using F(2) by (auto simp: cpu_ok_def split: option.splits)
    with st 2 obtain v tl where "run ?k q = Inr (v, k1)" "c1 = ?c\<lparr>time_left := tl, cpc := C_slot\<rparr>"
      by (auto simp: cpu_step_def nonnull_def rbind_Inr_iff)
    with 2 q show ?thesis
      by (intro run [of q v]) simp_all
  next
    case 3
    with st have "kheap k1 = kheap ?k \<and> pcbs (ksched k1) = pcbs (ksched ?k)"
      by (cases "cpc ?c") (auto simp: cpu_step_def nonnull_def rbind_Inr_iff split: option.splits if_splits dest: get fin put)
    with 3 show ?thesis
      by (intro sched) simp_all
  qed
qed

lemma cpu_step_same:
  assumes cf: "conf_ok cf" and ok: "os_ok cf s" and i: "i < length (cpus s)"
    and st: "cpu_step (time_slot cf) dn i (kst s) (tmr s) (cpus s ! i) = Some (Inr (k1, t1, c1))"
    and p: "p \<in> kheap k1" and other: "\<not> (cpc (cpus s ! i) = C_run \<and> cproc (cpus s ! i) = Some p)"
  shows "same_proc (kst s) k1 p \<and> pc (kpcb k1 p) = pc (kpcb (kst s) p)"
proof -
  let ?k = "kst s" and ?c = "cpus s ! i"
  note F = os_cpuD [OF cf ok i]
  from cf ok i st show ?thesis
  proof (cases rule: cpu_step_kernel)
    case sched
    note same = k_get_same [OF F(1)] k_finish_same [OF F(1)] k_put_same
    have "same_proc ?k k1 p"
      using st sched(3) by (cases "cpc ?c") (auto simp: cpu_step_def nonnull_def rbind_Inr_iff split: option.splits if_splits intro: same)
    with sched(2) show ?thesis by simp
  next
    case (free q)
    have "free_pcb ?k (Some q) = Inr k1"
      using st free(1,4) by (auto simp: cpu_step_def rbind_Inr_iff)
    with free_pcb_same [OF F(1) F(7) [OF free(1)] _ _ p] F(9) [OF free(1)] free(3,4) show ?thesis by simp
  next
    case (run q v)
    note E = run_effect(2) [OF F(1) F(7) [OF run(2)] run(3)]
    have "p \<noteq> q"
      using other run(1,2) by auto
    then show ?thesis
      using effect_fields(3-6) [OF E, of p] effectD(8) [OF E p] by (auto simp: same_proc_def)
  qed
qed

subsection \<open>Whose step it is\<close>

definition executes :: "os_t \<Rightarrow> os_t \<Rightarrow> pcb_ptr \<Rightarrow> bool" where
  "executes s s' p \<longleftrightarrow> (\<exists>i < length (cpus s). cproc (cpus s ! i) = Some p \<and> cpc (cpus s ! i) = C_run \<and> cpc (cpus s' ! i) \<noteq> C_run)"


lemma not_executes_same:
  assumes cf: "conf_ok cf" and ok: "os_ok cf s" and os: "os_step cf s s'" and ex: "\<not> executes s s' p"
    and p: "p \<in> kheap (kst s)" "p \<in> kheap (kst s')"
  shows "same_proc (kst s) (kst s') p \<and> pc (kpcb (kst s') p) = pc (kpcb (kst s) p)"
  using os
proof (cases rule: os_step.cases)
  case (os_cpu i k1 t1 c1)
  have "cpc c1 \<noteq> C_run" if "cpc (cpus s ! i) = C_run"
    using os_cpu(4) that by (auto simp: cpu_step_def rbind_Inr_iff)
  then have "\<not> (cpc (cpus s ! i) = C_run \<and> cproc (cpus s ! i) = Some p)"
    using ex os_cpu(1,3) by (auto simp: executes_def cpu_moved_def)
  then show ?thesis
    using cpu_step_same [OF cf ok os_cpu(3,4)] p(2) os_cpu(1) by (simp add: cpu_moved_def)
next
  case os_ld
  from os_ld(2) show ?thesis
  proof (cases rule: ld_step.cases)
    case (ld_add q k1)
    then have "p \<noteq> q"
      using p(1) by auto
    with ld_add show ?thesis
      using k_add_same [of "kst s" q "lpcb (ldr s)" k1 p] k_add_pc [of "kst s" q "lpcb (ldr s)" k1 p] by simp
  qed simp_all
qed (auto elim!: main_step.cases)

subsection \<open>Quiet steps\<close>

text \<open>
  Process \<open>p\<close> is alive before and after the step, and the step executes no instruction of \<open>p\<close>.
\<close>

inductive quiet_step :: "conf_t \<Rightarrow> pcb_ptr \<Rightarrow> os_t \<Rightarrow> os_t \<Rightarrow> bool" for cf p where
  quiet: "os_step cf s s' \<Longrightarrow> p \<in> kheap (kst s) \<Longrightarrow> p \<in> kheap (kst s') \<Longrightarrow> \<not> executes s s' p \<Longrightarrow> quiet_step cf p s s'"

inductive_cases quiet_stepE: "quiet_step cf p s s'"

interpretation quiet_inv: transition_invariant "quiet_step cf p" "\<lambda>s. conf_ok cf \<and> os_ok cf s" for cf p
  by unfold_locales (auto elim!: quiet_stepE intro: os_step_ok)

lemma quiet_steps_same:
  assumes "conf_ok cf" and "os_ok cf s" and "(quiet_step cf p)\<^sup>*\<^sup>* s s'"
  shows "same_proc (kst s) (kst s') p \<and> pc (kpcb (kst s') p) = pc (kpcb (kst s) p)"
proof -
  let ?f = "\<lambda>s. (code (kpcb (kst s) p), regs (kpcb (kst s) p), pmm (kpcb (kst s) p), vmem (proc_ctx (kst s) p), pc (kpcb (kst s) p))"
  have "?f s' = ?f s"
    by (rule quiet_inv.steps_keep [OF assms(3)])
      (use assms(1,2) not_executes_same in \<open>auto simp: same_proc_def elim!: quiet_stepE\<close>)
  then show ?thesis
    by (simp add: same_proc_def)
qed

subsection \<open>Steps that leave a byte alone\<close>







subsection \<open>An example\<close>

text \<open>Process 3 is on the only CPU and about to execute a \<open>write\<close>; process 7 waits.\<close>

definition cf3 :: conf_t where
  "cf3 = \<lparr>time_slot = 2, num_cpus = 1, memramsz = 512, memswpsz = [1024, 0, 0, 0],
     ld_path = [''input/proc/sc2'', ''input/proc/p0s''], start_time = [0, 0], ld_prio = [5, 5], files = (\<lambda>_. None)\<rparr>"

definition sys3 :: os_t where
  "sys3 = \<lparr>kst = kern, tmr = tm (bar_init 2), cpus = [cpu_at (Some 3) 2 C_run], ldr = ld_at 2 pcb0 3 (L_slot False),
     all_loaded = False, mpc = M_join 0, exited = False\<rparr>"

lemma cf3_ok: "conf_ok cf3"
  by (auto simp: conf_ok_def limits_ok_def cf3_def INT_MAX_def load_def)

lemma sys3_ok: "os_ok cf3 sys3"
  using kern_ok by (auto simp: os_ok_def sys3_def cf3_def cpu_ok_def placed_def holds_def ld_ok_def kern_lists)

lemma kern_run: "\<exists>k1 k2. run kern 3 = Inr (0, k1) \<and> 7 \<in> kheap k1 \<and> run k1 3 = Inr (0, k2) \<and> avail (proc_ctx k2 3) = 2"
proof -
  have "case run kern 3 of Inr (stat, k1) \<Rightarrow> stat = 0 \<and> 7 \<in> kheap k1 \<and>
      (case run k1 3 of Inr (stat2, k2) \<Rightarrow> stat2 = 0 \<and> avail (proc_ctx k2 3) = 2 | Inl _ \<Rightarrow> False) | Inl _ \<Rightarrow> False"
    by code_simp
  then obtain k1 where "run kern 3 = Inr (0, k1)" "7 \<in> kheap k1"
      "case run k1 3 of Inr (stat2, k2) \<Rightarrow> stat2 = 0 \<and> avail (proc_ctx k2 3) = 2 | Inl _ \<Rightarrow> False"
    by (cases "run kern 3") auto
  then show ?thesis
    by (cases "run k1 3") auto
qed


lemma cpu_run_step:
  assumes "run k p = Inr (v, k1)" and "0 < n" and "n \<le> 2"
  shows "os_step cf (one_cpu k t (cpu_at (Some p) n C_run) l) (one_cpu k1 t (cpu_at (Some p) (n - 1) C_slot) l)"
  using assms by (intro one_cpu_step) (simp add: cpu_step_def nonnull_def chk_int_def INT_MAX_def INT_MIN_def)

lemma executes_one_cpu [simp]:
  "executes (one_cpu_at dn k t c l) (one_cpu_at dn' k' t' c' l') p \<longleftrightarrow> cproc c = Some p \<and> cpc c = C_run \<and> cpc c' \<noteq> C_run"
  by (simp add: executes_def)



subsection \<open>Properties\<close>

text \<open>
  C3. A process is not disturbed. From any state of the system that satisfies the invariant, let any
  number of steps of CPUs, loader, timer and scheduler happen in which process \<open>p\<close> stays alive and none
  of which is the step of a CPU that executes an instruction of \<open>p\<close>. Then its code, its registers, its
  program counter and every byte of its memory are what they were, although its pages may share RAM and
  swap with the other processes.
\<close>

theorem undisturbed:
  assumes "conf_ok cf" and "os_ok cf s" and "(quiet_step cf p)\<^sup>*\<^sup>* s s'"
  shows "code (kpcb (kst s') p) = code (kpcb (kst s) p) \<and> regs (kpcb (kst s') p) = regs (kpcb (kst s) p) \<and>
    pc (kpcb (kst s') p) = pc (kpcb (kst s) p) \<and> vmem (proc_ctx (kst s') p) = vmem (proc_ctx (kst s) p) \<and>
    region_mem (proc_ctx (kst s') p) = region_mem (proc_ctx (kst s) p)"
  using quiet_steps_same [OF assms] same_proc_region [of "kst s" "kst s'" p] by (simp add: same_proc_def)

theorem undisturbed_witness:
  "\<exists>k1. run kern 3 = Inr (0, k1) \<and> (quiet_step cf3 7)\<^sup>*\<^sup>* sys3 (sys3\<lparr>kst := k1, cpus := [cpu_at (Some 3) 1 C_slot]\<rparr>) \<and>
    pc (kpcb k1 7) = pc (kpcb kern 7) \<and> vmem (proc_ctx k1 7) = vmem (proc_ctx kern 7)"
proof -
  obtain k1 where k1: "run kern 3 = Inr (0, k1)" "7 \<in> kheap k1"
    using kern_run by blast
  have q: "(quiet_step cf3 7)\<^sup>*\<^sup>* sys3 (sys3\<lparr>kst := k1, cpus := [cpu_at (Some 3) 1 C_slot]\<rparr>)"
    using cpu_run_step [OF k1(1), of 2 cf3] k1(2) by (intro r_into_rtranclp quiet) (simp_all add: sys3_def kern_lists)
  with undisturbed [OF cf3_ok sys3_ok q] k1 show ?thesis
    by (simp add: sys3_def)
qed



end
