(* ===== verification/Progress.thy ===== *)
theory Progress
  imports System
begin

text \<open>
  Progress of the threads. No state of the system is a deadlock: as long as the program has not ended
  some thread has a step. \<open>slot_rank\<close> counts what the threads can still do in the current time slot;
  every step except the tick of the clock decreases it, so the clock advances whatever the order in
  which the threads run. When all threads have stopped, \<open>main\<close> returns.
\<close>

subsection \<open>Blocked threads\<close>

lemma timer_blocked:
  assumes "timer_step t = None"
  shows "tpc t \<in> {T_off, T_exit} \<or> (\<exists>d ds f e. tpc t = T_wait (d # ds) f e \<and> \<not> slot_done (ids t d) \<and> \<not> fsh (ids t d))"
  using assms by (auto simp: timer_step_def split: timer_pc.splits list.splits if_splits)

text \<open>The timer thread waits only for a device that works on its slot, and ends when there is none.\<close>

lemma timer_waits:
  assumes ok: "bar_ok b" and none: "timer_step (tm b) = None"
  shows "tpc (tm b) = T_exit \<and> (\<forall>d \<in> set (dev_list (tm b)). dpc b d = Finished) \<or>
    (\<exists>d \<in> set (dev_list (tm b)). dpc b d = Working \<or> dpc b d = Waiting \<and> next_slot_over (tm b) d)"
proof -
  have ph: "phase_ok b (tpc (tm b))" and fl: "\<And>d. d \<in> set (dev_list (tm b)) \<Longrightarrow> flags_ok (dpc b d) (ids (tm b) d)"
    using ok by (simp_all add: bar_ok_def)
  from timer_blocked [OF none] show ?thesis
  proof
    assume "tpc (tm b) \<in> {T_off, T_exit}"
    with ph show ?thesis by auto
  next
    assume "\<exists>d ds f e. tpc (tm b) = T_wait (d # ds) f e \<and> \<not> slot_done (ids (tm b) d) \<and> \<not> fsh (ids (tm b) d)"
    then obtain d ds f e where d: "tpc (tm b) = T_wait (d # ds) f e" "\<not> slot_done (ids (tm b) d)" "\<not> fsh (ids (tm b) d)"
      by blast
    with ph have "d \<in> set (dev_list (tm b))"
      by auto
    with fl [OF this] d show ?thesis
      by (cases "dpc b d") (auto simp: next_slot_over_def)
  qed
qed

lemma cpu_can_step:
  assumes cf: "conf_ok cf" and ok: "os_ok cf s" and i: "i < length (cpus s)" and ex: "\<not> exited s"
    and w: "dev_of s i = Working \<or> dev_of s i = Waiting \<and> next_slot_over (tmr s) i"
  shows "\<exists>s'. os_step cf s s'"
proof -
  obtain r where r: "cpu_step (time_slot cf) (all_loaded s) i (kst s) (tmr s) (cpus s ! i) = Some r"
    using w i by (cases "cpc (cpus s ! i)") (auto simp: cpu_step_def dev_of_def)
  with cpu_step_ok [OF cf ok i r] show ?thesis
    by (blast intro: os_cpu [OF ex i])
qed

lemma ld_can_step:
  assumes cf: "conf_ok cf" and ok: "os_ok cf s" and ex: "\<not> exited s"
    and w: "dev_of s (ld_dev s) = Working \<or> dev_of s (ld_dev s) = Waiting \<and> next_slot_over (tmr s) (ld_dev s)"
  shows "\<exists>s'. os_step cf s s'"
proof -
  have "\<exists>s'. ld_step cf s s'"
  proof (cases "lpc (ldr s)")
    case L_load
    then show ?thesis
      using ld_next [OF L_load, of cf junk] ld_fail [OF L_load, of cf junk] ld_all [OF L_load, of cf]
      by (cases "load (files cf) (avail_pid (ldr s)) junk (ld_path cf ! li (ldr s))") fastforce+
  next
    case L_add
    have "finite (kheap (kst s))"
      using ok by (simp add: os_ok_def)
    then obtain p where p: "p \<notin> kheap (kst s)"
      using ex_new_if_finite [OF infinite_UNIV_nat] by blast
    with ld_add_ok [OF cf ok L_add] show ?thesis
      by (blast intro: ld_add [OF L_add])
  next
    case (L_wait x)
    with w show ?thesis
      by (auto simp: dev_of_def intro: ld_wait [OF L_wait])
  next
    case L_stopped
    with w show ?thesis
      by (simp add: dev_of_def)
  qed (blast intro: ld_time ld_slot ld_done ld_exit)+
  with ex show ?thesis
    by (blast intro: os_ld)
qed

lemma main_can_step:
  assumes "all_stopped s" and "main_ok s" and "\<not> exited s" and "tpc (tmr s) = T_exit"
  shows "\<exists>s'. os_step cf s s'"
proof -
  have "\<exists>s'. main_step s s'"
  proof (cases "mpc s")
    case (M_join i)
    with assms(1) show ?thesis
      using main_cpu [OF M_join] main_ld [OF M_join] by (auto simp: all_stopped_def list_all_length)
  next
    case M_timer
    with main_end [OF M_timer] assms(4) show ?thesis
      by (auto simp: stop_join_def)
  qed (use assms main_stop in \<open>auto simp: main_ok_def\<close>)
  with assms(3) show ?thesis
    by (blast intro: os_main)
qed

lemma stopped_iff: "all_stopped s \<longleftrightarrow> (\<forall>d \<le> length (cpus s). dev_of s d = Finished)"
proof
  assume fin: "\<forall>d \<le> length (cpus s). dev_of s d = Finished"
  have "cpc (cpus s ! i) = C_stopped" if "i < length (cpus s)" for i
    using fin [rule_format, of i] that by (auto simp: dev_of_def split: cpu_pc.splits)
  moreover have "lpc (ldr s) = L_stopped"
    using fin by (auto simp: dev_of_def split: ld_pc.splits)
  ultimately show "all_stopped s"
    by (simp add: all_stopped_def list_all_length)
qed (auto simp: all_stopped_def list_all_length dev_of_def)

lemma can_step:
  assumes cf: "conf_ok cf" and ok: "os_ok cf s" and m: "main_ok s" and ex: "\<not> exited s"
    and b: "bar_ok b" "clock_sim s b"
  shows "\<exists>s'. os_step cf s s'"
proof (cases "timer_step (tmr s)")
  case (Some t1)
  with ex show ?thesis
    by (blast intro: os_timer)
next
  case None
  have S: "tm b = tmr s" "\<And>d. d \<le> length (cpus s) \<Longrightarrow> dpc b d = dev_of s d" "set (dev_list (tmr s)) = {..length (cpus s)}"
    using b(2) m ex by (simp_all add: clock_sim_def main_ok_def)
  have "tpc (tmr s) = T_exit \<and> (\<forall>d \<in> {..length (cpus s)}. dpc b d = Finished) \<or>
      (\<exists>d \<in> {..length (cpus s)}. dpc b d = Working \<or> dpc b d = Waiting \<and> next_slot_over (tmr s) d)"
    using timer_waits [OF b(1)] None by (simp only: S(1,3))
  then show ?thesis
  proof (elim disjE [of "_ \<and> _"] conjE bexE)
    assume "tpc (tmr s) = T_exit" "\<forall>d \<in> {..length (cpus s)}. dpc b d = Finished"
    with S(2) main_can_step [OF _ m ex] show ?thesis
      by (simp add: stopped_iff)
  next
    fix d
    assume d: "d \<in> {..length (cpus s)}" and "dpc b d = Working \<or> dpc b d = Waiting \<and> next_slot_over (tmr s) d"
    with S(2) [of d] have w: "dev_of s d = Working \<or> dev_of s d = Waiting \<and> next_slot_over (tmr s) d"
      by simp
    from d consider "d < length (cpus s)" | "d = length (cpus s)"
      by fastforce
    then show ?thesis
      using cpu_can_step [OF cf ok _ ex w] ld_can_step [OF cf ok ex] w by cases auto
  qed
qed

subsection \<open>The work left in a time slot\<close>

text \<open>
  What a CPU can still do before it waits in \<open>next_slot\<close> with its flag \<open>done\<close> set; \<open>x\<close> is that flag.
\<close>

fun cpu_rank :: "bool \<Rightarrow> cpu_pc \<Rightarrow> nat" where
  "cpu_rank x C_wait = (if x then 0 else 8)"
| "cpu_rank x C_top = 7"
| "cpu_rank x C_finish = 6"
| "cpu_rank x C_free = 5"
| "cpu_rank x C_put = 5"
| "cpu_rank x C_get = 4"
| "cpu_rank x C_check = 3"
| "cpu_rank x C_run = 2"
| "cpu_rank x C_slot = 1"
| "cpu_rank x C_exit = 1"
| "cpu_rank x C_stopped = 0"

fun ld_rank :: "bool \<Rightarrow> ld_pc \<Rightarrow> nat" where
  "ld_rank x (L_wait b) = (if x then 0 else 5)"
| "ld_rank x L_load = 4"
| "ld_rank x L_time = 3"
| "ld_rank x L_add = 2"
| "ld_rank x (L_slot b) = 1"
| "ld_rank x L_done = 2"
| "ld_rank x L_exit = 1"
| "ld_rank x L_stopped = 0"

text \<open>Releasing a device gives it up to 8 further steps.\<close>

fun timer_rank :: "nat \<Rightarrow> timer_pc \<Rightarrow> nat" where
  "timer_rank n T_off = 0"
| "timer_rank n (T_free ds f e) = 9 * length ds + n + 2"
| "timer_rank n T_top = n + 1"
| "timer_rank n (T_wait ds f e) = length ds"
| "timer_rank n T_exit = 0"

fun main_rank :: "nat \<Rightarrow> main_pc \<Rightarrow> nat" where
  "main_rank n (M_join i) = n - i + 3"
| "main_rank n M_stop = 2"
| "main_rank n M_timer = 1"
| "main_rank n M_end = 0"

definition dev_rank :: "os_t \<Rightarrow> nat \<Rightarrow> nat" where
  "dev_rank s d =
     (if d < length (cpus s) then cpu_rank (slot_done (ids (tmr s) d)) (cpc (cpus s ! d))
      else if d = length (cpus s) then ld_rank (slot_done (ids (tmr s) d)) (lpc (ldr s)) else 0)"

definition slot_rank :: "os_t \<Rightarrow> nat" where
  "slot_rank s = (\<Sum>d \<le> length (cpus s). dev_rank s d) + timer_rank (length (dev_list (tmr s))) (tpc (tmr s)) +
     main_rank (length (cpus s)) (mpc s) + (if exited s then 0 else 1)"

lemma sum_change_one:
  fixes f g :: "'a \<Rightarrow> nat"
  assumes "finite A" and "\<And>j. j \<in> A \<Longrightarrow> j \<noteq> i \<Longrightarrow> g j = f j"
  shows "i \<in> A \<Longrightarrow> sum g A + f i = sum f A + g i" and "i \<notin> A \<Longrightarrow> sum g A = sum f A"
proof -
  assume "i \<in> A"
  moreover have "sum g (A - {i}) = sum f (A - {i})"
    by (rule sum.cong) (use assms(2) in auto)
  ultimately show "sum g A + f i = sum f A + g i"
    using assms(1) by (simp add: sum.remove [of A i])
next
  assume "i \<notin> A"
  then show "sum g A = sum f A"
    using assms(2) by (intro sum.cong) auto
qed

lemma cpu_rank_le: "cpu_rank x q \<le> 8"
  by (cases q) simp_all

lemma ld_rank_le: "ld_rank x q \<le> 8"
  by (cases q) simp_all

lemma dev_rank_le: "dev_rank s d \<le> 8"
  by (simp add: dev_rank_def cpu_rank_le ld_rank_le)

lemma dev_rank_step:
  assumes d: "d \<le> length (cpus s)" and less: "dev_rank s' d < dev_rank s d" and other: "\<And>j. j \<noteq> d \<Longrightarrow> dev_rank s' j = dev_rank s j"
    and same: "length (cpus s') = length (cpus s)" "mpc s' = mpc s" "tpc (tmr s') = tpc (tmr s)" "dev_list (tmr s') = dev_list (tmr s)" "exited s' = exited s"
  shows "slot_rank s' < slot_rank s"
proof -
  have "sum (dev_rank s') {..length (cpus s)} + dev_rank s d = sum (dev_rank s) {..length (cpus s)} + dev_rank s' d"
    using d other by (intro sum_change_one(1)) simp_all
  with less have "sum (dev_rank s') {..length (cpus s)} < sum (dev_rank s) {..length (cpus s)}"
    by linarith
  with same show ?thesis
    by (simp add: slot_rank_def)
qed

lemma dev_rank_cong:
  "(\<And>d. slot_done (ids (tmr s') d) = slot_done (ids (tmr s) d)) \<Longrightarrow> cpus s' = cpus s \<Longrightarrow> ldr s' = ldr s \<Longrightarrow> dev_rank s' = dev_rank s"
  by (simp add: dev_rank_def fun_eq_iff)

lemma cpu_step_rank:
  assumes "cpu_step ts dn i k t c = Some (Inr (k1, t1, c1))"
  shows "cpu_rank (slot_done (ids t1 i)) (cpc c1) < cpu_rank (slot_done (ids t i)) (cpc c)"
  using assms
  by (cases "cpc c") (auto simp: cpu_step_def rbind_Inr_iff next_slot_over_def next_slot_begin_def split: option.splits if_splits)

lemma cpu_step_timer:
  assumes "cpu_step ts dn i k t c = Some (Inr (k1, t1, c1))"
  shows "tpc t1 = tpc t \<and> dev_list t1 = dev_list t \<and> time_now t1 = time_now t \<and> (\<forall>d. d \<noteq> i \<longrightarrow> ids t1 d = ids t d)"
  using assms by (cases rule: cpu_step_dev) (simp_all add: next_slot_begin_def detach_event_def)

lemma cpu_rank_step:
  assumes i: "i < length (cpus s)" and st: "cpu_step ts dn i (kst s) (tmr s) (cpus s ! i) = Some (Inr (k1, t1, c1))"
  shows "slot_rank (cpu_moved s i k1 t1 c1) < slot_rank s"
proof (rule dev_rank_step [of i])
  show "dev_rank (cpu_moved s i k1 t1 c1) i < dev_rank s i"
    using cpu_step_rank [OF st] i by (simp add: dev_rank_def cpu_moved_def)
  show "dev_rank (cpu_moved s i k1 t1 c1) d = dev_rank s d" if "d \<noteq> i" for d
    using cpu_step_timer [OF st] that by (simp add: dev_rank_def cpu_moved_def)
qed (use i cpu_step_timer [OF st] in \<open>simp_all add: cpu_moved_def\<close>)

lemma ld_step_timer:
  assumes "ld_step cf s s'"
  shows "tpc (tmr s') = tpc (tmr s) \<and> dev_list (tmr s') = dev_list (tmr s) \<and> time_now (tmr s') = time_now (tmr s) \<and>
    (\<forall>d. d \<noteq> ld_dev s \<longrightarrow> ids (tmr s') d = ids (tmr s) d) \<and> cpus s' = cpus s \<and> mpc s' = mpc s"
  using assms by (cases rule: ld_step.cases) (simp_all add: next_slot_begin_def detach_event_def)

lemma ld_step_rank:
  assumes "ld_step cf s s'"
  shows "s' = s\<lparr>exited := True\<rparr> \<or> exited s' = exited s \<and>
    ld_rank (slot_done (ids (tmr s') (ld_dev s))) (lpc (ldr s')) < ld_rank (slot_done (ids (tmr s) (ld_dev s))) (lpc (ldr s))"
  using assms by (cases rule: ld_step.cases) (simp_all add: next_slot_over_def next_slot_begin_def)

lemma exit_rank: "\<not> exited s \<Longrightarrow> slot_rank (s\<lparr>exited := True\<rparr>) < slot_rank s"
  by (simp add: slot_rank_def dev_rank_cong [of "s\<lparr>exited := True\<rparr>" s])

lemma ld_rank_step:
  assumes st: "ld_step cf s s'" and ex: "\<not> exited s"
  shows "slot_rank s' < slot_rank s"
  using ld_step_rank [OF st]
proof (elim disjE conjE)
  assume same: "exited s' = exited s"
    and less: "ld_rank (slot_done (ids (tmr s') (ld_dev s))) (lpc (ldr s')) < ld_rank (slot_done (ids (tmr s) (ld_dev s))) (lpc (ldr s))"
  note T = ld_step_timer [OF st]
  have "dev_rank s' d = dev_rank s d" if "d \<noteq> ld_dev s" for d
    using T that by (auto simp: dev_rank_def)
  with T less same show ?thesis
    by (intro dev_rank_step [of "ld_dev s"]) (simp_all add: dev_rank_def)
qed (use exit_rank [OF ex] in simp)

lemma timer_rank_step:
  assumes st: "timer_step (tmr s) = Some t1" and nt: "time_now t1 = time_now (tmr s)"
  shows "slot_rank (s\<lparr>tmr := t1\<rparr>) < slot_rank s"
proof (cases "\<exists>d ds f e. tpc (tmr s) = T_free (d # ds) f e")
  case False
  then have "ids t1 = ids (tmr s)" "timer_rank (length (dev_list t1)) (tpc t1) < timer_rank (length (dev_list (tmr s))) (tpc (tmr s))"
    using st nt by (auto simp: timer_step_def split: timer_pc.splits list.splits if_splits)
  then show ?thesis
    by (simp add: slot_rank_def dev_rank_cong [of "s\<lparr>tmr := t1\<rparr>" s])
next
  case True
  then obtain d ds f e where at: "tpc (tmr s) = T_free (d # ds) f e"
    by blast
  let ?s = "s\<lparr>tmr := t1\<rparr>"
  from st at have t1: "t1 = (set_done False d (tmr s))\<lparr>tpc := T_free ds f e\<rparr>"
    by (simp add: timer_step_def)
  have other: "dev_rank ?s j = dev_rank s j" if "j \<noteq> d" for j
    using that by (simp add: dev_rank_def t1)
  have "sum (dev_rank ?s) {..length (cpus s)} \<le> sum (dev_rank s) {..length (cpus s)} + 8"
    using sum_change_one [of "{..length (cpus s)}" d "dev_rank ?s" "dev_rank s"] other dev_rank_le [of ?s d]
    by (cases "d \<le> length (cpus s)") auto
  moreover have "timer_rank (length (dev_list t1)) (tpc t1) + 9 = timer_rank (length (dev_list (tmr s))) (tpc (tmr s))"
    by (simp add: t1 at)
  ultimately show ?thesis
    by (simp add: slot_rank_def)
qed

lemma main_rank_step:
  assumes st: "main_step s s'" and ex: "\<not> exited s"
  shows "slot_rank s' < slot_rank s"
proof -
  have "dev_rank s' = dev_rank s" "cpus s' = cpus s"
    using st by (cases rule: main_step.cases; auto simp: stop_request_def stop_join_def split: if_splits intro!: dev_rank_cong)+
  moreover have "main_rank (length (cpus s)) (mpc s') < main_rank (length (cpus s)) (mpc s)"
      "timer_rank (length (dev_list (tmr s'))) (tpc (tmr s')) \<le> timer_rank (length (dev_list (tmr s))) (tpc (tmr s))"
    using st by (cases rule: main_step.cases; auto simp: stop_request_def stop_join_def split: if_splits)+
  ultimately show ?thesis
    using ex by (simp add: slot_rank_def)
qed

text \<open>Every step but the tick decreases the rank.\<close>

lemma slot_rank_step:
  assumes "os_step cf s s'" and "time_now (tmr s') = time_now (tmr s)"
  shows "slot_rank s' < slot_rank s"
  using assms(1)
proof (cases rule: os_step.cases)
  case (os_cpu i k1 t1 c1)
  with cpu_rank_step [OF os_cpu(3,4)] show ?thesis by simp
next
  case os_ld
  with ld_rank_step show ?thesis by blast
next
  case (os_timer t1)
  with timer_rank_step [OF os_timer(3)] assms(2) show ?thesis by simp
next
  case os_main
  with main_rank_step show ?thesis by blast
qed

text \<open>A step inside a time slot.\<close>

definition slot_step :: "conf_t \<Rightarrow> os_t \<Rightarrow> os_t \<Rightarrow> bool" where
  "slot_step cf s s' \<longleftrightarrow> os_step cf s s' \<and> current_time (tmr s') = current_time (tmr s)"

interpretation slot_run: transition_rank "slot_step cf" "\<lambda>_. True" slot_rank for cf
  by unfold_locales (auto simp: slot_step_def current_time_def intro: slot_rank_step)

definition slot_bound :: "os_t \<Rightarrow> nat" where
  "slot_bound s = 19 * length (cpus s) + 24"

lemma main_rank_le: "main_rank n q \<le> n + 3"
  by (cases q) simp_all

lemma devs_rank_le: "(\<Sum>d \<le> length (cpus s). dev_rank s d) \<le> 8 * length (cpus s) + 8"
  using sum_bounded_above [of "{..length (cpus s)}" "dev_rank s" 8] dev_rank_le by simp

lemma slot_rank_le:
  assumes "timer_rank (length (dev_list (tmr s))) (tpc (tmr s)) \<le> 10 * Suc (length (cpus s)) + 2"
  shows "slot_rank s \<le> slot_bound s"
  using assms devs_rank_le [of s] main_rank_le [of "length (cpus s)" "mpc s"] by (simp add: slot_rank_def slot_bound_def)

lemma timer_rank_le:
  assumes "bar_ok b" and "length (dev_list (tm b)) \<le> n"
  shows "timer_rank (length (dev_list (tm b))) (tpc (tm b)) \<le> 10 * n + 2"
  using assms by (cases "tpc (tm b)") (auto simp: bar_ok_def)

lemma devs_length:
  assumes "main_ok s" and "\<not> exited s" and "bar_ok b" and "clock_sim s b"
  shows "length (dev_list (tmr s)) = Suc (length (cpus s))"
proof -
  have "distinct (dev_list (tmr s))" "set (dev_list (tmr s)) = {..length (cpus s)}"
    using assms by (auto simp: main_ok_def bar_ok_def clock_sim_def)
  then show ?thesis
    by (metis distinct_card card_atMost)
qed

lemma reach_rank:
  assumes "main_ok s" and "\<not> exited s" and "bar_ok b" and "clock_sim s b"
  shows "slot_rank s \<le> slot_bound s"
proof -
  have "tm b = tmr s"
    using assms(4) by (simp add: clock_sim_def)
  with timer_rank_le [OF assms(3), of "Suc (length (cpus s))"] devs_length [OF assms] show ?thesis
    by (intro slot_rank_le) simp
qed

subsection \<open>The end of the program\<close>

text \<open>The ticks that are left when all threads have stopped.\<close>

fun ticks_left :: "timer_pc \<Rightarrow> nat" where
  "ticks_left (T_wait ds f e) = (if f = e then 1 else 2)"
| "ticks_left (T_free ds f e) = (if f = e then 0 else 1)"
| "ticks_left T_top = 1"
| "ticks_left T_exit = 0"
| "ticks_left T_off = 0"

definition closing :: "os_t \<Rightarrow> bool" where
  "closing s \<longleftrightarrow> all_stopped s \<and> (\<forall>d \<in> set (dev_list (tmr s)). fsh (ids (tmr s) d)) \<and>
     (\<forall>ds f e. tpc (tmr s) = T_wait ds f e \<longrightarrow> (\<forall>d \<in> set ds. fsh (ids (tmr s) d))) \<and>
     length (dev_list (tmr s)) \<le> Suc (length (cpus s))"

definition closing_rank :: "os_t \<Rightarrow> nat" where
  "closing_rank s = ticks_left (tpc (tmr s)) * Suc (slot_bound s) + slot_rank s"

lemma closing_cases:
  assumes st: "os_step cf s s'" and cl: "closing s"
  obtains t1 where "timer_step (tmr s) = Some t1" "s' = s\<lparr>tmr := t1\<rparr>" | "main_step s s'"
  using st
proof (cases rule: os_step.cases)
  case (os_cpu i k1 t1 c1)
  with cl show ?thesis
    by (simp add: closing_def all_stopped_def list_all_length cpu_step_def)
next
  case os_ld
  from os_ld(2) cl show ?thesis
    by (cases rule: ld_step.cases) (simp_all add: closing_def all_stopped_def)
qed (use that in blast)+

lemma timer_step_fsh: "timer_step t = Some t1 \<Longrightarrow> fsh (ids t1 d) = fsh (ids t d)"
  by (auto simp: timer_step_def split: timer_pc.splits list.splits if_splits)

lemma timer_step_waits:
  "timer_step t = Some t1 \<Longrightarrow> tpc t1 = T_wait ds f e \<Longrightarrow> ds = dev_list t \<or> (\<exists>d f e. tpc t = T_wait (d # ds) f e)"
  by (auto simp: timer_step_def split: timer_pc.splits list.splits if_splits)

lemma closing_step:
  assumes st: "os_step cf s s'" and cl: "closing s"
  shows "closing s'"
proof -
  have stopped: "all_stopped s'"
    using all_stopped_step [OF st] cl by (simp add: closing_def)
  from st cl show ?thesis
  proof (cases rule: closing_cases)
    case (1 t1)
    note F = timer_step_fsh [OF 1(1)] timer_step_devs [OF 1(1)]
    have "fsh (ids (tmr s) d)" if "tpc t1 = T_wait ds f e" "d \<in> set ds" for d ds f e
      using timer_step_waits [OF 1(1) that(1)] that(2) cl by (fastforce simp: closing_def)
    with cl stopped F show ?thesis
      by (auto simp: closing_def 1(2))
  next
    case 2
    from 2 cl stopped show ?thesis
      by (induction rule: main_step.induct) (auto simp: closing_def stop_request_def stop_join_def split: if_splits)
  qed
qed

lemma ticks_left_step:
  assumes t: "timer_step t = Some t1" and all: "\<And>ds f e. tpc t = T_wait ds f e \<Longrightarrow> \<forall>d \<in> set ds. fsh (ids t d)"
  shows "ticks_left (tpc t1) \<le> ticks_left (tpc t)"
    and "time_now t1 \<noteq> time_now t \<Longrightarrow> Suc (ticks_left (tpc t1)) = ticks_left (tpc t) \<and>
      timer_rank (length (dev_list t1)) (tpc t1) \<le> 10 * length (dev_list t1) + 2"
  using assms by (auto simp: timer_step_def split: timer_pc.splits list.splits if_splits)

lemma closing_rank_step:
  assumes st: "os_step cf s s'" and cl: "closing s"
  shows "closing_rank s' < closing_rank s"
proof (cases "time_now (tmr s') = time_now (tmr s)")
  case True
  have "ticks_left (tpc (tmr s')) \<le> ticks_left (tpc (tmr s))"
    using st cl
  proof (cases rule: closing_cases)
    case (1 t1)
    with cl ticks_left_step(1) [OF 1(1)] show ?thesis
      by (simp add: closing_def)
  next
    case 2
    then show ?thesis
      by (induction rule: main_step.induct) (auto simp: stop_request_def stop_join_def split: if_splits)
  qed
  then have "ticks_left (tpc (tmr s')) * Suc (slot_bound s) \<le> ticks_left (tpc (tmr s)) * Suc (slot_bound s)"
    by (rule mult_le_mono1)
  moreover have "slot_bound s' = slot_bound s"
    using os_step_cpus [OF st] by (simp add: slot_bound_def)
  ultimately show ?thesis
    using slot_rank_step [OF st True] unfolding closing_rank_def by (simp only: add_le_less_mono)
next
  case False
  from st cl show ?thesis
  proof (cases rule: closing_cases)
    case (1 t1)
    have T: "Suc (ticks_left (tpc t1)) = ticks_left (tpc (tmr s))"
        "timer_rank (length (dev_list t1)) (tpc t1) \<le> 10 * length (dev_list t1) + 2"
      using ticks_left_step(2) [OF 1(1)] cl False 1(2) by (simp_all add: closing_def)
    have "length (dev_list t1) \<le> Suc (length (cpus s))"
      using timer_step_devs [OF 1(1)] cl by (simp add: closing_def)
    with T(2) have "slot_rank s' \<le> slot_bound s'"
      by (intro slot_rank_le) (simp add: 1(2))
    with T(1) have "Suc (ticks_left (tpc (tmr s'))) = ticks_left (tpc (tmr s))" "slot_bound s' = slot_bound s"
        "slot_rank s' \<le> slot_bound s'"
      by (simp_all add: 1(2) slot_bound_def)
    then show ?thesis
      by (simp add: closing_rank_def flip: \<open>Suc (ticks_left (tpc (tmr s'))) = _\<close>)
  next
    case 2
    then have "time_now (tmr s') = time_now (tmr s)"
      by (induction rule: main_step.induct) (auto simp: stop_request_def stop_join_def split: if_splits)
    with False show ?thesis by simp
  qed
qed

interpretation closing_run: transition_rank "os_step cf" closing closing_rank for cf
  by unfold_locales (auto intro: closing_step closing_rank_step)

lemma closing_start:
  assumes "main_ok s" and "\<not> exited s" and "bar_ok b" and "clock_sim s b" and "all_stopped s"
  shows "closing s" and "closing_rank s \<le> 2 * Suc (slot_bound s) + slot_bound s"
proof -
  have S: "tm b = tmr s" "set (dev_list (tmr s)) = {..length (cpus s)}" "\<And>d. d \<le> length (cpus s) \<Longrightarrow> dpc b d = Finished"
    using assms by (auto simp: clock_sim_def main_ok_def stopped_iff)
  have "\<forall>d \<in> set (dev_list (tmr s)). fsh (ids (tmr s) d)"
    using S assms(3) by (simp add: bar_ok_def)
  moreover have "d \<in> set (dev_list (tmr s))" if "tpc (tmr s) = T_wait ds f e" "d \<in> set ds" for d ds f e
    using assms(3) that S(1) by (auto simp: bar_ok_def)
  ultimately show "closing s"
    using assms(5) devs_length [OF assms(1-4)] unfolding closing_def by (metis order_refl)
  have "ticks_left (tpc (tmr s)) \<le> 2"
    by (cases "tpc (tmr s)") simp_all
  then have "ticks_left (tpc (tmr s)) * Suc (slot_bound s) \<le> 2 * Suc (slot_bound s)"
    by (rule mult_le_mono1)
  with reach_rank [OF assms(1-4)] show "closing_rank s \<le> 2 * Suc (slot_bound s) + slot_bound s"
    by (simp add: closing_rank_def)
qed

lemma reachD:
  assumes "conf_ok cf" and "os_start cf d blocks = Inr s0" and "(os_step cf)\<^sup>*\<^sup>* s0 s"
  obtains b where "os_ok cf s" "main_ok s" "bar_ok b" "clock_sim s b"
proof -
  obtain s1 where "os_start cf d blocks = Inr s1" "os_ok cf s1"
    by (rule os_start_ok [OF assms(1), of d blocks])
  with assms(2) os_steps_ok [OF assms(3,1)] have "os_ok cf s"
    by simp
  with clock_reach [OF assms(2,3)] bar_reach that show ?thesis
    by blast
qed

lemma not_stuck:
  assumes "conf_ok cf" and "os_start cf d blocks = Inr s0" and "(os_step cf)\<^sup>*\<^sup>* s0 s" and "\<not> exited s"
  shows "\<exists>s'. os_step cf s s'"
  by (rule reachD [OF assms(1-3)]) (use can_step [OF assms(1)] assms(4) in blast)

lemma exited_final: "os_step cf s s' \<Longrightarrow> \<not> exited s"
  by (induction rule: os_step.induct)

lemma stuck_run:
  fixes R :: "'s \<Rightarrow> 's \<Rightarrow> bool"
  assumes "\<nexists>s1. R s s1" and "(R ^^ k) s s'"
  shows "k = 0"
proof (cases k)
  case (Suc m)
  with assms(2) have "(R ^^ Suc m) s s'" by simp
  then obtain s1 where "R s s1"
    by (rule relpowp_Suc_E2)
  with assms(1) show ?thesis by blast
qed

subsection \<open>Properties\<close>

text \<open>
  C14. The system never deadlocks, and its clock never stops. In every state that is reached, either the
  program has ended or some thread can take a step; and no run, in whatever order the threads are
  scheduled, has more than \<open>19 n + 24\<close> steps without the clock advancing, \<open>n\<close> being the number of
  CPUs. So time advances for ever unless \<open>main\<close> returns or a program file cannot be opened.
\<close>

theorem clock_advances:
  assumes "conf_ok cf" and "os_start cf d blocks = Inr s0" and "(os_step cf)\<^sup>*\<^sup>* s0 s"
  shows "(exited s \<or> (\<exists>s'. os_step cf s s')) \<and>
    (\<forall>k s'. (slot_step cf ^^ k) s s' \<longrightarrow> k \<le> 19 * length (cpus s) + 24)"
proof -
  have "k \<le> 19 * length (cpus s) + 24" if run: "(slot_step cf ^^ k) s s'" for k s'
  proof (cases "exited s")
    case True
    then have "k = 0"
      using exited_final by (intro stuck_run [OF _ run]) (auto simp: slot_step_def)
    then show ?thesis by simp
  next
    case False
    have "slot_rank s \<le> slot_bound s"
      by (rule reachD [OF assms]) (use False reach_rank in blast)
    with slot_run.run_length [OF run] show ?thesis
      by (simp add: slot_bound_def)
  qed
  with not_stuck [OF assms] show ?thesis
    by blast
qed

theorem clock_advances_witness:
  "\<exists>s0 s1. os_start (cf1 []) (\<lambda>_. device 512) (\<lambda>_. pcb0) = Inr s0 \<and> os_step (cf1 []) s0 s1 \<and>
    (\<nexists>s'. (slot_step (cf1 []) ^^ 44) s0 s')"
proof -
  obtain s0 where s0: "os_start (cf1 []) (\<lambda>_. device 512) (\<lambda>_. pcb0) = Inr s0" "length (cpus s0) = nat (num_cpus (cf1 []))"
      "\<not> exited s0"
    by (rule os_start_ok [OF cf1_ok])
  have "length (cpus s0) = 1"
    using s0(2) by (simp add: cf1_def)
  with clock_advances [OF cf1_ok s0(1) rtranclp.rtrancl_refl] s0 show ?thesis
    by fastforce
qed

text \<open>
  C15. The program ends in order. Once all CPUs and the loader have stopped, every run of the remaining
  threads, \<open>main\<close> and the timer, has at most \<open>57 n + 74\<close> steps; a run that cannot be continued ends
  with \<open>main\<close> having returned, after the timer thread has ended and all devices are released; and
  there is such a run.
\<close>

theorem main_returns:
  assumes "conf_ok cf" and "os_start cf d blocks = Inr s0" and "(os_step cf)\<^sup>*\<^sup>* s0 s" and "all_stopped s"
  shows "(\<forall>k s'. (os_step cf ^^ k) s s' \<longrightarrow> k \<le> 57 * length (cpus s) + 74) \<and>
    (\<forall>s'. (os_step cf)\<^sup>*\<^sup>* s s' \<and> (\<nexists>s''. os_step cf s' s'') \<longrightarrow>
       mpc s' = M_end \<and> tpc (tmr s') = T_exit \<and> dev_list (tmr s') = []) \<and>
    (\<exists>s'. (os_step cf)\<^sup>*\<^sup>* s s' \<and> mpc s' = M_end)"
proof -
  obtain b where b: "os_ok cf s" "main_ok s" "bar_ok b" "clock_sim s b"
    by (rule reachD [OF assms(1-3)])
  have final: "mpc s' = M_end \<and> tpc (tmr s') = T_exit \<and> dev_list (tmr s') = []"
    if r: "(os_step cf)\<^sup>*\<^sup>* s s'" "\<nexists>s''. os_step cf s' s''" for s'
  proof -
    have "(os_step cf)\<^sup>*\<^sup>* s0 s'"
      using assms(3) r(1) by (rule rtranclp_trans)
    then have "exited s'" "main_ok s'"
      using not_stuck [OF assms(1,2)] clock_reach [OF assms(2)] r(2) by blast+
    moreover have "all_stopped s'"
      using r(1) assms(4) by (induction rule: rtranclp_induct) (auto intro: all_stopped_step)
    ultimately show ?thesis
      by (auto simp: main_ok_def all_stopped_def)
  qed
  have "(\<forall>k s'. (os_step cf ^^ k) s s' \<longrightarrow> k \<le> 57 * length (cpus s) + 74) \<and>
      (\<exists>s'. (os_step cf)\<^sup>*\<^sup>* s s' \<and> (\<nexists>s''. os_step cf s' s''))"
  proof (cases "exited s")
    case True
    then have stuck: "\<nexists>s''. os_step cf s s''"
      using exited_final by blast
    have "k = 0" if "(os_step cf ^^ k) s s'" for k s'
      using stuck that by (rule stuck_run)
    with stuck show ?thesis
      by blast
  next
    case False
    note C = closing_start [OF b(2) False b(3,4) assms(4)]
    then show ?thesis
      using closing_run.run_length [OF _ C(1)] closing_run.run_ends [OF C(1)] by (fastforce simp: slot_bound_def)
  qed
  with final show ?thesis
    by blast
qed

theorem main_returns_witness:
  "\<exists>s0 s s'. os_start (cf1 []) (\<lambda>_. device 512) (\<lambda>_. pcb0) = Inr s0 \<and> (os_step (cf1 []))\<^sup>*\<^sup>* s0 s \<and> all_stopped s \<and>
    (os_step (cf1 []))\<^sup>*\<^sup>* s s' \<and> mpc s' = M_end"
proof -
  obtain s0 where s0: "os_start (cf1 []) (\<lambda>_. device 512) (\<lambda>_. pcb0) = Inr s0"
    by (rule os_start_ok [OF cf1_ok])
  obtain s where "(os_step (cf1 []))\<^sup>*\<^sup>* s0 s" "all_stopped s"
    using stopped_reached [OF s0] by blast
  with main_returns [OF cf1_ok s0] s0 show ?thesis
    by blast
qed

end
