(* ===== verification/Completion.thy ===== *)
theory Completion
  imports Endtoend Progress
begin

text \<open>
  Every process runs to its end. \<open>work\<close> is what the system still has to do: the instructions of the
  live processes, the programs that are not loaded yet and the slots the loader waits for. No step
  increases it, and a tick of the clock decreases it as long as a process is alive or a program is to
  be loaded: either the loader waits for its time, or some CPU has executed an instruction in the slot
  that ends. The second part rests on an invariant, \<open>fed\<close>: a process does not wait in a queue while all
  CPUs have found the queues empty in this slot. The same invariant shows that no process is left when
  all threads have stopped.
\<close>

subsection \<open>The end of a slot\<close>

text \<open>A device has ended its slot when it has set \<open>done\<close> and the timer is not about to clear it.\<close>

definition pending :: "timer_t \<Rightarrow> nat \<Rightarrow> bool" where
  "pending t d \<longleftrightarrow> (case tpc t of T_free ds _ _ \<Rightarrow> d \<in> set ds | _ \<Rightarrow> False)"

definition settled :: "timer_t \<Rightarrow> nat \<Rightarrow> bool" where
  "settled t d \<longleftrightarrow> slot_done (ids t d) \<and> \<not> pending t d"

lemma settled_cong: "tpc t' = tpc t \<Longrightarrow> ids t' d = ids t d \<Longrightarrow> settled t' d = settled t d"
  by (simp add: settled_def pending_def)

lemma timer_settled:
  assumes "timer_step t = Some t1" and "\<not> is_tick t"
  shows "settled t1 d = settled t d \<and> time_now t1 = time_now t"
  using assms by (auto simp: timer_step_def settled_def pending_def is_tick_def split: timer_pc.splits list.splits if_splits)

lemma tick_settled:
  assumes "timer_step t = Some t1" and "is_tick t"
  shows "settled t1 d \<longleftrightarrow> slot_done (ids t d) \<and> d \<notin> set (dev_list t)" and "time_now t1 = time_now t + 1"
    and "ids t1 = ids t"
  using assms by (auto simp: timer_step_def settled_def pending_def is_tick_def)

text \<open>At the tick every device waits or has detached.\<close>

lemma at_tick:
  assumes "bar_ok b" and "is_tick (tm b)" and "d \<in> set (dev_list (tm b))"
  shows "dpc b d = Waiting \<and> settled (tm b) d \<or> dpc b d = Finished"
proof -
  have "flags_ok (dpc b d) (ids (tm b) d)" "passed b d" "\<not> pending (tm b) d"
    using assms by (auto simp: bar_ok_def is_tick_def pending_def)
  then show ?thesis
    by (cases "dpc b d") (auto simp: passed_def settled_def)
qed

lemma pending_passed:
  assumes "bar_ok b" and "pending (tm b) d" and "d \<in> set (dev_list (tm b))"
  shows "dpc b d \<noteq> Working"
proof
  assume w: "dpc b d = Working"
  have "flags_ok (dpc b d) (ids (tm b) d)" "passed b d"
    using assms by (auto simp: bar_ok_def pending_def split: timer_pc.splits)
  with w show False by (simp add: passed_def)
qed

subsection \<open>What a CPU step does to the CPU itself\<close>

lemma cpu_step_local:
  assumes st: "cpu_step ts dn i k t c = Some (Inr (k1, t1, c1))" and ok: "cpu_ok ts k c"
  shows "cpc c1 = C_slot \<longrightarrow> cproc c1 \<noteq> None \<longrightarrow> cpc c = C_run"
    and "cpc c1 = C_wait \<longrightarrow> cpc c = C_slot \<and> cproc c1 = cproc c"
    and "cproc c1 = Some q \<longrightarrow> cproc c = Some q \<or> cproc c = None \<and> cpc c1 = C_check"
    and "cproc c = Some q \<longrightarrow> cproc c1 = Some q \<or> cpc c \<in> {C_free, C_put}"
    and "cproc c = Some q \<longrightarrow> cpc c \<in> {C_top, C_slot, C_wait, C_finish} \<longrightarrow> cpc c1 \<in> {C_top, C_slot, C_wait, C_finish, C_free} \<or>
      pc (kpcb k q) \<noteq> code_size (code (kpcb k q))"
    and "cpc c1 \<in> {C_exit, C_stopped} \<longrightarrow> dn \<or> cpc c = C_exit"
proof -
  note simps = cpu_step_def nonnull_def rbind_Inr_iff deref_def cpu_ok_def
  show "cpc c1 = C_slot \<longrightarrow> cproc c1 \<noteq> None \<longrightarrow> cpc c = C_run"
    using st by (cases "cpc c") (auto simp: simps split: option.splits if_splits dest: arg_cong [of _ _ cpc])
  show "cpc c1 = C_wait \<longrightarrow> cpc c = C_slot \<and> cproc c1 = cproc c"
    using st by (cases "cpc c") (auto simp: simps split: option.splits if_splits)
  show "cproc c1 = Some q \<longrightarrow> cproc c = Some q \<or> cproc c = None \<and> cpc c1 = C_check"
    using st ok by (cases "cpc c") (auto simp: simps split: option.splits if_splits dest: arg_cong [of _ _ cpc])
  show "cproc c = Some q \<longrightarrow> cproc c1 = Some q \<or> cpc c \<in> {C_free, C_put}"
    using st ok by (cases "cpc c") (auto simp: simps split: option.splits if_splits)
  show "cproc c = Some q \<longrightarrow> cpc c \<in> {C_top, C_slot, C_wait, C_finish} \<longrightarrow> cpc c1 \<in> {C_top, C_slot, C_wait, C_finish, C_free} \<or>
      pc (kpcb k q) \<noteq> code_size (code (kpcb k q))"
    using st by (cases "cpc c") (auto simp: simps split: option.splits if_splits)
  show "cpc c1 \<in> {C_exit, C_stopped} \<longrightarrow> dn \<or> cpc c = C_exit"
    using st by (cases "cpc c") (auto simp: simps split: option.splits if_splits)
qed

subsection \<open>The work of the processes\<close>

text \<open>
  The instructions a process has left. A process at the end of its program counts 1 until a CPU has
  taken it: \<open>run\<close> is called once for a program without instructions.
\<close>

definition taken :: "cpu_t list \<Rightarrow> pcb_ptr \<Rightarrow> bool" where
  "taken cs q \<longleftrightarrow> (\<exists>i. holds cs i q \<and> cpc (cs ! i) \<in> {C_top, C_slot, C_wait, C_finish, C_free})"

definition left :: "kernel \<Rightarrow> cpu_t list \<Rightarrow> pcb_ptr \<Rightarrow> nat" where
  "left k cs q = unat (code_size (code (kpcb k q))) - unat (pc (kpcb k q)) +
     (if pc (kpcb k q) = code_size (code (kpcb k q)) \<and> \<not> taken cs q then 1 else 0)"

lemma unat_next:
  assumes "x < y"
  shows "unat (x + 1) = Suc (unat (x :: 'a::len word))"
proof -
  have "unat y < 2 ^ LENGTH('a)"
    by (rule unsigned_less)
  with assms have "Suc (unat x) < 2 ^ LENGTH('a)"
    unfolding word_less_nat_alt by linarith
  then show ?thesis
    by (simp add: unat_word_ariths)
qed

lemma taken_update:
  assumes i: "i < length cs"
    and keep: "cproc (cs ! i) = Some q \<Longrightarrow> cpc (cs ! i) \<in> {C_top, C_slot, C_wait, C_finish, C_free} \<Longrightarrow>
      cproc c = Some q \<and> cpc c \<in> {C_top, C_slot, C_wait, C_finish, C_free}"
    and t: "taken cs q"
  shows "taken (cs[i := c]) q"
proof -
  obtain j where j: "holds cs j q" "cpc (cs ! j) \<in> {C_top, C_slot, C_wait, C_finish, C_free}"
    using t by (auto simp: taken_def)
  then show ?thesis
    using i keep by (cases "j = i") (auto simp: taken_def holds_update intro!: exI [of _ j], auto simp: holds_def)
qed

lemma left_keep:
  assumes i: "i < length (cpus s)" and st: "cpu_step ts dn i (kst s) (tmr s) (cpus s ! i) = Some (Inr (k1, t1, c1))"
    and ok: "cpu_ok ts (kst s) (cpus s ! i)" and nf: "cproc (cpus s ! i) = Some q \<longrightarrow> cpc (cpus s ! i) \<noteq> C_free"
    and same: "code (kpcb k1 q) = code (kpcb (kst s) q)" "pc (kpcb k1 q) = pc (kpcb (kst s) q)"
  shows "left k1 ((cpus s)[i := c1]) q \<le> left (kst s) (cpus s) q"
proof (cases "taken (cpus s) q \<and> pc (kpcb (kst s) q) = code_size (code (kpcb (kst s) q))")
  case True
  have "cproc c1 = Some q \<and> cpc c1 \<in> {C_top, C_slot, C_wait, C_finish, C_free}"
    if at: "cproc (cpus s ! i) = Some q" "cpc (cpus s ! i) \<in> {C_top, C_slot, C_wait, C_finish, C_free}"
  proof -
    from at nf have "cpc (cpus s ! i) \<in> {C_top, C_slot, C_wait, C_finish}" by simp
    moreover from this have "cpc (cpus s ! i) \<notin> {C_free, C_put}" by auto
    ultimately show ?thesis
      using cpu_step_local(4,5) [OF st ok, of q] at(1) True by blast
  qed
  then have "taken ((cpus s)[i := c1]) q"
    by (rule taken_update [OF i]) (use True in simp_all)
  with same True show ?thesis
    by (simp add: left_def)
next
  case False
  with same show ?thesis
    by (auto simp: left_def)
qed

lemma left_run:
  assumes ok: "kernel_ok k" "p \<in> kheap k" and r: "run k p = Inr (v, k1)" and nt: "\<not> taken cs p" and t: "taken cs' p"
  shows "Suc (left k1 cs' p) \<le> left k cs p"
  using ok
proof (cases rule: run_ok)
  case finished
  with r nt t show ?thesis
    by (simp add: left_def)
next
  case (executed v' k')
  then have "k1 = k'" "code (kpcb k1 p) = code (kpcb k p)"
    using r effect_fields(3) [OF executed(5), of p] by simp_all
  moreover have "unat (pc (kpcb k' p)) = Suc (unat (pc (kpcb k p)))" "unat (pc (kpcb k p)) < unat (code_size (code (kpcb k p)))"
    using executed(1,6) by (simp_all add: unat_next word_less_nat_alt [symmetric])
  ultimately show ?thesis
    using t by (simp add: left_def)
qed

lemma left_step:
  assumes cf: "conf_ok cf" and ok: "os_ok cf s" and i: "i < length (cpus s)"
    and st: "cpu_step (time_slot cf) dn i (kst s) (tmr s) (cpus s ! i) = Some (Inr (k1, t1, c1))" and q: "q \<in> kheap k1"
  shows "q \<in> kheap (kst s) \<and> left k1 ((cpus s)[i := c1]) q + (if cpc (cpus s ! i) = C_run \<and> cproc (cpus s ! i) = Some q then 1 else 0) \<le>
    left (kst s) (cpus s) q"
proof -
  let ?k = "kst s" and ?c = "cpus s ! i" and ?cs = "(cpus s)[i := c1]"
  note F = os_cpuD [OF cf ok i]
  note keep = left_keep [OF i st F(2), of q]
  from cf ok i st show ?thesis
  proof (cases rule: cpu_step_kernel)
    case sched
    then show ?thesis
      using keep q by simp
  next
    case (free p)
    with keep q show ?thesis by auto
  next
    case (run p v)
    note E = run_effect(2) [OF F(1) F(7) [OF run(2)] run(3)]
    have qk: "q \<in> kheap ?k"
      using effectD(1) [OF E] q by blast
    show ?thesis
    proof (cases "q = p")
      case False
      with qk keep effect_fields(3,5) [OF E, of q] run(2) show ?thesis by simp
    next
      case True
      have "j = i" if "holds (cpus s) j p" for j
        using ok i run(2) that by (auto simp: os_ok_def placed_def holds_def)
      then have "\<not> taken (cpus s) p"
        using run(1) by (auto simp: taken_def)
      moreover have "taken ?cs p"
        using i run(4,5) by (auto simp: taken_def holds_update intro!: exI [of _ i])
      ultimately show ?thesis
        using left_run [OF F(1) F(7) [OF run(2)] run(3)] qk run(1,2) True by simp
    qed
  qed
qed

subsection \<open>The work of the system\<close>

text \<open>A CPU that holds a process at the end of a slot has executed an instruction in that slot.\<close>

definition credit :: "os_t \<Rightarrow> nat \<Rightarrow> nat" where
  "credit s i = (let c = cpus s ! i in
     if cproc c \<noteq> None \<and> (cpc c = C_slot \<or> cpc c = C_wait \<and> settled (tmr s) i) then 1 else 0)"

definition gap :: "64 word \<Rightarrow> 64 word \<Rightarrow> nat" where
  "gap now start = unat start - unat now"

text \<open>
  The slots the loader waits for; \<open>x\<close> says that it has ended its slot. The clock may wrap around while
  the loader does not wait for a start time, so then the bound is that of the type.
\<close>

fun ld_wait_slots :: "64 word \<Rightarrow> 64 word \<Rightarrow> bool \<Rightarrow> ld_pc \<Rightarrow> nat" where
  "ld_wait_slots now start x L_load = 2 ^ 64"
| "ld_wait_slots now start x L_time = gap now start"
| "ld_wait_slots now start x L_add = 0"
| "ld_wait_slots now start x (L_slot w) = Suc (if w then gap (now + 1) start else 2 ^ 64)"
| "ld_wait_slots now start x (L_wait w) =
     (if x then Suc (if w then gap (now + 1) start else 2 ^ 64) else if w then gap now start else 2 ^ 64)"
| "ld_wait_slots now start x _ = 0"

definition ld_work :: "conf_t \<Rightarrow> os_t \<Rightarrow> nat" where
  "ld_work cf s = (length (ld_path cf) - li (ldr s)) * 2 ^ 65 +
     ld_wait_slots (time_now (tmr s)) (start_time cf ! li (ldr s)) (settled (tmr s) (ld_dev s)) (lpc (ldr s))"

definition work :: "conf_t \<Rightarrow> os_t \<Rightarrow> nat" where
  "work cf s = (\<Sum>q \<in> kheap (kst s). left (kst s) (cpus s) q) + (\<Sum>i < length (cpus s). credit s i) + ld_work cf s"

lemma gap_max: "gap now start \<le> 18446744073709551616"
  using unsigned_less [where ?'a = nat, of start] by (simp add: gap_def)

lemma gap_next: "now < start \<Longrightarrow> gap now start = Suc (gap (now + 1) start)"
  by (simp add: gap_def unat_next word_less_nat_alt)

lemma gap_le: "gap now start \<le> Suc (gap (now + 1) start)"
proof (cases "now < start")
  case False
  then show ?thesis
    by (simp add: gap_def word_less_nat_alt)
qed (simp add: gap_next)

lemma left_lt: "left k cs q \<le> 2 ^ 32"
  using unsigned_less [where ?'a = nat, of "code_size (code (kpcb k q))"] by (auto simp: left_def)

lemma ld_work_cong:
  assumes "ldr s' = ldr s" and "length (cpus s') = length (cpus s)" and "time_now (tmr s') = time_now (tmr s)"
    and "settled (tmr s') (ld_dev s) = settled (tmr s) (ld_dev s)"
  shows "ld_work cf s' = ld_work cf s"
  using assms by (simp add: ld_work_def)

lemma cpu_settled:
  assumes "cpu_step ts dn i k t c = Some (Inr (k1, t1, c1))"
  shows "j \<noteq> i \<Longrightarrow> settled t1 j = settled t j" and "time_now t1 = time_now t" and "cpc c1 \<noteq> C_wait \<Longrightarrow> settled t1 i = settled t i"
  using assms by (cases rule: cpu_step_dev; simp add: settled_def pending_def next_slot_begin_def detach_event_def)+

lemma credit_move:
  assumes i: "i < length (cpus s)" and st: "cpu_step ts dn i (kst s) (tmr s) (cpus s ! i) = Some (Inr (k1, t1, c1))"
    and ok: "cpu_ok ts (kst s) (cpus s ! i)"
  shows "j \<noteq> i \<Longrightarrow> credit (cpu_moved s i k1 t1 c1) j = credit s j"
    and "credit (cpu_moved s i k1 t1 c1) i \<le> credit s i + (if cpc (cpus s ! i) = C_run then 1 else 0)"
proof -
  show "j \<noteq> i \<Longrightarrow> credit (cpu_moved s i k1 t1 c1) j = credit s j"
    using cpu_settled(1) [OF st] by (simp add: credit_def cpu_moved_def)
  show "credit (cpu_moved s i k1 t1 c1) i \<le> credit s i + (if cpc (cpus s ! i) = C_run then 1 else 0)"
    using i cpu_step_local(1,2) [OF st ok] by (auto simp: credit_def cpu_moved_def Let_def)
qed

lemma cpu_work:
  assumes cf: "conf_ok cf" and ok: "os_ok cf s" and i: "i < length (cpus s)"
    and st: "cpu_step (time_slot cf) dn i (kst s) (tmr s) (cpus s ! i) = Some (Inr (k1, t1, c1))"
  shows "work cf (cpu_moved s i k1 t1 c1) \<le> work cf s"
proof -
  let ?s = "cpu_moved s i k1 t1 c1" and ?r = "if cpc (cpus s ! i) = C_run then 1 else 0 :: nat"
  note F = os_cpuD [OF cf ok i]
  note L = left_step [OF cf ok i st]
  have flds: "kst ?s = k1" "cpus ?s = (cpus s)[i := c1]" "ldr ?s = ldr s" "tmr ?s = t1"
    by (simp_all add: cpu_moved_def)
  have ld: "ld_work cf ?s = ld_work cf s"
    by (rule ld_work_cong) (use cpu_settled(1,2) [OF st] i in \<open>simp_all add: flds\<close>)
  have "sum (credit ?s) {..<length (cpus s)} + credit s i = sum (credit s) {..<length (cpus s)} + credit ?s i"
    using i credit_move(1) [OF i st F(2)] by (intro sum_change_one(1)) simp_all
  then have cr: "sum (credit ?s) {..<length (cpus s)} \<le> sum (credit s) {..<length (cpus s)} + ?r"
    using credit_move(2) [OF i st F(2)] by linarith
  have sub: "kheap k1 \<subseteq> kheap (kst s)"
    using L by blast
  let ?ran = "\<lambda>q. if cpc (cpus s ! i) = C_run \<and> cproc (cpus s ! i) = Some q then 1 else 0 :: nat"
  have "?r \<le> sum ?ran (kheap k1)"
  proof (cases "cpc (cpus s ! i) = C_run")
    case True
    then obtain p v where p: "cproc (cpus s ! i) = Some p" "run (kst s) p = Inr (v, k1)"
      using cpu_step_kernel [OF cf ok i st] by (metis insertI1 cpu_pc.distinct)
    have "p \<in> kheap k1"
      by (rule effectD(2) [OF run_effect(2) [OF F(1) F(7) [OF p(1)] p(2)]])
    with True p(1) finite_subset [OF sub F(5)] show ?thesis
      by simp
  qed simp
  then have "sum (left k1 (cpus ?s)) (kheap k1) + ?r \<le> (\<Sum>q \<in> kheap k1. left k1 (cpus ?s) q + ?ran q)"
    by (simp add: sum.distrib)
  also have "\<dots> \<le> sum (left (kst s) (cpus s)) (kheap k1)"
    by (rule sum_mono) (use L in \<open>simp add: flds\<close>)
  also have "\<dots> \<le> sum (left (kst s) (cpus s)) (kheap (kst s))"
    by (rule sum_mono2) (use sub F(5) in auto)
  finally show ?thesis
    using ld cr by (simp add: work_def flds)
qed

lemma ld_step_credit:
  assumes "ld_step cf s s'" and "i < length (cpus s)"
  shows "credit s' i = credit s i"
proof -
  have T: "tpc (tmr s') = tpc (tmr s)" "ids (tmr s') i = ids (tmr s) i" "cpus s' = cpus s"
    using ld_step_timer [OF assms(1)] assms(2) by simp_all
  then show ?thesis
    using settled_cong [OF T(1,2)] by (simp add: credit_def)
qed

lemma k_add_left:
  assumes "k_add k p b = Inr k1" and "q \<noteq> p"
  shows "left k1 cs q = left k cs q"
proof -
  have "kpcb k1 q = kpcb k q"
    using assms by (auto simp: k_add_def Let_def set_pcb_def rbind_Inr_iff add_proc_def add_mlq_proc_def put_mlq_proc_def split: if_splits)
  then show ?thesis
    by (simp add: left_def)
qed

lemma ld_add_left:
  assumes "k_add k p b = Inr k1" and "p \<notin> kheap k" and "finite (kheap k)" and "kheap k1 = insert p (kheap k)"
  shows "sum (left k1 cs) (kheap k1) \<le> sum (left k cs) (kheap k) + 2 ^ 32"
proof -
  have "sum (left k1 cs) (kheap k) = sum (left k cs) (kheap k)"
    by (rule sum.cong [OF refl]) (metis k_add_left [OF assms(1)] assms(2))
  then show ?thesis
    using assms(2-4) left_lt [of k1 cs p] by simp
qed

lemma ld_step_work:
  assumes cf: "conf_ok cf" and ok: "os_ok cf s" and st: "ld_step cf s s'"
  shows "work cf s' \<le> work cf s"
proof -
  have cr: "sum (credit s') {..<length (cpus s')} = sum (credit s) {..<length (cpus s)}"
    using ld_step_timer [OF st] ld_step_credit [OF st] by simp
  show ?thesis
  proof (cases "lpc (ldr s) = L_add")
    case False
    with st have "kst s' = kst s" "cpus s' = cpus s"
      by (cases rule: ld_step.cases; simp)+
    moreover have "ld_work cf s' \<le> ld_work cf s"
      using st False
      by (cases rule: ld_step.cases)
        (auto simp: ld_work_def current_time_def gap_max gap_le gap_next settled_def pending_def next_slot_begin_def next_slot_over_def detach_event_def)
    ultimately show ?thesis
      using cr by (simp add: work_def)
  next
    case True
    from st True show ?thesis
    proof (cases rule: ld_step.cases)
      case (ld_add p k1)
      have l: "li (ldr s) < length (ld_path cf)" "finite (kheap (kst s))"
        using ok True by (simp_all add: os_ok_def ld_ok_def)
      have kh: "kheap k1 = insert p (kheap (kst s))"
        using ld_add(4) by (auto simp: k_add_def Let_def rbind_Inr_iff)
      note ld_add_left [OF ld_add(4,3) l(2) kh, of "cpus s"]
      moreover obtain m where "length (ld_path cf) - li (ldr s) = Suc m" "length (ld_path cf) - Suc (li (ldr s)) = m"
        using l(1) by (metis Suc_diff_Suc)
      then have "ld_work cf s' + 2 ^ 32 \<le> ld_work cf s"
        by (simp add: ld_work_def ld_add(1) True)
      ultimately show ?thesis
        using cr ld_add(1) by (simp add: work_def)
    qed simp_all
  qed
qed

lemma timer_work:
  assumes st: "timer_step (tmr s) = Some t1" and nt: "\<not> is_tick (tmr s)"
  shows "work cf (s\<lparr>tmr := t1\<rparr>) = work cf s"
proof -
  note T = timer_settled [OF st nt]
  have "credit (s\<lparr>tmr := t1\<rparr>) = credit s" "ld_work cf (s\<lparr>tmr := t1\<rparr>) = ld_work cf s"
    using T by (simp_all add: credit_def ld_work_def fun_eq_iff)
  then show ?thesis
    by (simp add: work_def)
qed

lemma main_work:
  assumes "main_step s s'"
  shows "work cf s' = work cf s"
proof -
  have "settled (tmr s') d = settled (tmr s) d" for d
    using assms by (cases rule: main_step.cases)
      (auto simp: settled_def pending_def stop_request_def stop_join_def split: if_splits)
  moreover have "kst s' = kst s" "cpus s' = cpus s" "ldr s' = ldr s" "time_now (tmr s') = time_now (tmr s)"
    using assms by (cases rule: main_step.cases; auto simp: stop_request_def stop_join_def split: if_splits)+
  ultimately have "credit s' = credit s" "ld_work cf s' = ld_work cf s" "kst s' = kst s" "cpus s' = cpus s"
    by (simp_all add: credit_def ld_work_def fun_eq_iff)
  then show ?thesis
    by (simp add: work_def)
qed

lemma work_step:
  assumes cf: "conf_ok cf" and ok: "os_ok cf s" and st: "os_step cf s s'" and nt: "time_now (tmr s') = time_now (tmr s)"
  shows "work cf s' \<le> work cf s"
  using st
proof (cases rule: os_step.cases)
  case (os_cpu i k1 t1 c1)
  with cpu_work [OF cf ok os_cpu(3,4)] show ?thesis by simp
next
  case os_ld
  with ld_step_work [OF cf ok] show ?thesis by blast
next
  case (os_timer t1)
  have "\<not> is_tick (tmr s)"
    using tick_settled(2) [OF os_timer(3)] nt os_timer(1) by auto
  with timer_work [OF os_timer(3)] os_timer(1) show ?thesis by simp
next
  case os_main
  with main_work show ?thesis by simp
qed

subsection \<open>Processes are fed to the CPUs\<close>

text \<open>A CPU that will take a process in this slot or has one; \<open>x\<close> says that it has ended its slot.\<close>

definition awake :: "bool \<Rightarrow> cpu_t \<Rightarrow> bool" where
  "awake x c \<longleftrightarrow> cproc c \<noteq> None \<or> cpc c \<in> {C_top, C_get} \<or> cpc c = C_wait \<and> \<not> x"

text \<open>The loader has added a process in this slot.\<close>

definition fresh :: "os_t \<Rightarrow> bool" where
  "fresh s \<longleftrightarrow> lpc (ldr s) = L_slot False \<or> lpc (ldr s) = L_wait False \<and> settled (tmr s) (ld_dev s)"

definition fed :: "os_t \<Rightarrow> bool" where
  "fed s \<longleftrightarrow> cpus s \<noteq> [] \<and>
     (all_loaded s \<or> (\<exists>c \<in> set (cpus s). cpc c \<in> {C_exit, C_stopped}) \<longrightarrow> lpc (ldr s) \<in> {L_exit, L_stopped}) \<and>
     ((\<exists>p. queued (ksched (kst s)) p) \<longrightarrow> fresh s \<or> (\<exists>i < length (cpus s). awake (settled (tmr s) i) (cpus s ! i)))"

lemma cpu_awake:
  assumes cf: "conf_ok cf" and ok: "os_ok cf s" and i: "i < length (cpus s)"
    and st: "cpu_step (time_slot cf) dn i (kst s) (tmr s) (cpus s ! i) = Some (Inr (k1, t1, c1))" and q: "queued (ksched k1) q"
  shows "awake (settled t1 i) c1 \<or> queued (ksched (kst s)) q \<and> \<not> awake (settled (tmr s) i) (cpus s ! i)"
proof -
  let ?k = "kst s" and ?c = "cpus s ! i"
  note F = os_cpuD [OF cf ok i]
  have get: "p \<noteq> None" if "k_get ?k = Inr (p, k1)" for p
    by (cases rule: k_get_ok [OF F(1)]) (use that q in auto)
  show ?thesis
  proof (cases "cproc ?c")
    case (Some p)
    have "cpc c1 = C_get" if "cpc ?c \<in> {C_free, C_put}"
      using st that by (auto simp: cpu_step_def rbind_Inr_iff)
    then show ?thesis
      using cpu_step_local(4) [OF st F(2), of p] Some by (auto simp: awake_def)
  next
    case None
    then consider "cpc ?c \<in> {C_top, C_get}" | "cpc ?c \<in> {C_check, C_slot, C_exit}" | "cpc ?c = C_wait" | "cpc ?c = C_stopped"
      using F(2) by (auto simp: cpu_ok_def)
    then show ?thesis
    proof cases
      case 1
      then obtain p where "k_get ?k = Inr (p, k1)" "cproc c1 = p"
        using st None by (auto simp: cpu_step_def rbind_Inr_iff split: if_splits)
      with get show ?thesis
        by (simp add: awake_def)
    next
      case 2
      then have "k1 = ?k" "\<not> awake (settled (tmr s) i) ?c"
        using st None by (auto simp: cpu_step_def awake_def split: if_splits)
      with q show ?thesis by simp
    next
      case 3
      then have "cpc c1 = C_top"
        using st by (auto simp: cpu_step_def split: if_splits)
      then show ?thesis
        by (simp add: awake_def)
    next
      case 4
      with st show ?thesis
        by (simp add: cpu_step_def)
    qed
  qed
qed

lemma fedD:
  assumes "fed s"
  shows "cpus s \<noteq> []" "all_loaded s \<Longrightarrow> lpc (ldr s) \<in> {L_exit, L_stopped}"
    "i < length (cpus s) \<Longrightarrow> cpc (cpus s ! i) \<in> {C_exit, C_stopped} \<Longrightarrow> lpc (ldr s) \<in> {L_exit, L_stopped}"
    "queued (ksched (kst s)) p \<Longrightarrow> fresh s \<or> (\<exists>i < length (cpus s). awake (settled (tmr s) i) (cpus s ! i))"
  using assms unfolding fed_def by (blast, blast, meson nth_mem, blast)

lemma fedI:
  assumes "cpus s \<noteq> []" "all_loaded s \<Longrightarrow> lpc (ldr s) \<in> {L_exit, L_stopped}"
    "\<And>i. i < length (cpus s) \<Longrightarrow> cpc (cpus s ! i) \<in> {C_exit, C_stopped} \<Longrightarrow> lpc (ldr s) \<in> {L_exit, L_stopped}"
    "\<And>p. queued (ksched (kst s)) p \<Longrightarrow> fresh s \<or> (\<exists>i < length (cpus s). awake (settled (tmr s) i) (cpus s ! i))"
  shows "fed s"
proof -
  have "lpc (ldr s) \<in> {L_exit, L_stopped}" if "c \<in> set (cpus s)" "cpc c \<in> {C_exit, C_stopped}" for c
    using that assms(3) by (metis in_set_conv_nth)
  with assms(1,2,4) show ?thesis
    unfolding fed_def by blast
qed

lemma cpu_fed:
  assumes cf: "conf_ok cf" and ok: "os_ok cf s" and i: "i < length (cpus s)" and fed: "fed s"
    and st: "cpu_step (time_slot cf) (all_loaded s) i (kst s) (tmr s) (cpus s ! i) = Some (Inr (k1, t1, c1))"
  shows "fed (cpu_moved s i k1 t1 c1)"
proof (rule fedI)
  let ?s = "cpu_moved s i k1 t1 c1"
  have flds: "kst ?s = k1" "cpus ?s = (cpus s)[i := c1]" "ldr ?s = ldr s" "tmr ?s = t1" "all_loaded ?s = all_loaded s"
    by (simp_all add: cpu_moved_def)
  note S = cpu_settled(1) [OF st]
  show "cpus ?s \<noteq> []" "all_loaded ?s \<Longrightarrow> lpc (ldr ?s) \<in> {L_exit, L_stopped}"
    using fedD(1,2) [OF fed] by (simp_all add: flds)
  show "lpc (ldr ?s) \<in> {L_exit, L_stopped}" if "j < length (cpus ?s)" "cpc (cpus ?s ! j) \<in> {C_exit, C_stopped}" for j
  proof (cases "j = i")
    case True
    with that i have "all_loaded s \<or> cpc (cpus s ! i) = C_exit"
      using cpu_step_local(6) [OF st os_cpuD(2) [OF cf ok i]] by (simp add: flds)
    then show ?thesis
      using fedD(2) [OF fed] fedD(3) [OF fed i] by (auto simp: flds)
  next
    case False
    with that fedD(3) [OF fed, of j] show ?thesis by (simp add: flds)
  qed
  show "fresh ?s \<or> (\<exists>j < length (cpus ?s). awake (settled (tmr ?s) j) (cpus ?s ! j))" if q: "queued (ksched (kst ?s)) q" for q
  proof (cases "awake (settled t1 i) c1")
    case True
    with i show ?thesis by (auto simp: flds)
  next
    case False
    then have "queued (ksched (kst s)) q" "\<not> awake (settled (tmr s) i) (cpus s ! i)"
      using cpu_awake [OF cf ok i st] q by (auto simp: flds)
    then have "fresh s \<or> (\<exists>j < length (cpus s). j \<noteq> i \<and> awake (settled (tmr s) j) (cpus s ! j))"
      using fedD(4) [OF fed] by blast
    with S show ?thesis
      using i by (fastforce simp: fresh_def flds)
  qed
qed

lemma ld_fed:
  assumes st: "ld_step cf s s'" and fed: "fed s"
    and np: "pending (tmr s) (ld_dev s) \<Longrightarrow> dev_of s (ld_dev s) \<noteq> Working"
  shows "fed s'"
proof (rule fedI)
  note T = ld_step_timer [OF st]
  have S: "settled (tmr s') i = settled (tmr s) i" if "i < length (cpus s)" for i
    using T that by (intro settled_cong) auto
  show "cpus s' \<noteq> []"
    using T fedD(1) [OF fed] by simp
  show "all_loaded s' \<Longrightarrow> lpc (ldr s') \<in> {L_exit, L_stopped}"
    using st fedD(2) [OF fed] by (cases rule: ld_step.cases) auto
  show "lpc (ldr s') \<in> {L_exit, L_stopped}" if "i < length (cpus s')" "cpc (cpus s' ! i) \<in> {C_exit, C_stopped}" for i
    using st that fedD(3) [OF fed, of i] by (cases rule: ld_step.cases) auto
  show "fresh s' \<or> (\<exists>i < length (cpus s'). awake (settled (tmr s') i) (cpus s' ! i))" if q: "queued (ksched (kst s')) q" for q
  proof (cases "fresh s'")
    case False
    from st False have "kst s' = kst s"
      by (cases rule: ld_step.cases) (simp_all add: fresh_def)
    moreover from st False np have "\<not> fresh s"
      by (cases rule: ld_step.cases) (auto simp: fresh_def settled_def pending_def next_slot_begin_def next_slot_over_def dev_of_def)
    ultimately have "queued (ksched (kst s)) q" "\<not> fresh s"
      using q by simp_all
    with fedD(4) [OF fed, of q] S T show ?thesis by auto
  qed simp
qed

lemma timer_fed:
  assumes st: "timer_step (tmr s) = Some t1" and nt: "\<not> is_tick (tmr s)" and fed: "fed s"
  shows "fed (s\<lparr>tmr := t1\<rparr>)"
  using fed timer_settled [OF st nt] by (simp add: fed_def fresh_def)

lemma tick_fed:
  assumes st: "timer_step (tmr s) = Some t1" and tick: "is_tick (tmr s)" and fed: "fed s"
    and devs: "\<And>d. d \<le> length (cpus s) \<Longrightarrow> d \<in> set (dev_list (tmr s)) \<and> (dev_of s d = Waiting \<and> settled (tmr s) d \<or> dev_of s d = Finished)"
  shows "fed (s\<lparr>tmr := t1\<rparr>)"
proof (rule fedI)
  let ?s = "s\<lparr>tmr := t1\<rparr>"
  have S: "\<not> settled t1 i" if "i \<le> length (cpus s)" for i
    using tick_settled(1) [OF st tick] devs [OF that] by simp
  show "cpus ?s \<noteq> []" "all_loaded ?s \<Longrightarrow> lpc (ldr ?s) \<in> {L_exit, L_stopped}"
    using fedD(1,2) [OF fed] by simp_all
  show "lpc (ldr ?s) \<in> {L_exit, L_stopped}" if "i < length (cpus ?s)" "cpc (cpus ?s ! i) \<in> {C_exit, C_stopped}" for i
    using that fedD(3) [OF fed, of i] by simp
  show "fresh ?s \<or> (\<exists>i < length (cpus ?s). awake (settled (tmr ?s) i) (cpus ?s ! i))" if q: "queued (ksched (kst ?s)) q" for q
  proof (cases "fresh s")
    case True
    have n: "0 < length (cpus s)"
      using fedD(1) [OF fed] by simp
    have "cpc (cpus s ! 0) = C_wait"
      using devs [of 0] n fedD(3) [OF fed n] True by (auto simp: dev_of_def fresh_def split: cpu_pc.splits)
    with n S [of 0] show ?thesis
      by (auto simp: awake_def)
  next
    case False
    with fedD(4) [OF fed, of q] q S show ?thesis
      by (auto simp: awake_def)
  qed
qed

subsection \<open>The tick decreases the work\<close>

lemma tick_credit:
  assumes ok: "os_ok cf s" and fed: "fed s" and stop: "lpc (ldr s) = L_stopped" and alive: "kheap (kst s) \<noteq> {}"
    and devs: "\<And>d. d \<le> length (cpus s) \<Longrightarrow> dev_of s d = Waiting \<and> settled (tmr s) d \<or> dev_of s d = Finished"
  shows "\<exists>i < length (cpus s). credit s i = 1"
proof -
  obtain p where p: "p \<in> kheap (kst s)"
    using alive by blast
  have at: "cpc (cpus s ! i) = C_wait \<and> settled (tmr s) i \<or> cpc (cpus s ! i) = C_stopped" if "i < length (cpus s)" for i
    using devs [of i] that by (auto simp: dev_of_def split: cpu_pc.splits)
  have "\<exists>i < length (cpus s). cproc (cpus s ! i) \<noteq> None"
  proof (cases "queued (ksched (kst s)) p")
    case True
    then obtain i where i: "i < length (cpus s)" "awake (settled (tmr s) i) (cpus s ! i)"
      using fedD(4) [OF fed, of p] stop by (auto simp: fresh_def)
    with at [OF i(1)] show ?thesis
      by (auto simp: awake_def)
  next
    case False
    moreover have "placed (kst s) (cpus s)"
      using ok by (simp add: os_ok_def)
    ultimately have "\<exists>i. holds (cpus s) i p"
      using p unfolding placed_def by blast
    then show ?thesis
      by (auto simp: holds_def)
  qed
  then obtain i where i: "i < length (cpus s)" "cproc (cpus s ! i) \<noteq> None"
    by blast
  then have "cpc (cpus s ! i) \<noteq> C_stopped"
    using ok by (auto simp: os_ok_def cpu_ok_def split: option.splits dest!: nth_mem)
  with i at [OF i(1)] show ?thesis
    by (auto simp: credit_def Let_def)
qed

lemma tick_work:
  assumes st: "timer_step (tmr s) = Some t1" and tick: "is_tick (tmr s)" and ok: "os_ok cf s" and fed: "fed s"
    and ne: "\<not> all_ended s"
    and devs: "\<And>d. d \<le> length (cpus s) \<Longrightarrow> d \<in> set (dev_list (tmr s)) \<and> (dev_of s d = Waiting \<and> settled (tmr s) d \<or> dev_of s d = Finished)"
  shows "work cf (s\<lparr>tmr := t1\<rparr>) < work cf s"
proof -
  let ?s = "s\<lparr>tmr := t1\<rparr>" and ?n = "length (cpus s)"
  have S: "\<not> settled t1 i" if "i \<le> ?n" for i
    using tick_settled(1) [OF st tick] devs [OF that] by simp
  have "credit ?s i = 0" if "i < ?n" for i
    using S [of i] devs [of i] that by (auto simp: credit_def Let_def dev_of_def split: cpu_pc.splits)
  then have cr: "sum (credit ?s) {..<?n} = 0"
    by simp
  consider (wait) w where "lpc (ldr s) = L_wait w" "settled (tmr s) ?n" | (stopped) "lpc (ldr s) = L_stopped"
    using devs [of ?n] by (auto simp: dev_of_def split: ld_pc.splits)
  then show ?thesis
  proof cases
    case wait
    then have "ld_work cf ?s < ld_work cf s"
      using S [of ?n] tick_settled(2) [OF st tick] by (simp add: ld_work_def)
    with cr show ?thesis
      by (simp add: work_def)
  next
    case stopped
    then obtain i where i: "i < ?n" "credit s i = 1"
      using tick_credit [OF ok fed stopped] devs ne by (auto simp: all_ended_def)
    then have "0 < sum (credit s) {..<?n}"
      by (intro sum_pos2 [of _ i]) simp_all
    moreover have "ld_work cf ?s = ld_work cf s"
      using stopped by (simp add: ld_work_def)
    ultimately show ?thesis
      using cr by (simp add: work_def)
  qed
qed

subsection \<open>All states of a run\<close>

definition ld_over :: "conf_t \<Rightarrow> os_t \<Rightarrow> bool" where
  "ld_over cf s \<longleftrightarrow> (lpc (ldr s) \<in> {L_done, L_exit, L_stopped} \<longrightarrow> li (ldr s) = length (ld_path cf))"

text \<open>The file of the next program does not exist or is not a program, so that \<open>load\<close> ends the simulator.\<close>

definition load_failed :: "conf_t \<Rightarrow> os_t \<Rightarrow> bool" where
  "load_failed cf s \<longleftrightarrow> lpc (ldr s) = L_load \<and> li (ldr s) < length (ld_path cf) \<and>
     (\<exists>junk. load (files cf) (avail_pid (ldr s)) junk (ld_path cf ! li (ldr s)) = None)"

definition exit_ok :: "conf_t \<Rightarrow> os_t \<Rightarrow> bool" where
  "exit_ok cf s \<longleftrightarrow> (exited s \<longrightarrow> mpc s = M_end \<or> load_failed cf s)"

lemma exit_ok_step:
  assumes "os_step cf s s'"
  shows "exit_ok cf s'"
  using assms
proof (cases rule: os_step.cases)
  case os_cpu
  then show ?thesis
    by (simp add: exit_ok_def cpu_moved_def)
next
  case os_ld
  from os_ld(2) show ?thesis
    by (cases rule: ld_step.cases) (use os_ld(1) in \<open>auto simp: exit_ok_def load_failed_def\<close>)
next
  case os_timer
  then show ?thesis
    by (simp add: exit_ok_def)
next
  case os_main
  from os_main(2) show ?thesis
    by (cases rule: main_step.cases) (use os_main(1) in \<open>simp_all add: exit_ok_def\<close>)
qed

definition sys_state :: "conf_t \<Rightarrow> os_t \<Rightarrow> bool" where
  "sys_state cf s \<longleftrightarrow> conf_ok cf \<and> os_ok cf s \<and> main_ok s \<and> fed s \<and> ld_over cf s \<and> exit_ok cf s \<and> (\<exists>b. bar_ok b \<and> clock_sim s b)"

lemma ld_over_step:
  assumes st: "os_step cf s s'" and ok: "os_ok cf s" and over: "ld_over cf s"
  shows "ld_over cf s'"
  using st
proof (cases rule: os_step.cases)
  case os_ld
  from os_ld(2) ok over show ?thesis
    by (cases rule: ld_step.cases) (auto simp: ld_over_def os_ok_def ld_ok_def)
qed (use over in \<open>auto simp: ld_over_def cpu_moved_def elim!: main_step.cases\<close>)

lemma bar_steps_ok: "bar_step\<^sup>*\<^sup>* b b' \<Longrightarrow> bar_ok b \<Longrightarrow> bar_ok b'"
  by (induction rule: rtranclp_induct) (auto intro: bar_step_ok)

lemma sys_devs:
  assumes "main_ok s" and "\<not> exited s" and "bar_ok b" and "clock_sim s b" and "d \<le> length (cpus s)"
  shows "d \<in> set (dev_list (tmr s))"
    and "is_tick (tmr s) \<Longrightarrow> dev_of s d = Waiting \<and> settled (tmr s) d \<or> dev_of s d = Finished"
    and "pending (tmr s) d \<Longrightarrow> dev_of s d \<noteq> Working"
proof -
  have S: "tm b = tmr s" "dpc b d = dev_of s d"
    using assms(4,5) by (simp_all add: clock_sim_def)
  show d: "d \<in> set (dev_list (tmr s))"
    using assms(1,2,5) by (simp add: main_ok_def)
  show "is_tick (tmr s) \<Longrightarrow> dev_of s d = Waiting \<and> settled (tmr s) d \<or> dev_of s d = Finished"
    using at_tick [OF assms(3), of d] d by (simp add: S)
  show "pending (tmr s) d \<Longrightarrow> dev_of s d \<noteq> Working"
    using pending_passed [OF assms(3), of d] d by (simp add: S)
qed

lemma fed_step:
  assumes sys: "sys_state cf s" and st: "os_step cf s s'"
  shows "fed s'"
proof -
  obtain b where b: "conf_ok cf" "os_ok cf s" "main_ok s" "fed s" "bar_ok b" "clock_sim s b"
    using sys by (auto simp: sys_state_def)
  note D = sys_devs [OF b(3) exited_final [OF st] b(5,6)]
  from st show ?thesis
  proof (cases rule: os_step.cases)
    case (os_cpu i k1 t1 c1)
    with cpu_fed [OF b(1,2) os_cpu(3) b(4) os_cpu(4)] show ?thesis by simp
  next
    case os_ld
    with ld_fed [OF _ b(4)] D(3) show ?thesis by blast
  next
    case (os_timer t1)
    with timer_fed [OF os_timer(3) _ b(4)] tick_fed [OF os_timer(3) _ b(4)] D(1,2) show ?thesis
      by (cases "is_tick (tmr s)") auto
  next
    case os_main
    have "settled (tmr s') d = settled (tmr s) d" for d
      using os_main(2) by (cases rule: main_step.cases)
        (auto simp: settled_def pending_def stop_request_def stop_join_def split: if_splits)
    moreover have "kst s' = kst s" "cpus s' = cpus s" "ldr s' = ldr s" "all_loaded s' = all_loaded s"
      using os_main(2) by (cases rule: main_step.cases; simp)+
    ultimately show ?thesis
      using b(4) by (simp add: fed_def fresh_def)
  qed
qed

lemma sys_state_step:
  assumes st: "os_step cf s s'" and sys: "sys_state cf s"
  shows "sys_state cf s'"
proof -
  obtain b where b: "conf_ok cf" "os_ok cf s" "main_ok s" "bar_ok b" "clock_sim s b" "ld_over cf s"
    using sys by (auto simp: sys_state_def)
  obtain b' where "bar_step\<^sup>*\<^sup>* b b'" "clock_sim s' b'"
    using os_clock [OF st b(5,3)] by blast
  with bar_steps_ok b(4) have "\<exists>b. bar_ok b \<and> clock_sim s' b"
    by blast
  with os_step_ok [OF st b(1,2)] main_ok_step [OF st b(3)] fed_step [OF sys st] ld_over_step [OF st b(2,6)] exit_ok_step [OF st] b(1) show ?thesis
    by (simp add: sys_state_def)
qed

subsection \<open>Runs that have work to do\<close>

definition busy_step :: "conf_t \<Rightarrow> os_t \<Rightarrow> os_t \<Rightarrow> bool" where
  "busy_step cf s s' \<longleftrightarrow> os_step cf s s' \<and> \<not> all_ended s"

definition work_rank :: "conf_t \<Rightarrow> os_t \<Rightarrow> nat" where
  "work_rank cf s = work cf s * Suc (slot_bound s) + slot_rank s"

lemma tick_iff:
  assumes "os_step cf s s'" and "time_now (tmr s') \<noteq> time_now (tmr s)"
  obtains t1 where "timer_step (tmr s) = Some t1" "s' = s\<lparr>tmr := t1\<rparr>" "is_tick (tmr s)"
  using assms(1)
proof (cases rule: os_step.cases)
  case (os_cpu i k1 t1 c1)
  with cpu_settled(2) [OF os_cpu(4)] assms(2) show ?thesis
    by (simp add: cpu_moved_def)
next
  case os_ld
  with ld_step_timer assms(2) show ?thesis by blast
next
  case (os_timer t1)
  with timer_settled [OF os_timer(3)] assms(2) that show ?thesis by auto
next
  case os_main
  from os_main(2) assms(2) show ?thesis
    by (cases rule: main_step.cases) (auto simp: stop_request_def stop_join_def split: if_splits)
qed

lemma work_rank_step:
  assumes st: "busy_step cf s s'" and sys: "sys_state cf s"
  shows "work_rank cf s' < work_rank cf s"
proof -
  have os: "os_step cf s s'" and ne: "\<not> all_ended s"
    using st by (simp_all add: busy_step_def)
  obtain b where b: "conf_ok cf" "os_ok cf s" "main_ok s" "fed s" "bar_ok b" "clock_sim s b"
    using sys by (auto simp: sys_state_def)
  have same: "slot_bound s' = slot_bound s"
    using os_step_cpus [OF os] by (simp add: slot_bound_def)
  show ?thesis
  proof (cases "time_now (tmr s') = time_now (tmr s)")
    case True
    then have "work cf s' * Suc (slot_bound s) \<le> work cf s * Suc (slot_bound s)" "slot_rank s' < slot_rank s"
      using work_step [OF b(1,2) os] slot_rank_step [OF os] by (simp_all del: mult_Suc_right)
    then show ?thesis
      unfolding work_rank_def same by linarith
  next
    case False
    then obtain t1 where t1: "timer_step (tmr s) = Some t1" "s' = s\<lparr>tmr := t1\<rparr>" "is_tick (tmr s)"
      using tick_iff [OF os] by blast
    have "work cf s' < work cf s"
      unfolding t1(2) by (rule tick_work [OF t1(1,3) b(2,4) ne]) (use sys_devs [OF b(3) exited_final [OF os] b(5,6)] t1(3) in blast)
    then have "Suc (work cf s') * Suc (slot_bound s) \<le> work cf s * Suc (slot_bound s)"
      by (intro mult_le_mono1) simp
    moreover have "slot_rank s' \<le> slot_bound s"
    proof -
      obtain b' where b': "main_ok s'" "bar_ok b'" "clock_sim s' b'"
        using sys_state_step [OF os sys] by (auto simp: sys_state_def)
      have "\<not> exited s'"
        using exited_final [OF os] by (simp add: t1(2))
      with reach_rank [OF b'(1) _ b'(2,3)] same show ?thesis by simp
    qed
    ultimately show ?thesis
      unfolding work_rank_def same by simp
  qed
qed

interpretation busy_run: transition_rank "busy_step cf" "sys_state cf" "work_rank cf" for cf
  by unfold_locales (auto simp: busy_step_def intro: sys_state_step work_rank_step [unfolded busy_step_def])

lemma all_ended_step:
  assumes st: "os_step cf s s'" and ok: "os_ok cf s" and ended: "all_ended s"
  shows "all_ended s'"
  using st
proof (cases rule: os_step.cases)
  case (os_cpu i k1 t1 c1)
  have "kernel_ok (kst s)" "cpu_ok (time_slot cf) (kst s) (cpus s ! i)" "kheap (kst s) = {}"
    using ok ended os_cpu(3) by (simp_all add: os_ok_def all_ended_def)
  from cpu_step_ended(1) [OF this os_cpu(4)] ended os_cpu(1) show ?thesis
    by (simp add: all_ended_def cpu_moved_def)
next
  case os_ld
  from os_ld(2) ended show ?thesis
    by (cases rule: ld_step.cases) (auto simp: all_ended_def)
qed (use ended in \<open>auto simp: all_ended_def elim!: main_step.cases\<close>)

lemma busy_runs:
  assumes "(os_step cf ^^ k) s s'" and "sys_state cf s" and "\<not> all_ended s'"
  shows "(busy_step cf ^^ k) s s' \<and> sys_state cf s'"
  using assms(1,3)
proof (induction k arbitrary: s')
  case 0
  with assms(2) show ?case by simp
next
  case (Suc k)
  from Suc.prems(1) obtain s1 where s1: "(os_step cf ^^ k) s s1" "os_step cf s1 s'"
    by (rule relpowp_Suc_E)
  have sys1: "sys_state cf s1"
    using relpowp_imp_rtranclp [OF s1(1)] assms(2) by (induction rule: rtranclp_induct) (auto intro: sys_state_step)
  with all_ended_step [OF s1(2)] Suc.prems(2) have "\<not> all_ended s1"
    by (auto simp: sys_state_def)
  with Suc.IH [OF s1(1)] s1(2) sys_state_step [OF s1(2) sys1] show ?case
    by (auto simp: busy_step_def)
qed

lemma start_fed:
  assumes cf: "conf_ok cf" and s0: "os_start cf d blocks = Inr s0"
  shows "sys_state cf s0"
proof -
  obtain s1 where s1: "os_start cf d blocks = Inr s1" "os_ok cf s1" "length (cpus s1) = nat (num_cpus cf)"
      "\<And>i. i < length (cpus s1) \<Longrightarrow> cpus s1 ! i = \<lparr>cproc = None, time_left = 0, cpc = C_top\<rparr>" "\<not> all_loaded s1"
      "lpc (ldr s1) = L_load" "\<not> exited s1"
    by (rule os_start_ok [OF cf, of d blocks]) blast
  have "s1 = s0"
    using s0 s1(1) by simp
  moreover have "cpus s1 \<noteq> []"
    using s1(3) cf by (auto simp: conf_ok_def)
  ultimately have "fed s0"
    using s1(4,5) by (intro fedI) (auto simp: awake_def)
  with clock_start [OF s0] bar_init_ok(1) cf s1(2,6,7) \<open>s1 = s0\<close> show ?thesis
    by (auto simp: sys_state_def ld_over_def exit_ok_def)
qed

interpretation state_inv: transition_invariant "os_step cf" "sys_state cf" for cf
  by unfold_locales (rule sys_state_step)

subsection \<open>The end of a run\<close>

text \<open>All programs have been loaded and all processes have ended and been released.\<close>

definition completed :: "conf_t \<Rightarrow> os_t \<Rightarrow> bool" where
  "completed cf s \<longleftrightarrow> kheap (kst s) = {} \<and> li (ldr s) = length (ld_path cf)"

lemma long_run_completed:
  assumes sys: "sys_state cf s" and r: "(os_step cf ^^ k) s s'" "Suc (work_rank cf s) \<le> k"
  shows "completed cf s'"
proof -
  have "all_ended s'"
    using busy_run.run_length [of k cf s s'] busy_runs [OF r(1) sys] sys r(2) by fastforce
  moreover have "sys_state cf s'"
    using state_inv.steps_inv [OF relpowp_imp_rtranclp [OF r(1)] sys] .
  ultimately show ?thesis
    by (simp add: all_ended_def sys_state_def ld_over_def completed_def)
qed

text \<open>A stopped CPU holds no process, and a process that waits keeps some CPU from stopping.\<close>

lemma all_stopped_completed:
  assumes sys: "sys_state cf s" and stop: "all_stopped s"
  shows "completed cf s"
proof -
  have ok: "os_ok cf s" and fed: "fed s" and over: "ld_over cf s"
    using sys by (simp_all add: sys_state_def)
  have at: "cpc (cpus s ! i) = C_stopped" "cproc (cpus s ! i) = None" if "i < length (cpus s)" for i
  proof -
    show "cpc (cpus s ! i) = C_stopped"
      using stop that by (simp add: all_stopped_def list_all_length)
    then show "cproc (cpus s ! i) = None"
      using os_placed(4) [OF ok that] by (auto simp: cpu_ok_def split: option.splits)
  qed
  have "\<not> queued (ksched (kst s)) p" for p
    using fedD(4) [OF fed, of p] at stop by (auto simp: fresh_def awake_def all_stopped_def)
  moreover have "\<not> holds (cpus s) i p" for i p
    using at(2) by (auto simp: holds_def)
  ultimately have "kheap (kst s) = {}"
    using os_placed(2) [OF ok] by blast
  with over stop show ?thesis
    by (simp add: completed_def ld_over_def all_stopped_def)
qed

lemma run_or_stuck:
  fixes R :: "'s \<Rightarrow> 's \<Rightarrow> bool"
  shows "\<exists>k s'. (R ^^ k) s s' \<and> (k = n \<or> (\<nexists>s''. R s' s''))"
proof (induction n)
  case 0
  show ?case
    by (intro exI [of _ 0] exI [of _ s]) simp
next
  case (Suc n)
  then obtain k s' where k: "(R ^^ k) s s'" "k = n \<or> (\<nexists>s''. R s' s'')"
    by blast
  show ?case
  proof (cases "\<exists>s''. R s' s''")
    case True
    with k show ?thesis
      by (metis relpowp_Suc_I)
  next
    case False
    with k(1) show ?thesis by blast
  qed
qed

subsection \<open>Properties\<close>

text \<open>
  C4. Every process runs to its end. From every state of a run, in whatever order the threads are
  scheduled: there is a number of steps after which, if the simulator still runs, all programs of the
  configuration have been loaded and all processes have ended and been released; when all threads have
  stopped, this is also true, so that it is true when \<open>main\<close> returns; and when no thread can take a step
  any more it is true, unless the simulator ended because \<open>load\<close> could not read the next program. One of
  the two is always reached. No process is forgotten in a queue: not by a CPU that stops, not by one
  that goes idle and not while the loader is about to end.
\<close>

theorem all_processes_end:
  assumes "conf_ok cf" and "os_start cf d blocks = Inr s0" and "(os_step cf)\<^sup>*\<^sup>* s0 s"
  shows "(\<exists>N. \<forall>k s'. (os_step cf ^^ k) s s' \<and> N \<le> k \<longrightarrow> completed cf s') \<and>
    (\<forall>s'. (os_step cf)\<^sup>*\<^sup>* s s' \<and> all_stopped s' \<longrightarrow> completed cf s') \<and>
    (\<forall>s'. (os_step cf)\<^sup>*\<^sup>* s s' \<and> (\<nexists>s''. os_step cf s' s'') \<longrightarrow>
       mpc s' = M_end \<and> completed cf s' \<or> mpc s' \<noteq> M_end \<and> load_failed cf s') \<and>
    (\<exists>s'. (os_step cf)\<^sup>*\<^sup>* s s' \<and> (completed cf s' \<or> load_failed cf s'))"
proof -
  have sys: "sys_state cf s"
    using state_inv.steps_inv [OF assms(3) start_fed [OF assms(1,2)]] .
  have final: "mpc s' = M_end \<and> completed cf s' \<or> mpc s' \<noteq> M_end \<and> load_failed cf s'"
    if r: "(os_step cf)\<^sup>*\<^sup>* s s'" "\<nexists>s''. os_step cf s' s''" for s'
  proof -
    note sys' = state_inv.steps_inv [OF r(1) sys]
    have "exited s'"
      using not_stuck [OF assms(1,2) rtranclp_trans [OF assms(3) r(1)]] r(2) by blast
    moreover have "all_stopped s'" if "mpc s' = M_end"
      using sys' that by (simp add: sys_state_def main_ok_def)
    ultimately show ?thesis
      using sys' all_stopped_completed [OF sys'] by (auto simp: sys_state_def exit_ok_def)
  qed
  obtain k s' where k: "(os_step cf ^^ k) s s'" "k = Suc (work_rank cf s) \<or> (\<nexists>s''. os_step cf s' s'')"
    using run_or_stuck [of "os_step cf"] by blast
  have "completed cf s' \<or> load_failed cf s'"
    using k(2) final [OF relpowp_imp_rtranclp [OF k(1)]] long_run_completed [OF sys k(1)] by fastforce
  moreover have "completed cf s'" if "(os_step cf)\<^sup>*\<^sup>* s s'" "all_stopped s'" for s'
    using all_stopped_completed [OF state_inv.steps_inv [OF that(1) sys] that(2)] .
  ultimately show ?thesis
    using long_run_completed [OF sys] final relpowp_imp_rtranclp [OF k(1)] by blast
qed

theorem all_processes_end_witness:
  "\<exists>s0 s N. os_start (cf1 []) (\<lambda>_. device 512) (\<lambda>_. pcb0) = Inr s0 \<and> (os_step (cf1 []))\<^sup>*\<^sup>* s0 s \<and> all_stopped s \<and>
    kheap (kst s) = {} \<and> li (ldr s) = 1 \<and> (\<nexists>s'. (os_step (cf1 []) ^^ N) s0 s' \<and> (kheap (kst s') \<noteq> {} \<or> li (ldr s') \<noteq> 1))"
proof -
  obtain s0 where s0: "os_start (cf1 []) (\<lambda>_. device 512) (\<lambda>_. pcb0) = Inr s0"
    by (rule os_start_ok [OF cf1_ok])
  obtain s where s: "(os_step (cf1 []))\<^sup>*\<^sup>* s0 s" "all_stopped s"
    using stopped_reached [OF s0] by blast
  note T = all_processes_end [OF cf1_ok s0 rtranclp.rtrancl_refl]
  obtain N where N: "\<forall>k s'. (os_step (cf1 []) ^^ k) s0 s' \<and> N \<le> k \<longrightarrow> completed (cf1 []) s'"
    using T by blast
  have one: "completed (cf1 []) s' \<longleftrightarrow> kheap (kst s') = {} \<and> li (ldr s') = 1" for s'
    by (simp add: completed_def cf1_def)
  have "\<nexists>s'. (os_step (cf1 []) ^^ N) s0 s' \<and> (kheap (kst s') \<noteq> {} \<or> li (ldr s') \<noteq> 1)"
    using N one by (metis order_refl)
  moreover have "completed (cf1 []) s"
    using T s by blast
  ultimately show ?thesis
    using s0 s one by blast
qed

end
