(* ===== verification/Oldmem.thy ===== *)
theory Oldmem
  imports Loader
begin

text \<open>
  The obsolete segmented memory of \<open>src/mem.c\<close> and the instructions of \<open>src/cpu.c\<close> that use it
  (\<open>alloc\<close>, \<open>free_data\<close>, \<open>read\<close>, \<open>write\<close>), which are built but not called when paging is configured.
  The bodies of several functions have been removed from the source; what is left is modelled as it is.
  The lemmas show what remains: the layout of an address, and that no access succeeds.

  The page table is a field of \<open>pcb_t\<close> that only this file uses, so the process is the extension
  \<open>opcb_t\<close>. A local variable that has not been written is \<open>None\<close>, and its use is \<open>Uninit_read\<close>.
\<close>

subsection \<open>Data\<close>

definition ADDRESS_SIZE :: nat where
  "ADDRESS_SIZE = 20"

definition OFFSET_LEN :: nat where
  "OFFSET_LEN = 10"

definition FIRST_LV_LEN :: nat where
  "FIRST_LV_LEN = 5"

definition SECOND_LV_LEN :: nat where
  "SECOND_LV_LEN = 5"

definition PAGE_LEN :: nat where
  "PAGE_LEN = SECOND_LV_LEN"

definition NUM_PAGES :: nat where
  "NUM_PAGES = 2 ^ (ADDRESS_SIZE - OFFSET_LEN)"

definition RAM_SIZE :: nat where
  "RAM_SIZE = 2 ^ ADDRESS_SIZE"

record trans_row =
  v_index :: u32
  p_index :: u32

record trans_table_t =
  trans_rows :: "trans_row list"
  trans_size :: int

record page_row =
  seg_index :: u32
  next_lv :: "trans_table_t option"



record mem_stat_t =
  ms_proc :: u32
  ms_index :: int
  ms_next :: int

record oldmem =
  oram :: "byte list"
  mem_stat :: "mem_stat_t list"

subsection \<open>The functions of \<open>mem.c\<close>\<close>

definition init_mem :: "oldmem \<Rightarrow> oldmem" where
  "init_mem m = m\<lparr>mem_stat := replicate NUM_PAGES \<lparr>ms_proc = 0, ms_index = 0, ms_next = 0\<rparr>, oram := replicate RAM_SIZE 0\<rparr>"

definition get_offset :: "u32 \<Rightarrow> u32" where
  "get_offset addr = addr AND NOT (push_bit OFFSET_LEN (NOT 0))"

definition get_first_lv :: "u32 \<Rightarrow> u32" where
  "get_first_lv addr = drop_bit (OFFSET_LEN + PAGE_LEN) addr"

definition get_second_lv :: "u32 \<Rightarrow> u32" where
  "get_second_lv addr = drop_bit OFFSET_LEN addr - push_bit PAGE_LEN (get_first_lv addr)"











text \<open>
  What \<open>dump\<close> prints: for each page in use its number, its first and its last address and its entry,
  and the cells of the page that are not 0.
\<close>

definition page_cells :: "oldmem \<Rightarrow> nat \<Rightarrow> (nat \<times> byte) list" where
  "page_cells m i =
     map (\<lambda>j. (j, oram m ! j))
       (filter (\<lambda>j. oram m ! j \<noteq> 0) [push_bit OFFSET_LEN i ..< push_bit OFFSET_LEN (i + 1) - 1])"

definition dump :: "oldmem \<Rightarrow> (nat \<times> nat \<times> nat \<times> mem_stat_t \<times> (nat \<times> byte) list) list" where
  "dump m =
     map (\<lambda>i. (i, push_bit OFFSET_LEN i, push_bit OFFSET_LEN (i + 1) - 1, mem_stat m ! i, page_cells m i))
       (filter (\<lambda>i. ms_proc (mem_stat m ! i) \<noteq> 0) [0..<NUM_PAGES])"

subsection \<open>The instructions of \<open>cpu.c\<close>\<close>





lemmas old_defs = ADDRESS_SIZE_def OFFSET_LEN_def FIRST_LV_LEN_def SECOND_LV_LEN_def PAGE_LEN_def NUM_PAGES_def RAM_SIZE_def

subsection \<open>Addresses\<close>

lemma uint_push_bit: "uint (push_bit n w :: u32) = uint w * 2 ^ n mod 4294967296"
proof -
  have "uint (push_bit n w :: u32) = take_bit 32 (push_bit n (uint w))"
    by (simp only: unsigned_push_bit_eq) simp
  then show ?thesis
    by (simp only: push_bit_eq_mult take_bit_eq_mod) simp
qed

lemma div_div_32: "(x :: int) div 1024 div 32 = x div 32768"
  by (simp add: zdiv_zmult2_eq [symmetric])

lemma uint_parts:
  "uint (get_offset a) = uint a mod 1024"
  "uint (get_first_lv a) = uint a div 32768"
  "uint (get_second_lv a) = uint a div 1024 mod 32"
proof -
  have "get_offset a = take_bit 10 a"
    by (rule bit_word_eqI) (auto simp: get_offset_def old_defs bit_simps)
  then have "get_offset a = a mod 1024"
    by (simp add: take_bit_eq_mod)
  then show "uint (get_offset a) = uint a mod 1024"
    by (simp only: uint_mod) simp
  show f: "uint (get_first_lv a) = uint a div 32768"
    by (simp add: get_first_lv_def old_defs drop_bit_eq_div uint_div)
  have x: "uint a < 4294967296" "0 \<le> uint a"
    using uint_lt2p [of a] by simp_all
  have "uint (get_second_lv a) = (uint a div 1024 - uint a div 32768 * 32) mod 4294967296"
    unfolding get_second_lv_def
    by (simp add: uint_word_ariths uint_push_bit f old_defs drop_bit_eq_div uint_div mod_simps)
  also have "uint a div 1024 - uint a div 32768 * 32 = uint a div 1024 mod 32"
    using mult_div_mod_eq [of 32 "uint a div 1024"] div_div_32 [of "uint a"] by linarith
  also have "\<dots> mod 4294967296 = \<dots>"
    using pos_mod_bound [of 32 "uint a div 1024"] pos_mod_sign [of 32 "uint a div 1024"] by simp
  finally show "uint (get_second_lv a) = uint a div 1024 mod 32" .
qed

subsection \<open>Nothing is translated\<close>




subsection \<open>Properties\<close>

text \<open>
  The three parts of an address of the obsolete memory determine it: the second index is below 32,
  the offset below 1024, the first index below 32 exactly for the addresses inside the 20-bit space,
  and putting the parts together gives the address back, for every 32-bit value.
\<close>

lemma old_address_parts:
  "get_offset a < 1024 \<and> get_second_lv a < 32 \<and> (get_first_lv a < 32 \<longleftrightarrow> uint a < 2 ^ 20) \<and>
   push_bit 15 (get_first_lv a) + push_bit 10 (get_second_lv a) + get_offset a = a"
proof -
  note u = uint_parts [of a]
  have x: "0 \<le> uint a" "uint a < 4294967296"
    using uint_lt2p [of a] by simp_all
  have sum: "uint a div 32768 * 32768 + uint a div 1024 mod 32 * 1024 + uint a mod 1024 = uint a"
    using mult_div_mod_eq [of 32 "uint a div 1024"] mult_div_mod_eq [of 1024 "uint a"] div_div_32 [of "uint a"] by linarith
  have "uint (push_bit 15 (get_first_lv a) + push_bit 10 (get_second_lv a) + get_offset a) =
      (uint a div 32768 * 32768 + uint a div 1024 mod 32 * 1024 + uint a mod 1024) mod 4294967296"
    by (simp only: uint_word_ariths uint_push_bit u) (simp add: mod_simps)
  then have "uint (push_bit 15 (get_first_lv a) + push_bit 10 (get_second_lv a) + get_offset a) = uint a"
    unfolding sum using x by simp
  then have "push_bit 15 (get_first_lv a) + push_bit 10 (get_second_lv a) + get_offset a = a"
    by (simp add: word_uint_eq_iff)
  moreover have "uint a div 32768 < 32 \<longleftrightarrow> uint a < 1048576"
    by linarith
  then have "get_first_lv a < 32 \<longleftrightarrow> uint a < 2 ^ 20"
    using u(2) by (simp add: word_less_def)
  ultimately show ?thesis
    using u(1,3) by (simp add: word_less_def)
qed




text \<open>The last cell of a page is never printed, although its address is given as the end of the page.\<close>

lemma dump_misses_last_cell:
  "e \<in> set (dump m) \<Longrightarrow> (case e of (i, first, lst, st, cells) \<Rightarrow> \<forall>(j, v) \<in> set cells. j < lst)"
  by (auto simp: dump_def page_cells_def)

end
