(* ===== verification/Spec2Isabelle.thy ===== *)
theory Spec2Isabelle
  imports Completion Oldmem
begin

text \<open>
  Verification of the operating system simulator under \<open>src/\<close>, as it is built: multi-level queue
  scheduling (\<open>MLQ_SCHED\<close>) and demand paging (\<open>MM_PAGING\<close>).

  \<^bold>\<open>The program.\<close> \<open>main\<close> (\<open>src/os.c\<close>) reads a configuration, creates one RAM and four swap devices
  and starts one thread per CPU, a loader and a timer. The loader reads programs and hands processes
  to the scheduler; a CPU takes a process, executes its instructions for some time slots and puts it
  back; instructions allocate, read and write memory through the page table of the process, which may
  move pages between RAM and swap, or make system calls, of which \<open>killall\<close> ends other processes. The
  timer is a barrier that gives all threads the same slots.

  \<^bold>\<open>Theories, from the bottom.\<close>
  \<^item> \<open>Prelude\<close>: C integers, undefined behaviour as the value \<open>Inl e\<close>, invariants and ranks of transition
    systems (locales \<open>transition_invariant\<close> and \<open>transition_rank\<close>), generic lemmas.
  \<^item> \<open>Bitops\<close>, \<open>Pte\<close>: \<open>include/bitops.h\<close>, the macros of \<open>include/mm.h\<close> and the functions of
    \<open>src/mm.c\<close> on page table entries. Fields read back what was stored; addresses and frame numbers
    are cut to their width.
  \<^item> \<open>Memphy\<close>: \<open>src/mm-memphy.c\<close>. Locales \<open>byte_device\<close> and \<open>frame_pool\<close> are what the paging code
    relies on.
  \<^item> \<open>Region\<close>: the free list of an area (\<open>src/libmem.c\<close>, \<open>src/mm.c\<close>); locale \<open>region_allocator\<close>.
  \<^item> \<open>Mm\<close>, \<open>Paging\<close>: \<open>src/mm.c\<close>, \<open>src/mm-vm.c\<close> and the page replacement of \<open>src/libmem.c\<close>, and
    what they do to the memory a process sees: \<open>vmem\<close> is that memory, \<open>paging_ok\<close> accounts for every
    frame, and moving pages is invisible.
  \<^item> \<open>Libmem\<close>, \<open>Vm\<close>, \<open>Access\<close>, \<open>Memory\<close>: \<open>src/libmem.c\<close> and system call 17 (\<open>src/sys_mem.c\<close>); the
    invariant \<open>vm_ok\<close> of one process, reads and writes as a memory that may fault (locale
    \<open>faulting_memory\<close>, interpreted for addresses and for regions), and the properties of allocation,
    access and release.
  \<^item> \<open>Isolation\<close>: all processes on the shared devices. Every frame has one owner, and calls of one
    process do not change what another one sees.
  \<^item> \<open>Queue\<close>, \<open>Common\<close>, \<open>Sched\<close>: \<open>src/queue.c\<close> (locale \<open>bounded_fifo\<close>), \<open>include/common.h\<close> and
    \<open>src/sched.c\<close>, with the policy as an abstract specification, freedom from starvation and
    \<open>kill_proc_by_name\<close>.
  \<^item> \<open>Syscall\<close>, \<open>Cpu\<close>: \<open>src/syscall.c\<close>, \<open>src/sys_killall.c\<close>, \<open>src/sys_listsyscall.c\<close>, \<open>src/libstd.c\<close>
    and \<open>run\<close> of \<open>src/cpu.c\<close>. The record \<open>kernel\<close> is all shared state; \<open>kernel_ok\<close> is its invariant and
    \<open>effect\<close> bounds what an instruction does to others.
  \<^item> \<open>Loader\<close>, \<open>Config\<close>: \<open>src/loader.c\<close> and \<open>read_config\<close> of \<open>src/os.c\<close>. What is printed is read
    back (locale \<open>number_format\<close> for the conversions of \<open>scanf\<close>), and what is accepted has been checked.
  \<^item> \<open>Timer\<close>: \<open>src/timer.c\<close> as a barrier between the timer thread and its devices.
  \<^item> \<open>Os\<close>, \<open>System\<close>, \<open>Endtoend\<close>: the threads of \<open>src/os.c\<close> in any interleaving. The system is safe,
    its threads use the clock as the barrier requires, a process is not disturbed by the steps that
    execute no instruction of it, and what a program writes it reads back, whatever it and the others
    do to other bytes in between.
  \<^item> \<open>Progress\<close>, \<open>Completion\<close>: liveness without any assumption on the scheduling of the threads. No
    state is a deadlock, the clock advances after a bounded number of steps, every process runs to its
    end unless a program file cannot be loaded, no process is left when all threads have stopped, and
    then \<open>main\<close> returns. Each of these is a rank that the steps
    decrease (locale \<open>transition_rank\<close>).
  \<^item> \<open>Oldmem\<close>: \<open>src/mem.c\<close> and the instructions of \<open>src/cpu.c\<close> that use it, which are built but not
    called.

  \<^bold>\<open>State and operations.\<close> A struct is a record with the fields of the source, a pointer to a process
  is a number, a linked list is a list, an array a list or a function with its bounds written out.
  A function of the source is a definition of the same name; two leading underscores are \<open>u_\<close> or are
  dropped. Results are \<open>(return code, outputs, new state)\<close>. An access C gives no meaning to is
  \<open>Inl e\<close>, and the safety theorems say that it does not occur. Functions that run under a lock are one
  transition. Threads have a program counter (\<open>cpu_pc\<close>, \<open>ld_pc\<close>, \<open>timer_pc\<close>, \<open>main_pc\<close>), and a step is the code
  between two points where another thread can act: a call of the scheduler, the release of a process,
  an instruction, the two halves of \<open>next_slot\<close>, the store of \<open>done\<close>.

  \<^bold>\<open>Loops and bounds.\<close> Every loop of the model is a total function: structural recursion, or
  \<open>function\<close> with a measure. No fuel is used. The threads run forever or not as the source does, since
  they are step relations. The theorems on the whole system ask for at most 100 processes (the size
  of the queues), RAM of at most 2 MB (13 bits of frame number), swap of at most 512 MB, programs that
  allocate at most 4 MB altogether (the 22-bit address space) and do not call system call 17
  directly. Properties in \<open>Memory\<close>, \<open>Pte\<close> and \<open>Cpu\<close> show what the code does beyond these limits.

  \<^bold>\<open>Parameters.\<close> The file system is an argument (the contents of the files that can be opened), as are
  the contents of memory \<open>malloc\<close> returns and of local variables before they are set. \<open>malloc\<close> is
  taken to succeed.

  \<^bold>\<open>Not modelled.\<close> The text printed on the terminal; the release of C heap objects other than the
  process control block; \<open>src/paging.c\<close>, a second \<open>main\<close> that is not part of the program; two macros
  of \<open>include/bitops.h\<close> that refer to an undefined one; the tests of the device functions for a null
  device, which is never passed; the interleaving of other threads inside \<open>killall\<close>, which takes its
  locks more than once; the C11 status of the plain accesses to the shared flag \<open>done\<close>, which are a data
  race there and atomic steps here; system call 17 from the instruction \<open>SYSCALL\<close> racing with a library call, which the limits
  exclude.
\<close>

end
